(* ===== verification/Prelude.thy ===== *)
theory Prelude
  imports Main "HOL-Library.Word"
begin

text \<open>
  What the components share: the machine types of the code, the behaviour of the standard
  library's range copies and bit helpers on lists and numbers, and the arithmetic of ring
  indices. The collection \<open>ring_simps\<close> holds the facts with which the ring buffers'
  index computations are simplified, \<open>buf_simps\<close> those about block writes into an array.
\<close>

unbundle bit_operations_syntax

named_theorems ring_simps \<open>ring index arithmetic\<close>
named_theorems buf_simps \<open>block writes into an array\<close>

type_synonym usize = "64 word"

text \<open>\<open>std::numeric_limits<std::size_t>::max()\<close>.\<close>

abbreviation usize_max :: usize where
  "usize_max \<equiv> - 1"

lemma unat_add_nowrap: "unat a + unat b < 2 ^ 64 \<Longrightarrow> unat (a + b) = unat a + unat b" for a b :: usize
  using unat_add_lem [of a b] by simp

lemma usize_less: "unat a < 2 ^ 64" for a :: usize
proof -
  have "unat a < 2 ^ LENGTH(64)" by (rule unsigned_less)
  then show ?thesis by simp
qed

lemma unat_usize_of_nat: "n < 2 ^ 64 \<Longrightarrow> unat (of_nat n :: usize) = n"
  by (simp add: unat_of_nat)

lemma unat_sub_le: "b \<le> a \<Longrightarrow> unat (a - b) = unat a - unat b" for a b :: usize
  by (rule unat_sub)

text \<open>Where a \<open>std::size_t\<close> is a natural number, its largest value, which also stands for an undefined size and an invalid index.\<close>

definition size_max :: nat where
  "size_max = 2 ^ 64 - 1"

definition undefined_size :: nat where
  "undefined_size = size_max"

subsection \<open>Searches in a list\<close>

text \<open>\<open>std::ranges::find_if\<close>: the first position whose element satisfies the predicate.\<close>

fun first_index :: "('a \<Rightarrow> bool) \<Rightarrow> 'a list \<Rightarrow> nat option" where
  "first_index P [] = None"
| "first_index P (x # xs) = (if P x then Some 0 else map_option Suc (first_index P xs))"

lemma first_index_None: "first_index P xs = None \<longleftrightarrow> (\<forall>x \<in> set xs. \<not> P x)"
  by (induction xs) auto

lemma first_index_Some:
  "first_index P xs = Some i \<longleftrightarrow> i < length xs \<and> P (xs ! i) \<and> (\<forall>j < i. \<not> P (xs ! j))"
proof (induction xs arbitrary: i)
  case (Cons x xs)
  show ?case
  proof (cases i)
    case 0
    then show ?thesis by simp
  next
    case (Suc k)
    then show ?thesis using Cons.IH [of k] by (auto simp: less_Suc_eq_0_disj)
  qed
qed simp

subsection \<open>Bit helpers of the standard library\<close>

text \<open>\<open>std::bit_ceil\<close>: the smallest power of two that is not below its argument.\<close>

function bit_ceil :: "nat \<Rightarrow> nat" where
  "bit_ceil n = (if n \<le> 1 then 1 else 2 * bit_ceil ((n + 1) div 2))"
  by pat_completeness auto
termination
  by (relation "measure id") auto

declare bit_ceil.simps [simp del]

lemma bit_ceil_power: "\<exists>k. bit_ceil n = 2 ^ k"
proof (induction n rule: bit_ceil.induct)
  case (1 n)
  show ?case
  proof (cases "n \<le> 1")
    case True
    then show ?thesis by (subst bit_ceil.simps) (auto intro: exI [of _ 0])
  next
    case False
    with 1 obtain k where "bit_ceil ((n + 1) div 2) = 2 ^ k" by auto
    with False have "bit_ceil n = 2 ^ Suc k" by (subst bit_ceil.simps) simp
    then show ?thesis ..
  qed
qed

lemma bit_ceil_ge: "n \<le> bit_ceil n"
proof (induction n rule: bit_ceil.induct)
  case (1 n)
  show ?case
  proof (cases "n \<le> 1")
    case True
    then show ?thesis by (subst bit_ceil.simps) simp
  next
    case False
    with 1 have "(n + 1) div 2 \<le> bit_ceil ((n + 1) div 2)" by simp
    with False have "n \<le> 2 * bit_ceil ((n + 1) div 2)" by linarith
    with False show ?thesis by (subst bit_ceil.simps) simp
  qed
qed

lemma bit_ceil_pos [simp]: "0 < bit_ceil n"
  using bit_ceil_power [of n] by auto

text \<open>\<open>std::has_single_bit\<close>: whether the argument is a power of two.\<close>

definition has_single_bit :: "nat \<Rightarrow> bool" where
  "has_single_bit n \<longleftrightarrow> bit_ceil n = n"

lemma has_single_bit_power: "has_single_bit n \<Longrightarrow> \<exists>k. n = 2 ^ k"
  using bit_ceil_power [of n] by (simp add: has_single_bit_def)

lemma bit_ceil_2_power: "bit_ceil (2 ^ k) = 2 ^ k"
proof (induction k)
  case 0
  show ?case by (subst bit_ceil.simps) simp
next
  case (Suc k)
  have "(2 ^ Suc k + 1) div 2 = (2 ^ k :: nat)" by simp
  moreover have "\<not> (2::nat) ^ Suc k \<le> 1" using one_less_power [of "2::nat" "Suc k"] by (simp only: not_le)
  ultimately show ?case using Suc by (subst bit_ceil.simps) (simp only: if_False power_Suc)
qed

lemma has_single_bit_bit_ceil [simp]: "has_single_bit (bit_ceil n)"
  using bit_ceil_power [of n] by (auto simp: has_single_bit_def bit_ceil_2_power)

lemma and_pred_power: "x AND (2 ^ k - 1) = x mod 2 ^ k" for x :: nat
  by (metis mask_eq_exp_minus_1 take_bit_eq_mask take_bit_eq_mod)

lemma and_mask_single_bit:
  "has_single_bit n \<Longrightarrow> x AND (n - 1) = x mod n" for x :: nat
  using has_single_bit_power [of n] and_pred_power [of x] by auto

subsection \<open>Ring indices\<close>

lemma ring_inj:
  assumes "i < n" "j < n" "(w + i) mod n = (w + j) mod (n::nat)"
  shows "i = j"
proof -
  have "(int w + int i) mod int n = (int w + int j) mod int n"
    using assms(3) by (metis of_nat_add zmod_int)
  then have "(int i - int j) mod int n = 0"
    by (metis add_diff_cancel_left mod_diff_cong diff_self mod_0)
  then have "int n dvd int i - int j" by auto
  moreover have "\<bar>int i - int j\<bar> < int n" using assms(1,2) by auto
  ultimately show ?thesis
    using zdvd_imp_le by (metis abs_of_nat dvd_abs_iff eq_iff_diff_eq_0 nat_int not_less of_nat_eq_iff
      zero_less_abs_iff)
qed

lemma ring_dist:
  assumes "w < n" "j < (n::nat)"
  shows "(w + (j + n - w) mod n) mod n = j"
proof -
  have "(w + (j + n - w) mod n) mod n = (w + (j + n - w)) mod n" by (simp add: mod_add_right_eq)
  also have "\<dots> = j" using assms by simp
  finally show ?thesis .
qed

lemma ring_dist_shift:
  assumes "w < n" "i < (n::nat)"
  shows "((w + i) mod n + n - w) mod n = i"
proof (cases "w + i < n")
  case True
  then have "((w + i) mod n + n - w) = i + n" using assms by simp
  with assms show ?thesis by simp
next
  case False
  then have "(w + i) mod n = w + i - n" using assms by (simp add: mod_if)
  with False assms show ?thesis by simp
qed

lemma ring_pred:
  assumes "w < n" "0 < i"
  shows "((w + (n - 1)) mod n + i) mod n = (w + (i - 1)) mod (n::nat)"
proof -
  have "((w + (n - 1)) mod n + i) mod n = (w + (n - 1) + i) mod n" by (rule mod_add_left_eq)
  also have "w + (n - 1) + i = (w + (i - 1)) + n" using assms by simp
  finally show ?thesis by simp
qed

lemma ring_add: "((w + k) mod n + i) mod n = (w + (k + i)) mod (n::nat)"
  by (simp add: mod_add_left_eq add.assoc)

lemma ring_offset:
  assumes "i < n" "k \<le> (n::nat)"
  shows "((w + i) mod n + n - (w + k) mod n) mod n = (if k \<le> i then i - k else i + n - k)"
proof -
  define d where "d = (if k \<le> i then i - k else i + n - k)"
  have "(w + i) mod n = (w + (k + d)) mod n"
  proof (cases "k \<le> i")
    case True
    then show ?thesis by (simp add: d_def)
  next
    case False
    then have "w + (k + d) = (w + i) + n" using assms by (simp add: d_def)
    then show ?thesis by (simp only: mod_add_self2)
  qed
  then have "(w + i) mod n = ((w + k) mod n + d) mod n" by (simp add: ring_add)
  moreover have "d < n" using assms by (auto simp: d_def)
  ultimately show ?thesis using ring_dist_shift [of "(w + k) mod n" n d] assms by (simp add: d_def)
qed

lemma ring_back: "w < n \<Longrightarrow> (w + (n - 1)) mod n = (if w = 0 then n - 1 else w - 1)" for n :: nat
  by (auto simp: mod_if)

subsection \<open>Block writes\<close>

text \<open>
  \<open>std::copy\<close> and \<open>std::memcpy\<close> into an array: \<open>ys\<close> replaces the elements from \<open>pos\<close>.
\<close>

definition write_at :: "nat \<Rightarrow> 'a list \<Rightarrow> 'a list \<Rightarrow> 'a list" where
  "write_at pos ys xs = take pos xs @ ys @ drop (pos + length ys) xs"

text \<open>\<open>std::copy_n\<close> within one array (disjoint ranges).\<close>

definition copy_n :: "nat \<Rightarrow> nat \<Rightarrow> nat \<Rightarrow> 'a list \<Rightarrow> 'a list" where
  "copy_n src n dst xs = write_at dst (take n (drop src xs)) xs"

lemma length_write_at [buf_simps]:
  "pos + length ys \<le> length xs \<Longrightarrow> length (write_at pos ys xs) = length xs"
  by (simp add: write_at_def)

lemma nth_write_at [buf_simps]:
  "pos + length ys \<le> length xs \<Longrightarrow> i < length xs \<Longrightarrow>
   write_at pos ys xs ! i = (if pos \<le> i \<and> i < pos + length ys then ys ! (i - pos) else xs ! i)"
  by (auto simp: write_at_def nth_append)

lemma write_at_single: "pos < length xs \<Longrightarrow> write_at pos [v] xs = xs[pos := v]"
  by (simp add: write_at_def upd_conv_take_nth_drop)

lemma length_copy_n [buf_simps]:
  "dst + n \<le> length xs \<Longrightarrow> length (copy_n src n dst xs) = length xs"
  by (simp add: copy_n_def length_write_at)

lemma nth_copy_n [buf_simps]:
  "dst + n \<le> length xs \<Longrightarrow> src + n \<le> length xs \<Longrightarrow> i < length xs \<Longrightarrow>
   copy_n src n dst xs ! i = (if dst \<le> i \<and> i < dst + n then xs ! (src + (i - dst)) else xs ! i)"
  by (auto simp: copy_n_def nth_write_at)

text \<open>The same block written into both halves of a double array of \<open>2 * n\<close> elements.\<close>

definition write_both :: "nat \<Rightarrow> nat \<Rightarrow> 'a list \<Rightarrow> 'a list \<Rightarrow> 'a list" where
  "write_both n p ys b = write_at (p + n) ys (write_at p ys b)"

lemma length_write_both:
  "p + length ys \<le> n \<Longrightarrow> length b = n * 2 \<Longrightarrow> length (write_both n p ys b) = n * 2"
  by (simp add: write_both_def length_write_at)

lemma nth_write_both:
  assumes "p + length ys \<le> n" "length b = n * 2" "j < n" "m = j \<or> m = j + n"
  shows "write_both n p ys b ! m = (if p \<le> j \<and> j < p + length ys then ys ! (j - p) else b ! m)"
  using assms by (elim disjE) (simp_all add: write_both_def nth_write_at length_write_at)

end
