(* ===== verification/HistoryBuffer.thy ===== *)
theory HistoryBuffer
  imports Prelude
begin

text \<open>
  The single-threaded history ring of \<^verbatim>\<open>core/include/gnuradio-4.0/HistoryBuffer.hpp\<close>:
  a primary half, a lazily synchronised mirror half and a count of the elements whose mirror is
  stale. The fixed-capacity instance (\<open>hb_fixed = Some N\<close>) and the dynamic one (ring size
  rounded up to a power of two) share every operation. The theory ends with the contract of a
  bounded history and its interpretation on these operations.
\<close>

datatype hb_error = OutOfRange

record 'a history_buffer =
  hb_buffer :: "'a list"
  hb_fixed :: "nat option"
  hb_capacity :: nat
  hb_write_position :: nat
  hb_size :: nat
  hb_ringMask :: nat
  hb_mirrorDirtyCount :: nat

definition ringCapacity :: "'a history_buffer \<Rightarrow> nat" where
  "ringCapacity h = (case hb_fixed h of None \<Rightarrow> hb_ringMask h + 1 | Some n \<Rightarrow> n)"

definition map_index :: "'a history_buffer \<Rightarrow> nat \<Rightarrow> nat" where
  "map_index h i =
     (case hb_fixed h of
        None \<Rightarrow> (hb_write_position h + i) AND hb_ringMask h
      | Some n \<Rightarrow> if has_single_bit n then (hb_write_position h + i) AND (n - 1)
                  else (hb_write_position h + i) mod n)"

definition syncMirror :: "'a history_buffer \<Rightarrow> 'a history_buffer" where
  "syncMirror h =
     (if hb_mirrorDirtyCount h = 0 then h
      else
        let rc = ringCapacity h; contiguous = rc - hb_write_position h; d = hb_mirrorDirtyCount h;
            w = hb_write_position h
        in if d \<le> contiguous
           then h\<lparr>hb_buffer := copy_n w d (w + rc) (hb_buffer h), hb_mirrorDirtyCount := 0\<rparr>
           else h\<lparr>hb_buffer := copy_n 0 (d - contiguous) rc (copy_n w contiguous (w + rc) (hb_buffer h)),
                  hb_mirrorDirtyCount := 0\<rparr>)"

text \<open>The two constructors; a dynamic buffer of capacity zero is refused by an exception.\<close>

definition new_fixed :: "nat \<Rightarrow> 'a \<Rightarrow> 'a history_buffer" where
  "new_fixed n d =
     \<lparr>hb_buffer = replicate (n * 2) d, hb_fixed = Some n, hb_capacity = n, hb_write_position = 0,
      hb_size = 0, hb_ringMask = n - 1, hb_mirrorDirtyCount = 0\<rparr>"

definition new_dynamic :: "nat \<Rightarrow> 'a \<Rightarrow> hb_error + 'a history_buffer" where
  "new_dynamic cap d =
     (if cap = 0 then Inl OutOfRange
      else Inr \<lparr>hb_buffer = replicate (bit_ceil cap * 2) d, hb_fixed = None, hb_capacity = cap,
                hb_write_position = 0, hb_size = 0, hb_ringMask = bit_ceil cap - 1,
                hb_mirrorDirtyCount = 0\<rparr>)"

definition push_front :: "'a \<Rightarrow> 'a history_buffer \<Rightarrow> 'a history_buffer" where
  "push_front v h =
     (let h1 = (if hb_size h < hb_capacity h then h\<lparr>hb_size := hb_size h + 1\<rparr> else h);
          w = map_index h1 (ringCapacity h1 - 1)
      in h1\<lparr>hb_write_position := w, hb_buffer := (hb_buffer h1)[w := v],
            hb_mirrorDirtyCount :=
              (if hb_mirrorDirtyCount h1 < ringCapacity h1 then hb_mirrorDirtyCount h1 + 1
               else hb_mirrorDirtyCount h1)\<rparr>)"

definition push_front_range :: "'a list \<Rightarrow> 'a history_buffer \<Rightarrow> 'a history_buffer" where
  "push_front_range xs h =
     fold push_front (if length xs > hb_capacity h then drop (length xs - hb_capacity h) xs else xs) h"

definition push_back :: "'a \<Rightarrow> 'a history_buffer \<Rightarrow> 'a history_buffer" where
  "push_back v h =
     (let rc = ringCapacity h;
          h1 = (if hb_size h = hb_capacity h
                then h\<lparr>hb_write_position := map_index h 1,
                       hb_mirrorDirtyCount :=
                         (if hb_mirrorDirtyCount h > 0 then hb_mirrorDirtyCount h - 1
                          else hb_mirrorDirtyCount h)\<rparr>
                else h\<lparr>hb_size := hb_size h + 1\<rparr>);
          insertPos = map_index h1 (hb_size h1 - 1)
      in h1\<lparr>hb_buffer := (hb_buffer h1)[insertPos := v, insertPos + rc := v]\<rparr>)"

text \<open>
  The block copy at the end of the range \<open>push_back\<close>: the part up to the ring end and the
  remainder at its start, each written into both halves.
\<close>

definition copy_in :: "nat \<Rightarrow> 'a list \<Rightarrow> 'a history_buffer \<Rightarrow> 'a history_buffer" where
  "copy_in startPos xs h =
     (let rc = ringCapacity h;
          chunk1 = min (length xs) (rc - startPos);
          buf1 = write_at (startPos + rc) (take chunk1 xs) (write_at startPos (take chunk1 xs) (hb_buffer h));
          buf2 = (if length xs - chunk1 > 0
                  then write_at rc (drop chunk1 xs) (write_at 0 (drop chunk1 xs) buf1)
                  else buf1)
      in h\<lparr>hb_buffer := buf2\<rparr>)"

definition push_back_range :: "'a list \<Rightarrow> 'a history_buffer \<Rightarrow> 'a history_buffer" where
  "push_back_range input h =
     (if input = [] then h
      else
        let xs = (if length input \<ge> hb_capacity h
                  then drop (length input - hb_capacity h) input else input);
            n = length xs;
            needed = hb_size h + n;
            h1 = (if needed > hb_capacity h
                  then let discardCount = needed - hb_capacity h;
                           h' = h\<lparr>hb_size := hb_size h - discardCount\<rparr>
                       in h'\<lparr>hb_write_position := map_index h' discardCount,
                             hb_mirrorDirtyCount :=
                               (if hb_mirrorDirtyCount h > 0
                                then hb_mirrorDirtyCount h - min (hb_mirrorDirtyCount h) discardCount
                                else hb_mirrorDirtyCount h)\<rparr>
                  else h);
            h2 = h1\<lparr>hb_size := hb_size h1 + n\<rparr>
        in copy_in (map_index h2 (hb_size h2 - n)) xs h2)"

definition pop_front :: "'a history_buffer \<Rightarrow> hb_error + 'a history_buffer" where
  "pop_front h =
     (if hb_size h = 0 then Inl OutOfRange
      else Inr (h\<lparr>hb_write_position := map_index h 1, hb_size := hb_size h - 1,
                  hb_mirrorDirtyCount :=
                    (if hb_mirrorDirtyCount h > 0 then hb_mirrorDirtyCount h - 1
                     else hb_mirrorDirtyCount h)\<rparr>))"

definition pop_back :: "'a history_buffer \<Rightarrow> hb_error + 'a history_buffer" where
  "pop_back h = (if hb_size h = 0 then Inl OutOfRange else Inr (h\<lparr>hb_size := hb_size h - 1\<rparr>))"

text \<open>
  The iteration range \<open>[begin(), end())\<close>: the mirror is synchronised and the elements are read
  contiguously from the write position.
\<close>

definition contents :: "'a history_buffer \<Rightarrow> 'a list" where
  "contents h = take (hb_size h) (drop (hb_write_position h) (hb_buffer (syncMirror h)))"

definition resize :: "nat \<Rightarrow> 'a \<Rightarrow> 'a history_buffer \<Rightarrow> hb_error + 'a history_buffer" where
  "resize newCapacity d h =
     (if newCapacity = 0 then Inl OutOfRange
      else
        let newRingCap = bit_ceil newCapacity;
            copyCount = min (hb_size h) newCapacity;
            first = write_at 0 (take copyCount (contents h)) (replicate (newRingCap * 2) d);
            newBuf = write_at newRingCap (take copyCount first) first
        in Inr (h\<lparr>hb_buffer := newBuf, hb_capacity := newCapacity, hb_ringMask := newRingCap - 1,
                  hb_size := copyCount, hb_write_position := 0, hb_mirrorDirtyCount := 0\<rparr>))"

definition hb_get :: "'a history_buffer \<Rightarrow> nat \<Rightarrow> 'a" where
  "hb_get h i = hb_buffer h ! map_index h i"

definition hb_at :: "'a history_buffer \<Rightarrow> nat \<Rightarrow> hb_error + 'a" where
  "hb_at h i = (if i \<ge> hb_size h then Inl OutOfRange else Inr (hb_get h i))"

definition hb_front :: "'a history_buffer \<Rightarrow> 'a" where
  "hb_front h = hb_buffer h ! map_index h 0"

definition hb_back :: "'a history_buffer \<Rightarrow> 'a" where
  "hb_back h = hb_buffer h ! map_index h (hb_size h - 1)"

text \<open>
  \<open>get_span(index, length)\<close> for an index inside the buffer (\<open>_size - index\<close> wraps beyond it);
  \<open>None\<close> is the default length \<open>std::dynamic_extent\<close>.
\<close>

definition get_span :: "nat \<Rightarrow> nat option \<Rightarrow> 'a history_buffer \<Rightarrow> 'a list" where
  "get_span index len h =
     (let n = (case len of None \<Rightarrow> hb_size h - index | Some l \<Rightarrow> min (hb_size h - index) l)
      in take n (drop (map_index h index) (hb_buffer (syncMirror h))))"

definition hb_reset :: "'a \<Rightarrow> 'a history_buffer \<Rightarrow> 'a history_buffer" where
  "hb_reset d h = h\<lparr>hb_size := 0, hb_write_position := 0, hb_mirrorDirtyCount := 0,
                    hb_buffer := replicate (length (hb_buffer h)) d\<rparr>"

subsection \<open>The invariant and the logical view\<close>

definition hb_view :: "'a history_buffer \<Rightarrow> 'a list" where
  "hb_view h = map (hb_get h) [0..<hb_size h]"

text \<open>The mirror agrees with the primary half on every stored element outside the dirty prefix.\<close>

definition mirrored :: "'a history_buffer \<Rightarrow> bool" where
  "mirrored h \<longleftrightarrow>
     (\<forall>i < hb_size h. hb_mirrorDirtyCount h \<le> i \<longrightarrow>
        hb_buffer h ! ((hb_write_position h + i) mod ringCapacity h) =
        hb_buffer h ! ((hb_write_position h + i) mod ringCapacity h + ringCapacity h))"

definition hb_shape :: "'a history_buffer \<Rightarrow> bool" where
  "hb_shape h \<longleftrightarrow>
     (case hb_fixed h of None \<Rightarrow> has_single_bit (hb_ringMask h + 1)
      | Some n \<Rightarrow> n = hb_capacity h) \<and>
     0 < hb_capacity h \<and> hb_capacity h \<le> ringCapacity h \<and>
     length (hb_buffer h) = ringCapacity h * 2 \<and>
     hb_write_position h < ringCapacity h \<and> hb_size h \<le> hb_capacity h \<and>
     hb_mirrorDirtyCount h \<le> ringCapacity h"

definition hb_inv :: "'a history_buffer \<Rightarrow> bool" where
  "hb_inv h \<longleftrightarrow> hb_shape h \<and> mirrored h"

lemma map_index_mod: "hb_shape h \<Longrightarrow> map_index h i = (hb_write_position h + i) mod ringCapacity h"
  using and_mask_single_bit [of "hb_ringMask h + 1" "hb_write_position h + i"]
    and_mask_single_bit [of "ringCapacity h" "hb_write_position h + i"]
  by (auto simp: map_index_def hb_shape_def ringCapacity_def split: option.splits)

lemma length_hb_view [simp]: "length (hb_view h) = hb_size h"
  by (simp add: hb_view_def)

lemma nth_hb_view: "hb_shape h \<Longrightarrow> i < hb_size h \<Longrightarrow>
  hb_view h ! i = hb_buffer h ! ((hb_write_position h + i) mod ringCapacity h)"
  by (simp add: hb_view_def hb_get_def map_index_mod)

lemma ringCapacity_upd [simp]:
  "ringCapacity (h\<lparr>hb_buffer := b\<rparr>) = ringCapacity h"
  "ringCapacity (h\<lparr>hb_write_position := w\<rparr>) = ringCapacity h"
  "ringCapacity (h\<lparr>hb_size := n\<rparr>) = ringCapacity h"
  "ringCapacity (h\<lparr>hb_mirrorDirtyCount := d\<rparr>) = ringCapacity h"
  by (simp_all add: ringCapacity_def split: option.split)

subsection \<open>Operations at either end\<close>

lemma hb_view_eqI:
  assumes "hb_shape h" "length xs = hb_size h"
    and "\<And>i. i < hb_size h \<Longrightarrow> hb_buffer h ! ((hb_write_position h + i) mod ringCapacity h) = xs ! i"
  shows "hb_view h = xs"
  using assms by (intro nth_equalityI) (simp_all add: nth_hb_view)

lemma push_front_eq:
  assumes "hb_shape h"
  shows "push_front v h =
    (let w = (hb_write_position h + (ringCapacity h - 1)) mod ringCapacity h in
     h\<lparr>hb_size := min (hb_capacity h) (hb_size h + 1), hb_write_position := w,
       hb_buffer := (hb_buffer h)[w := v],
       hb_mirrorDirtyCount := min (ringCapacity h) (hb_mirrorDirtyCount h + 1)\<rparr>)"
proof -
  have "map_index (h\<lparr>hb_size := n\<rparr>) i = map_index h i" for n i
    by (simp add: map_index_def split: option.split)
  with assms show ?thesis
    by (auto simp: push_front_def Let_def map_index_mod hb_shape_def)
qed

lemma push_front_shape: "hb_shape h \<Longrightarrow> hb_shape (push_front v h)"
  by (auto simp: push_front_eq Let_def hb_shape_def split: option.splits)

lemma push_front_ring: "ringCapacity (push_front v h) = ringCapacity h"
  by (simp add: push_front_def Let_def)

lemma ring_pred_neq:
  assumes "w < n" "0 < i" "i < n"
  shows "(w + (i - 1)) mod n \<noteq> (w + (n - 1)) mod (n::nat)"
proof
  assume "(w + (i - 1)) mod n = (w + (n - 1)) mod n"
  then have "i - 1 = n - 1" by (rule ring_inj [rotated 2]) (use assms in auto)
  then show False using assms by simp
qed

lemma push_front_buffer:
  assumes sh: "hb_shape h" and i: "i < ringCapacity h"
  shows "hb_buffer (push_front v h) ! ((hb_write_position (push_front v h) + i) mod ringCapacity h) =
           (if i = 0 then v else hb_buffer h ! ((hb_write_position h + (i - 1)) mod ringCapacity h))"
    and "0 < i \<Longrightarrow> hb_buffer (push_front v h) !
             ((hb_write_position (push_front v h) + i) mod ringCapacity h + ringCapacity h) =
           hb_buffer h ! ((hb_write_position h + (i - 1)) mod ringCapacity h + ringCapacity h)"
proof -
  let ?n = "ringCapacity h" and ?w = "hb_write_position h"
  define p where "p = (?w + (?n - 1)) mod ?n"
  have n: "?w < ?n" "length (hb_buffer h) = ?n * 2" using sh by (auto simp: hb_shape_def)
  have p: "p < ?n" using n by (simp add: p_def)
  have eq: "hb_buffer (push_front v h) = (hb_buffer h)[p := v]" "hb_write_position (push_front v h) = p"
    by (simp_all add: push_front_eq [OF sh] Let_def p_def)
  have pos: "(p + i) mod ?n = (?w + (i - 1)) mod ?n" "(?w + (i - 1)) mod ?n \<noteq> p" if "0 < i"
    using ring_pred [OF n(1) that] ring_pred_neq [OF n(1) that i] by (simp_all only: p_def not_False_eq_True)
  show "hb_buffer (push_front v h) ! ((hb_write_position (push_front v h) + i) mod ?n) =
          (if i = 0 then v else hb_buffer h ! ((?w + (i - 1)) mod ?n))"
    using p n pos by (cases "i = 0") (simp_all add: eq)
  show "hb_buffer (push_front v h) ! ((hb_write_position (push_front v h) + i) mod ?n + ?n) =
          hb_buffer h ! ((?w + (i - 1)) mod ?n + ?n)" if "0 < i"
    using p n pos(1) [OF that] by (simp add: eq)
qed

lemma push_front_inv:
  assumes inv: "hb_inv h"
  shows "hb_inv (push_front v h)"
proof -
  have sh: "hb_shape h" and mir: "mirrored h" using inv by (auto simp: hb_inv_def)
  have "mirrored (push_front v h)"
    unfolding mirrored_def push_front_ring
  proof (intro allI impI)
    fix i assume i: "i < hb_size (push_front v h)" "hb_mirrorDirtyCount (push_front v h) \<le> i"
    then have n: "i < ringCapacity h" using sh by (auto simp: push_front_eq [OF sh] Let_def hb_shape_def)
    with i obtain k where k: "i = Suc k" "hb_mirrorDirtyCount h \<le> k" "k < hb_size h"
      by (cases i) (auto simp: push_front_eq [OF sh] Let_def)
    with mir show "hb_buffer (push_front v h) ! ((hb_write_position (push_front v h) + i) mod ringCapacity h) =
      hb_buffer (push_front v h) ! ((hb_write_position (push_front v h) + i) mod ringCapacity h + ringCapacity h)"
      using push_front_buffer(1) [OF sh n, of v] push_front_buffer(2) [OF sh n, of v]
      by (simp add: mirrored_def)
  qed
  with push_front_shape [OF sh] show ?thesis by (simp add: hb_inv_def)
qed

lemma push_front_view:
  assumes sh: "hb_shape h"
  shows "hb_view (push_front v h) = take (hb_capacity h) (v # hb_view h)"
proof (rule hb_view_eqI [OF push_front_shape [OF sh]])
  have cap: "hb_capacity h \<le> ringCapacity h" "hb_size h \<le> hb_capacity h"
    using sh by (auto simp: hb_shape_def)
  then show "length (take (hb_capacity h) (v # hb_view h)) = hb_size (push_front v h)"
    by (auto simp: push_front_eq [OF sh] Let_def)
  fix i assume "i < hb_size (push_front v h)"
  then have i: "i < hb_capacity h" "i \<le> hb_size h" by (auto simp: push_front_eq [OF sh] Let_def)
  with cap have "i < ringCapacity h" by simp
  from push_front_buffer(1) [OF sh this] i
  show "hb_buffer (push_front v h) ! ((hb_write_position (push_front v h) + i) mod ringCapacity (push_front v h)) =
        take (hb_capacity h) (v # hb_view h) ! i"
    by (simp add: push_front_ring nth_Cons' nth_hb_view [OF sh])
qed

text \<open>
  Adding at the back is a discard of the oldest elements followed by a block write behind the
  last one; both are stated on their own.
\<close>

definition hb_discard :: "nat \<Rightarrow> 'a history_buffer \<Rightarrow> 'a history_buffer" where
  "hb_discard k h = h\<lparr>hb_size := hb_size h - k,
                      hb_write_position := (hb_write_position h + k) mod ringCapacity h,
                      hb_mirrorDirtyCount := hb_mirrorDirtyCount h - k\<rparr>"

lemma hb_discard_shape: "hb_shape h \<Longrightarrow> hb_shape (hb_discard k h)"
  by (auto simp: hb_shape_def hb_discard_def ringCapacity_def split: option.splits)

lemma hb_discard_ring [simp]: "ringCapacity (hb_discard k h) = ringCapacity h"
  by (simp add: hb_discard_def)

lemma hb_discard_inv: "hb_inv h \<Longrightarrow> hb_inv (hb_discard k h)"
  by (auto simp: hb_inv_def hb_discard_shape mirrored_def) (auto simp: hb_discard_def ring_add)

lemma hb_discard_view: "hb_shape h \<Longrightarrow> hb_view (hb_discard k h) = drop k (hb_view h)"
  by (rule hb_view_eqI)
    (auto simp: hb_discard_shape nth_hb_view, auto simp: hb_discard_def ring_add nth_hb_view)

definition hb_append :: "'a list \<Rightarrow> 'a history_buffer \<Rightarrow> 'a history_buffer" where
  "hb_append xs h =
     copy_in ((hb_write_position h + hb_size h) mod ringCapacity h) xs (h\<lparr>hb_size := hb_size h + length xs\<rparr>)"

lemma hb_append_simps [simp]:
  "ringCapacity (hb_append xs h) = ringCapacity h"
  "hb_size (hb_append xs h) = hb_size h + length xs"
  "hb_write_position (hb_append xs h) = hb_write_position h"
  "hb_mirrorDirtyCount (hb_append xs h) = hb_mirrorDirtyCount h"
  "hb_capacity (hb_append xs h) = hb_capacity h"
  "hb_fixed (hb_append xs h) = hb_fixed h"
  "hb_ringMask (hb_append xs h) = hb_ringMask h"
  by (simp_all add: hb_append_def copy_in_def Let_def)

text \<open>Position \<open>j\<close> of either half holds element \<open>j - start\<close> of the block, modulo the ring.\<close>

lemma hb_append_nth:
  assumes sh: "hb_shape h" and fits: "hb_size h + length xs \<le> hb_capacity h" and j: "j < ringCapacity h"
    and m: "m = j \<or> m = j + ringCapacity h"
  defines "s \<equiv> (hb_write_position h + hb_size h) mod ringCapacity h"
  shows "hb_buffer (hb_append xs h) ! m =
    (if (j + ringCapacity h - s) mod ringCapacity h < length xs
     then xs ! ((j + ringCapacity h - s) mod ringCapacity h) else hb_buffer h ! m)"
proof -
  let ?n = "ringCapacity h"
  have n: "s < ?n" "length (hb_buffer h) = ?n * 2" "length xs \<le> ?n"
    using sh fits by (auto simp: hb_shape_def s_def)
  define c where "c = min (length xs) (?n - s)"
  define b where "b = write_both ?n s (take c xs) (hb_buffer h)"
  have c: "s + c \<le> ?n" "length (take c xs) = c" using n by (simp_all add: c_def)
  have off: "(j + ?n - s) mod ?n = (if s \<le> j then j - s else j + ?n - s)"
    using j n by (auto simp: mod_if)
  have b: "b ! m = (if s \<le> j \<and> j < s + c then xs ! (j - s) else hb_buffer h ! m)"
    using nth_write_both [OF _ n(2) j m, of s "take c xs", folded b_def] c by auto
  have lb: "length b = ?n * 2" unfolding b_def by (rule length_write_both) (use n in \<open>auto simp: c_def\<close>)
  have eq: "hb_buffer (hb_append xs h) = (if length xs - c > 0 then write_both ?n 0 (drop c xs) b else b)"
    by (simp add: hb_append_def copy_in_def Let_def s_def write_both_def b_def c_def)
  have d: "write_both ?n 0 (drop c xs) b ! m = (if j < length xs - c then xs ! (c + j) else b ! m)"
    using nth_write_both [OF _ lb j m, of 0 "drop c xs"] n(3) by (auto simp: add.commute c_def)
  show ?thesis
  proof (cases "length xs \<le> ?n - s")
    case True
    then have "c = length xs" by (simp add: c_def)
    then show ?thesis unfolding eq off using b n True by auto
  next
    case False
    then have c: "c = ?n - s" "length xs - c > 0" by (simp_all add: c_def)
    have "hb_buffer (hb_append xs h) ! m = (if j < length xs - c then xs ! (c + j) else b ! m)"
      using c(2) by (simp add: eq d)
    then show ?thesis unfolding off b using n j False c by (auto simp: add.commute)
  qed
qed

lemma hb_append_shape:
  assumes sh: "hb_shape h" and fits: "hb_size h + length xs \<le> hb_capacity h"
  shows "hb_shape (hb_append xs h)"
proof -
  have "length (hb_buffer (hb_append xs h)) = length (hb_buffer h)"
  proof -
    let ?n = "ringCapacity h" and ?s = "(hb_write_position h + hb_size h) mod ringCapacity h"
    have n: "length (hb_buffer h) = ?n * 2" "length xs \<le> ?n" "?s < ?n" using sh fits by (auto simp: hb_shape_def)
    define c where "c = min (length xs) (?n - ?s)"
    define b where "b = write_both ?n ?s (take c xs) (hb_buffer h)"
    have b: "length b = ?n * 2" unfolding b_def by (rule length_write_both) (use n in \<open>auto simp: c_def\<close>)
    have "length (write_both ?n 0 (drop c xs) b) = ?n * 2"
      by (rule length_write_both) (use n b in auto)
    moreover have "hb_buffer (hb_append xs h) = (if length xs - c > 0 then write_both ?n 0 (drop c xs) b else b)"
      by (simp add: hb_append_def copy_in_def Let_def write_both_def b_def c_def)
    ultimately show ?thesis using b n by simp
  qed
  with sh fits show ?thesis by (simp add: hb_shape_def split: option.splits)
qed

lemma hb_append_elem:
  assumes sh: "hb_shape h" and fits: "hb_size h + length xs \<le> hb_capacity h"
    and i: "i < hb_size h + length xs"
    and m: "m = (hb_write_position h + i) mod ringCapacity h
      \<or> m = (hb_write_position h + i) mod ringCapacity h + ringCapacity h"
  shows "hb_buffer (hb_append xs h) ! m = (if i < hb_size h then hb_buffer h ! m else xs ! (i - hb_size h))"
proof -
  let ?n = "ringCapacity h" and ?w = "hb_write_position h" and ?s = "(hb_write_position h + hb_size h) mod ringCapacity h"
  have n: "0 < ?n" "i < ?n" "?s < ?n" "length xs \<le> ?n" "hb_size h + length xs \<le> ?n"
    using sh fits i by (auto simp: hb_shape_def)
  have "((?w + i) mod ?n + ?n - ?s) mod ?n = (if hb_size h \<le> i then i - hb_size h else i + ?n - hb_size h)"
    by (rule ring_offset) (use n in auto)
  with hb_append_nth [OF sh fits _ m] n i show ?thesis by (auto split: if_splits)
qed

lemma hb_append_inv:
  assumes inv: "hb_inv h" and fits: "hb_size h + length xs \<le> hb_capacity h"
  shows "hb_inv (hb_append xs h)"
proof -
  have sh: "hb_shape h" and mir: "mirrored h" using inv by (auto simp: hb_inv_def)
  have "mirrored (hb_append xs h)"
    using mir hb_append_elem [OF sh fits] by (simp add: mirrored_def)
  with hb_append_shape [OF sh fits] show ?thesis by (simp add: hb_inv_def)
qed

lemma hb_append_view:
  assumes sh: "hb_shape h" and fits: "hb_size h + length xs \<le> hb_capacity h"
  shows "hb_view (hb_append xs h) = hb_view h @ xs"
  by (rule hb_view_eqI [OF hb_append_shape [OF sh fits]])
    (simp_all add: hb_append_elem [OF sh fits] nth_append nth_hb_view [OF sh])

lemma hb_discard_0 [simp]: "hb_shape h \<Longrightarrow> hb_discard 0 h = h"
  by (simp add: hb_discard_def hb_shape_def)

lemma map_index_size [simp]: "map_index (h\<lparr>hb_size := n\<rparr>) i = map_index h i"
  by (simp add: map_index_def split: option.split)

lemma map_index_wp:
  "hb_shape h \<Longrightarrow> map_index (h\<lparr>hb_write_position := w, hb_mirrorDirtyCount := d\<rparr>) i = (w + i) mod ringCapacity h"
  using and_mask_single_bit [of "hb_ringMask h + 1" "w + i"]
    and_mask_single_bit [of "ringCapacity h" "w + i"]
  by (auto simp: map_index_def hb_shape_def ringCapacity_def split: option.splits)

lemma push_back_eq:
  assumes sh: "hb_shape h"
  shows "push_back v h = hb_append [v] (if hb_size h = hb_capacity h then hb_discard 1 h else h)"
proof -
  let ?n = "ringCapacity h"
  have n: "0 < ?n" "length (hb_buffer h) = ?n * 2" "0 < hb_capacity h" using sh by (auto simp: hb_shape_def)
  have app: "hb_append [v] g = g\<lparr>hb_buffer := (hb_buffer h)[p := v, p + ?n := v], hb_size := hb_size g + 1\<rparr>"
    if "ringCapacity g = ?n" "hb_buffer g = hb_buffer h" "p = (hb_write_position g + hb_size g) mod ?n" for g p
  proof -
    have p: "p < ?n" using that n by simp
    have "min (length [v]) (?n - p) = 1" using p by simp
    then show ?thesis using p n
      unfolding hb_append_def that(1) that(3) [symmetric]
      by (simp add: copy_in_def Let_def that(1,2) write_at_single)
  qed
  show ?thesis
  proof (cases "hb_size h = hb_capacity h")
    case True
    define g where "g = h\<lparr>hb_write_position := (hb_write_position h + 1) mod ?n,
                 hb_mirrorDirtyCount := hb_mirrorDirtyCount h - 1\<rparr>"
    have "push_back v h = g\<lparr>hb_buffer := (hb_buffer h)[map_index g (hb_size h - 1) := v, map_index g (hb_size h - 1) + ?n := v]\<rparr>"
      using True by (simp add: push_back_def Let_def g_def map_index_mod [OF sh])
    also have "map_index g (hb_size h - 1) = ((hb_write_position h + 1) mod ?n + (hb_size h - 1)) mod ?n"
      unfolding g_def by (rule map_index_wp [OF sh])
    finally show ?thesis
      using True n app [of "hb_discard 1 h"] by (simp add: hb_discard_def g_def)
  next
    case False
    have "push_back v h = h\<lparr>hb_size := hb_size h + 1, hb_buffer := (hb_buffer h)[map_index h (hb_size h) := v, map_index h (hb_size h) + ?n := v]\<rparr>"
      using False by (simp add: push_back_def Let_def)
    then show ?thesis
      using False app [of h] by (simp add: map_index_mod [OF sh])
  qed
qed

lemma push_back_range_eq:
  assumes sh: "hb_shape h" and ne: "input \<noteq> []"
  defines "xs \<equiv> drop (length input - hb_capacity h) input"
  shows "push_back_range input h = hb_append xs (hb_discard (hb_size h + length xs - hb_capacity h) h)"
proof -
  let ?n = "ringCapacity h"
  have sel: "(if length input \<ge> hb_capacity h then drop (length input - hb_capacity h) input else input) = xs"
    by (simp add: xs_def)
  define k where "k = hb_size h + length xs - hb_capacity h"
  have dirty: "(if hb_mirrorDirtyCount h > 0 then hb_mirrorDirtyCount h - min (hb_mirrorDirtyCount h) k
      else hb_mirrorDirtyCount h) = hb_mirrorDirtyCount h - k" by (simp add: min_def)
  have "push_back_range input h =
     (let g = hb_discard k h; h2 = g\<lparr>hb_size := hb_size g + length xs\<rparr>
      in copy_in (map_index h2 (hb_size h2 - length xs)) xs h2)"
  proof (cases "hb_size h + length xs > hb_capacity h")
    case True
    with ne show ?thesis
      unfolding push_back_range_def Let_def sel k_def [symmetric]
      by (simp add: map_index_mod [OF sh] hb_discard_def dirty)
  next
    case False
    then have "hb_discard k h = h" using sh by (simp add: k_def)
    with False ne show ?thesis unfolding push_back_range_def sel by (simp add: Let_def)
  qed
  moreover have "hb_shape (hb_discard k h)" using sh by (rule hb_discard_shape)
  ultimately show ?thesis
    by (simp add: hb_append_def Let_def map_index_mod flip: k_def)
qed

lemma hb_discard_size [simp]:
  "hb_size (hb_discard k h) = hb_size h - k" "hb_capacity (hb_discard k h) = hb_capacity h"
  by (simp_all add: hb_discard_def)

lemma push_back_inv: "hb_inv h \<Longrightarrow> hb_inv (push_back v h)"
  by (auto simp: push_back_eq hb_inv_def [of h] hb_shape_def [of h]
      intro!: hb_append_inv hb_discard_inv)

lemma push_back_view:
  assumes sh: "hb_shape h"
  shows "hb_view (push_back v h) = (if hb_size h = hb_capacity h then tl (hb_view h) else hb_view h) @ [v]"
proof -
  have "0 < hb_capacity h" "hb_size h \<le> hb_capacity h" using sh by (auto simp: hb_shape_def)
  with sh show ?thesis
    by (simp add: push_back_eq hb_append_view hb_discard_shape hb_discard_view drop_Suc)
qed

lemma push_back_range_fits:
  fixes xs :: "'a list"
  shows "n \<le> cap \<Longrightarrow> n - (n + length (drop (length xs - cap) xs) - cap) + length (drop (length xs - cap) xs) \<le> (cap::nat)"
  by simp

lemma push_back_range_inv: "hb_inv h \<Longrightarrow> hb_inv (push_back_range xs h)"
proof (cases "xs = []")
  case True
  then show "hb_inv h \<Longrightarrow> ?thesis" by (simp add: push_back_range_def)
next
  case False
  assume inv: "hb_inv h"
  then have sh: "hb_shape h" by (simp add: hb_inv_def)
  then have "hb_size h \<le> hb_capacity h" by (simp add: hb_shape_def)
  then show ?thesis
    unfolding push_back_range_eq [OF sh False]
    by (intro hb_append_inv hb_discard_inv inv)
      (simp only: hb_discard_size push_back_range_fits)
qed

lemma push_back_range_view:
  assumes sh: "hb_shape h"
  shows "hb_view (push_back_range xs h) =
    drop (hb_size h + length xs - hb_capacity h) (hb_view h @ xs)"
proof (cases "xs = []")
  case True
  with sh show ?thesis by (simp add: push_back_range_def hb_shape_def)
next
  case False
  have n: "hb_size h \<le> hb_capacity h" using sh by (simp add: hb_shape_def)
  show ?thesis
    unfolding push_back_range_eq [OF sh False]
    by (subst hb_append_view, use sh n in \<open>simp_all add: hb_discard_shape hb_discard_view\<close>)
      (cases "length xs \<le> hb_capacity h", simp_all)
qed

subsection \<open>Removal, iteration and resizing\<close>

lemma pop_front_eq: "hb_shape h \<Longrightarrow> pop_front h = (if hb_size h = 0 then Inl OutOfRange else Inr (hb_discard 1 h))"
  by (auto simp: pop_front_def hb_discard_def map_index_mod)

lemma pop_back_shape: "hb_shape h \<Longrightarrow> hb_shape (h\<lparr>hb_size := hb_size h - Suc 0\<rparr>)"
  by (auto simp: hb_shape_def split: option.splits)

lemma pop_back_view: "hb_shape h \<Longrightarrow> hb_view (h\<lparr>hb_size := hb_size h - 1\<rparr>) = butlast (hb_view h)"
  by (rule hb_view_eqI) (auto simp: pop_back_shape nth_butlast nth_hb_view)

lemma pop_back_inv: "hb_inv h \<Longrightarrow> hb_inv (h\<lparr>hb_size := hb_size h - 1\<rparr>)"
  by (simp add: hb_inv_def pop_back_shape mirrored_def)

text \<open>The synchronised mirror: every ring position that was dirty or in step now is in step.\<close>

lemma sync_simps [simp]:
  "hb_size (syncMirror h) = hb_size h" "hb_write_position (syncMirror h) = hb_write_position h"
  "ringCapacity (syncMirror h) = ringCapacity h" "hb_mirrorDirtyCount (syncMirror h) = 0"
  "hb_capacity (syncMirror h) = hb_capacity h"
  by (simp_all add: syncMirror_def Let_def)

lemma sync_nth:
  assumes sh: "hb_shape h" and i: "i < ringCapacity h"
  defines "m \<equiv> (hb_write_position h + i) mod ringCapacity h"
  shows "hb_buffer (syncMirror h) ! m = hb_buffer h ! m"
    and "hb_buffer (syncMirror h) ! (m + ringCapacity h) =
      (if i < hb_mirrorDirtyCount h then hb_buffer h ! m else hb_buffer h ! (m + ringCapacity h))"
proof -
  let ?n = "ringCapacity h" and ?w = "hb_write_position h" and ?d = "hb_mirrorDirtyCount h"
  have n: "?w < ?n" "length (hb_buffer h) = ?n * 2" "?d \<le> ?n" using sh by (auto simp: hb_shape_def)
  have m: "m = (if ?w + i < ?n then ?w + i else ?w + i - ?n)" "m < ?n" using n i by (auto simp: m_def mod_if)
  define b where "b = copy_n ?w (?n - ?w) (?w + ?n) (hb_buffer h)"
  have b: "length b = ?n * 2" "\<And>j. j < ?n * 2 \<Longrightarrow> b ! j = (if ?w + ?n \<le> j then hb_buffer h ! (?w + (j - (?w + ?n))) else hb_buffer h ! j)"
    using n by (auto simp: b_def length_copy_n nth_copy_n)
  have eq: "hb_buffer (syncMirror h) = (if ?d = 0 then hb_buffer h else
      if ?d \<le> ?n - ?w then copy_n ?w ?d (?w + ?n) (hb_buffer h) else copy_n 0 (?d - (?n - ?w)) ?n b)"
    by (simp add: syncMirror_def Let_def b_def)
  show "hb_buffer (syncMirror h) ! m = hb_buffer h ! m"
    unfolding eq using n m(2) b by (auto simp: nth_copy_n)
  show "hb_buffer (syncMirror h) ! (m + ?n) = (if i < ?d then hb_buffer h ! m else hb_buffer h ! (m + ?n))"
  proof (cases "?d \<le> ?n - ?w")
    case True
    then show ?thesis unfolding eq using n m i by (auto simp: nth_copy_n)
  next
    case False
    then have "hb_buffer (syncMirror h) ! (m + ?n) = (if m < ?d - (?n - ?w) then b ! m else b ! (m + ?n))"
      unfolding eq using n m(2) b(1) by (auto simp: nth_copy_n)
    then show ?thesis using n m i b(2) False by auto
  qed
qed

lemma sync_shape: "hb_shape h \<Longrightarrow> hb_shape (syncMirror h)"
  by (auto simp: hb_shape_def syncMirror_def Let_def length_copy_n split: option.splits)

lemma sync_read:
  assumes inv: "hb_inv h" and k: "i + k < hb_size h"
  shows "hb_buffer (syncMirror h) ! ((hb_write_position h + i) mod ringCapacity h + k) = hb_view h ! (i + k)"
proof -
  let ?n = "ringCapacity h"
  define p where "p = (hb_write_position h + i) mod ?n"
  define m where "m = (hb_write_position h + (i + k)) mod ?n"
  have sh: "hb_shape h" and mir: "mirrored h" using inv by (auto simp: hb_inv_def)
  have n: "i + k < ?n" "p < ?n" using sh k by (auto simp: hb_shape_def p_def)
  have "m = (p + k) mod ?n" by (simp add: m_def p_def ring_add)
  then have m: "p + k = m \<or> p + k = m + ?n" using n by (auto simp: mod_if)
  have v: "hb_view h ! (i + k) = hb_buffer h ! m" using sh k by (simp add: nth_hb_view m_def)
  have "hb_mirrorDirtyCount h \<le> i + k \<Longrightarrow> hb_buffer h ! m = hb_buffer h ! (m + ?n)"
    using mir k unfolding mirrored_def m_def by blast
  then show ?thesis
    using m sync_nth [OF sh n(1), folded m_def] unfolding v p_def [symmetric] by (auto split: if_splits)
qed

lemma contents_view: "hb_inv h \<Longrightarrow> contents h = hb_view h"
proof (rule nth_equalityI)
  assume inv: "hb_inv h"
  then have sh: "hb_shape h" by (simp add: hb_inv_def)
  then have n: "hb_write_position h + hb_size h \<le> length (hb_buffer (syncMirror h))"
    using sync_shape [OF sh] by (auto simp: hb_shape_def)
  then show "length (contents h) = length (hb_view h)" by (simp add: contents_def)
  fix i assume "i < length (contents h)"
  then have i: "i < hb_size h" by (simp add: contents_def)
  have "hb_write_position h mod ringCapacity h = hb_write_position h" using sh by (simp add: hb_shape_def)
  with sync_read [OF inv, of 0 i] i n show "contents h ! i = hb_view h ! i"
    by (simp add: contents_def)
qed

lemma get_span_view:
  assumes inv: "hb_inv h" and i: "index \<le> hb_size h"
  shows "get_span index None h = drop index (hb_view h)"
    and "get_span index (Some l) h = take l (drop index (hb_view h))"
proof -
  have sh: "hb_shape h" using inv by (simp add: hb_inv_def)
  let ?p = "(hb_write_position h + index) mod ringCapacity h"
  have "?p < ringCapacity h" "hb_size h \<le> ringCapacity h" "length (hb_buffer (syncMirror h)) = ringCapacity h * 2"
    using sh sync_shape [OF sh] by (auto simp: hb_shape_def)
  then have n: "?p + (hb_size h - index) \<le> length (hb_buffer (syncMirror h))" by linarith
  have eq: "take k (drop ?p (hb_buffer (syncMirror h))) = take k (drop index (hb_view h))"
    if "k \<le> hb_size h - index" for k
    using that n i by (intro nth_equalityI) (auto simp: sync_read [OF inv])
  show "get_span index None h = drop index (hb_view h)"
    using eq [of "hb_size h - index"] by (simp add: get_span_def map_index_mod [OF sh])
  show "get_span index (Some l) h = take l (drop index (hb_view h))"
    using eq [of "min (hb_size h - index) l"] i
    by (auto simp: get_span_def map_index_mod [OF sh] min_def)
qed

lemma new_dynamic_inv:
  "new_dynamic c d = Inr h \<Longrightarrow> hb_inv h \<and> hb_view h = [] \<and> hb_capacity h = c"
  using bit_ceil_ge [of c]
  by (auto simp: new_dynamic_def hb_inv_def hb_shape_def ringCapacity_def mirrored_def hb_view_def
      has_single_bit_bit_ceil split: if_splits)

lemma new_fixed_inv: "0 < n \<Longrightarrow> hb_inv (new_fixed n d) \<and> hb_view (new_fixed n d) = [] \<and> hb_capacity (new_fixed n d) = n"
  by (simp add: new_fixed_def hb_inv_def hb_shape_def ringCapacity_def mirrored_def hb_view_def)

lemma resize_view:
  assumes inv: "hb_inv h" and dyn: "hb_fixed h = None" and r: "resize c d h = Inr h'"
  shows "hb_inv h' \<and> hb_view h' = take c (hb_view h) \<and> hb_capacity h' = c"
proof -
  let ?n = "bit_ceil c" and ?xs = "take c (hb_view h)"
  have c: "0 < c" "c \<le> ?n" using r bit_ceil_ge by (auto simp: resize_def split: if_splits)
  have xs: "take (min (hb_size h) c) (contents h) = ?xs" "length ?xs = min (hb_size h) c"
    by (cases "hb_size h \<le> c") (simp_all add: contents_view [OF inv])
  define a where "a = write_at 0 ?xs (replicate (?n * 2) d)"
  define b where "b = write_at ?n ?xs a"
  have tm: "take (min (hb_size h) c) (hb_view h) = ?xs"
    by (cases "hb_size h \<le> c") simp_all
  have a: "take (min (hb_size h) c) a = ?xs" "length a = ?n * 2"
    using c xs(2) tm by (auto simp: a_def write_at_def)
  have h': "h' = h\<lparr>hb_buffer := b, hb_capacity := c, hb_ringMask := ?n - 1,
      hb_size := min (hb_size h) c, hb_write_position := 0, hb_mirrorDirtyCount := 0\<rparr>"
    using r c(1) a(1) unfolding b_def
    by (simp add: resize_def Let_def xs(1) flip: a_def)
  have b: "length b = ?n * 2" using a c by (auto simp: b_def length_write_at)
  have nth: "b ! i = ?xs ! i" "b ! (i + ?n) = ?xs ! i" if "i < min (hb_size h) c" for i
    using that a c by (auto simp: b_def a_def nth_write_at length_write_at)
  have ring: "ringCapacity h' = ?n" using dyn by (simp add: h' ringCapacity_def)
  have sh: "hb_shape h'" using dyn c b by (simp add: hb_shape_def ring) (simp add: h' has_single_bit_bit_ceil)
  moreover have "mirrored h'" using nth c by (simp add: mirrored_def ring) (simp add: h')
  moreover have "hb_view h' = ?xs"
    by (rule hb_view_eqI [OF sh]) (use nth c in \<open>simp_all add: ring, simp_all add: h'\<close>)
  ultimately show ?thesis by (simp add: hb_inv_def h')
qed

subsection \<open>The contract of a bounded history\<close>

text \<open>
  What a client of the buffer relies on: adding keeps the newest \<open>cap\<close> values, newest first.
  It holds for \<open>push_front\<close> on the view and for \<open>push_back\<close> on the reversed view.
\<close>

locale bounded_history =
  fixes invar :: "'s \<Rightarrow> bool" and cap :: "'s \<Rightarrow> nat" and newest_first :: "'s \<Rightarrow> 'a list"
    and add :: "'a \<Rightarrow> 's \<Rightarrow> 's"
  assumes add_invar: "invar s \<Longrightarrow> invar (add x s)"
    and add_cap: "invar s \<Longrightarrow> cap (add x s) = cap s"
    and add_view: "invar s \<Longrightarrow> newest_first (add x s) = take (cap s) (x # newest_first s)"
    and view_bounded: "invar s \<Longrightarrow> length (newest_first s) \<le> cap s"
begin

lemma fold_add:
  "invar s \<Longrightarrow> invar (fold add xs s) \<and> cap (fold add xs s) = cap s \<and>
     newest_first (fold add xs s) = take (cap s) (rev xs @ newest_first s)"
proof (induction xs arbitrary: s)
  case Nil
  then show ?case by (simp add: view_bounded)
next
  case (Cons x xs)
  then have "invar (add x s)" by (rule_tac add_invar)
  from Cons.IH [OF this] Cons.prems show ?case
    by (simp add: add_view add_cap take_Cons')
qed

lemma fold_add_suffix:
  assumes "invar s"
  shows "newest_first (fold add (drop (length xs - cap s) xs) s) = newest_first (fold add xs s)"
  using fold_add [OF assms] by (cases "length xs \<le> cap s") (simp_all add: rev_drop)

lemma fold_add_forgets:
  assumes "invar s" "invar t" "cap s = cap t" "cap s \<le> length xs"
  shows "newest_first (fold add xs s) = newest_first (fold add xs t)"
  using assms by (simp add: fold_add)

end

lemma push_cap [simp]: "hb_capacity (push_front v h) = hb_capacity h" "hb_capacity (push_back v h) = hb_capacity h"
  by (simp_all add: push_front_def push_back_def Let_def)

lemma rev_push_back: "length xs \<le> c \<Longrightarrow> 0 < c \<Longrightarrow>
  rev ((if length xs = c then tl xs else xs) @ [x]) = take c (x # rev xs)"
  by (cases xs; cases c) auto

interpretation front_history: bounded_history hb_inv hb_capacity hb_view push_front
  by unfold_locales (simp_all add: push_front_inv, simp_all add: push_front_view hb_inv_def, simp add: hb_shape_def)

interpretation back_history: bounded_history hb_inv hb_capacity "\<lambda>h. rev (hb_view h)" push_back
proof unfold_locales
  fix h :: "'a history_buffer" and x assume inv: "hb_inv h"
  then have sh: "hb_shape h" by (simp add: hb_inv_def)
  then show "rev (hb_view (push_back x h)) = take (hb_capacity h) (x # rev (hb_view h))"
    using rev_push_back [of "hb_view h" "hb_capacity h" x] by (simp add: push_back_view hb_shape_def)
  show "length (rev (hb_view h)) \<le> hb_capacity h" using sh by (simp add: hb_shape_def)
qed (simp_all add: push_back_inv)

lemma push_front_range_view:
  assumes inv: "hb_inv h"
  shows "hb_inv (push_front_range xs h) \<and> hb_view (push_front_range xs h) = take (hb_capacity h) (rev xs @ hb_view h)"
proof (cases "length xs > hb_capacity h")
  case True
  have "hb_view (push_front_range xs h) = hb_view (fold push_front xs h)"
    using True front_history.fold_add_suffix [OF inv] by (simp add: push_front_range_def)
  then show ?thesis using True front_history.fold_add [OF inv] by (simp add: push_front_range_def)
next
  case False
  then show ?thesis using front_history.fold_add [OF inv] by (simp add: push_front_range_def)
qed

text \<open>
  C27. Insertions at the front, single or as a range, keep the buffer well formed, and iterating it
  afterwards yields the newest \<open>capacity\<close> elements, newest first: the lazily synchronised mirror
  is never observable.
\<close>

theorem push_front_contents:
  assumes "hb_inv h"
  shows "hb_inv (push_front_range xs h) \<and>
    contents (push_front_range xs h) = take (hb_capacity h) (rev xs @ contents h) \<and>
    hb_inv (push_front v h) \<and> contents (push_front v h) = take (hb_capacity h) (v # contents h)"
  using push_front_range_view [OF assms, of xs] push_front_inv [OF assms, of v] push_front_view [of h v] assms
  by (simp add: contents_view) (simp add: hb_inv_def)

lemma push_front_contents_witness:
  "hb_inv (new_fixed 2 (0::nat)) \<and>
   contents (push_front_range [1, 2, 3] (new_fixed 2 0)) = take 2 ([3, 2, 1] @ contents (new_fixed 2 (0::nat)))"
proof -
  have inv: "hb_inv (new_fixed 2 (0::nat))" by (simp add: new_fixed_inv)
  show ?thesis
    using inv push_front_contents [OF inv, of "[1, 2, 3]"] by (simp add: new_fixed_def)
qed

text \<open>
  The block-wise range \<open>push_back\<close> is equivalent to pushing the elements one by one: both
  keep the buffer well formed and leave the last \<open>capacity\<close> elements, oldest first.
\<close>

theorem push_back_range_equiv:
  assumes inv: "hb_inv h"
  shows "hb_inv (push_back_range xs h) \<and> contents (push_back_range xs h) = contents (fold push_back xs h) \<and>
    contents (push_back_range xs h) = drop (length (contents h) + length xs - hb_capacity h) (contents h @ xs)"
proof -
  have sh: "hb_shape h" using inv by (simp add: hb_inv_def)
  note f = back_history.fold_add [OF inv, of xs]
  have "rev (hb_view (fold push_back xs h)) = take (hb_capacity h) (rev (hb_view h @ xs))" using f by simp
  then have "hb_view (fold push_back xs h) = drop (hb_size h + length xs - hb_capacity h) (hb_view h @ xs)"
    by (metis length_append length_hb_view rev_rev_ident rev_take length_rev)
  moreover have "contents (fold push_back xs h) = hb_view (fold push_back xs h)" using f by (simp add: contents_view)
  ultimately show ?thesis
    using push_back_range_inv [OF inv, of xs] push_back_range_view [OF sh, of xs] inv
    by (simp add: contents_view)
qed

lemma push_back_range_equiv_witness:
  "hb_inv (new_fixed 3 (0::nat)) \<and>
   contents (push_back_range [1, 2, 3, 4] (new_fixed 3 0)) = contents (fold push_back [1, 2, 3, 4] (new_fixed 3 (0::nat)))"
proof -
  have inv: "hb_inv (new_fixed 3 (0::nat))" by (simp add: new_fixed_inv)
  show ?thesis using inv push_back_range_equiv [OF inv, of "[1, 2, 3, 4]"] by simp
qed

text \<open>
  A span is contiguous across the wrap point and equals the requested slice of the history;
  popping removes exactly one end, and refuses an empty buffer.
\<close>

theorem spans_and_pops:
  assumes inv: "hb_inv h" and i: "index \<le> hb_size h"
  shows "get_span index (Some l) h = take l (drop index (contents h)) \<and>
    get_span index None h = drop index (contents h) \<and>
    (if contents h = [] then pop_front h = Inl OutOfRange \<and> pop_back h = Inl OutOfRange
     else \<exists>f b. pop_front h = Inr f \<and> hb_inv f \<and> contents f = tl (contents h) \<and>
                pop_back h = Inr b \<and> hb_inv b \<and> contents b = butlast (contents h))"
proof -
  have sh: "hb_shape h" using inv by (simp add: hb_inv_def)
  have e: "contents h = [] \<longleftrightarrow> hb_size h = 0"
    using length_hb_view [of h] by (simp add: contents_view [OF inv] flip: length_0_conv)
  have f: "hb_inv (hb_discard 1 h)" "contents (hb_discard 1 h) = tl (contents h)"
    using inv hb_discard_inv [OF inv, of 1] by (simp_all add: contents_view hb_discard_view [OF sh] drop_Suc)
  have b: "hb_inv (h\<lparr>hb_size := hb_size h - 1\<rparr>)" "contents (h\<lparr>hb_size := hb_size h - 1\<rparr>) = butlast (contents h)"
    using pop_back_inv [OF inv] inv pop_back_view [OF sh] by (simp_all add: contents_view)
  show ?thesis
    using f b get_span_view [OF inv i] e
    by (simp add: contents_view [OF inv] pop_front_eq [OF sh] pop_back_def)
qed

lemma spans_and_pops_witness:
  "hb_inv (new_fixed 3 (0::nat)) \<and> (0::nat) \<le> hb_size (new_fixed 3 (0::nat)) \<and>
   pop_front (new_fixed 3 (0::nat)) = Inl OutOfRange"
proof -
  have inv: "hb_inv (new_fixed 3 (0::nat))" by (simp add: new_fixed_inv)
  have c: "contents (new_fixed 3 (0::nat)) = []"
    by (simp add: contents_view [OF inv] new_fixed_inv)
  show ?thesis using inv c spans_and_pops [OF inv, of 0 0] by simp
qed

end
