(* ===== verification/LifeCycle.thy ===== *)
theory LifeCycle
  imports Prelude
begin

text \<open>
  The lifecycle state machine of \<^verbatim>\<open>core/include/gnuradio-4.0/LifeCycle.hpp\<close>: the state
  predicates, the transition table, \<open>changeStateTo\<close> with its optional hooks for both storage
  types, and the compare-and-swap protocol of the atomic variant as an interleaving of threads.
\<close>

datatype state =
  IDLE | INITIALISED | RUNNING | REQUESTED_PAUSE | PAUSED | REQUESTED_STOP | STOPPED | ERROR

definition enumName :: "state \<Rightarrow> string" where
  "enumName s = (case s of
     IDLE \<Rightarrow> ''IDLE'' | INITIALISED \<Rightarrow> ''INITIALISED'' | RUNNING \<Rightarrow> ''RUNNING''
   | REQUESTED_PAUSE \<Rightarrow> ''REQUESTED_PAUSE'' | PAUSED \<Rightarrow> ''PAUSED''
   | REQUESTED_STOP \<Rightarrow> ''REQUESTED_STOP'' | STOPPED \<Rightarrow> ''STOPPED'' | ERROR \<Rightarrow> ''ERROR'')"

definition isActive :: "state \<Rightarrow> bool" where
  "isActive s \<longleftrightarrow> s = RUNNING \<or> s = REQUESTED_PAUSE \<or> s = PAUSED"

definition isShuttingDown :: "state \<Rightarrow> bool" where
  "isShuttingDown s \<longleftrightarrow> s = REQUESTED_STOP \<or> s = STOPPED"

definition isValidTransition :: "state \<Rightarrow> state \<Rightarrow> bool" where
  "isValidTransition from to =
     (if to = ERROR \<or> from = to then True
      else case from of
        IDLE \<Rightarrow> to = INITIALISED \<or> to = REQUESTED_STOP \<or> to = STOPPED
      | INITIALISED \<Rightarrow> to = RUNNING \<or> to = REQUESTED_STOP \<or> to = STOPPED
      | RUNNING \<Rightarrow> to = REQUESTED_PAUSE \<or> to = REQUESTED_STOP
      | REQUESTED_PAUSE \<Rightarrow> to = PAUSED \<or> to = RUNNING \<or> to = REQUESTED_STOP
      | PAUSED \<Rightarrow> to = RUNNING \<or> to = REQUESTED_STOP
      | REQUESTED_STOP \<Rightarrow> to = STOPPED
      | STOPPED \<Rightarrow> to = INITIALISED
      | ERROR \<Rightarrow> to = INITIALISED)"

definition isSatisfiedTransition :: "state \<Rightarrow> state \<Rightarrow> bool" where
  "isSatisfiedTransition from to \<longleftrightarrow>
     from = to \<or> (from = STOPPED \<and> to = REQUESTED_STOP) \<or> (from = PAUSED \<and> to = REQUESTED_PAUSE)"

subsection \<open>The machine and its hooks\<close>

text \<open>
  A hook is code of the derived class. It sees the whole object, so it maps the machine to the
  machine it leaves behind and either returns or throws; the three catch clauses of
  \<open>invokeLifecycleMethod\<close> are the three kinds of throw. A method the class does not declare is \<open>None\<close>.
\<close>

datatype outcome = Returns | Throws_gr string | Throws_std string | Throws_unknown

datatype storage = ATOMIC | NON_ATOMIC

record 'd machine =
  m_state :: state
  m_data :: 'd

type_synonym 'd hook = "'d machine \<Rightarrow> 'd machine \<times> outcome"

record 'd derived =
  h_init :: "'d hook option"
  h_start :: "'d hook option"
  h_stop :: "'d hook option"
  h_pause :: "'d hook option"
  h_resume :: "'d hook option"
  h_reset :: "'d hook option"
  h_stateChanged :: "(state \<Rightarrow> 'd machine \<Rightarrow> 'd machine) option"
  h_transitionSatisfied :: "(state \<Rightarrow> state \<Rightarrow> 'd machine \<Rightarrow> 'd machine) option"
  h_blockName :: string
  h_typeName :: string

definition notifyStateChanged :: "'d derived \<Rightarrow> state \<Rightarrow> 'd machine \<Rightarrow> 'd machine" where
  "notifyStateChanged D newState m =
     (case h_stateChanged D of None \<Rightarrow> m | Some f \<Rightarrow> f newState m)"

text \<open>The callback runs before the store (in this function, not in the atomic claim below).\<close>

definition setAndNotifyState :: "'d derived \<Rightarrow> state \<Rightarrow> 'd machine \<Rightarrow> 'd machine" where
  "setAndNotifyState D newState m = (notifyStateChanged D newState m)\<lparr>m_state := newState\<rparr>"

definition notifyTransitionSatisfied :: "'d derived \<Rightarrow> state \<Rightarrow> state \<Rightarrow> 'd machine \<Rightarrow> 'd machine" where
  "notifyTransitionSatisfied D requested satisfiedBy m =
     (case h_transitionSatisfied D of None \<Rightarrow> m | Some f \<Rightarrow> f requested satisfiedBy m)"

definition quoted :: "string \<Rightarrow> string" where
  "quoted s = CHR 0x27 # s @ [CHR 0x27]"

definition invalidTransitionError :: "'d derived \<Rightarrow> state \<Rightarrow> state \<Rightarrow> string" where
  "invalidTransitionError D from to =
     ''Block '' @ quoted (h_blockName D) @ '' invalid state transition in '' @ h_typeName D @
     '' from '' @ enumName from @ '' -> to '' @ enumName to"

definition invokeLifecycleMethod :: "'d derived \<Rightarrow> 'd hook \<Rightarrow> 'd machine \<Rightarrow> 'd machine \<times> (string + unit)" where
  "invokeLifecycleMethod D f m =
     (case f m of
        (m', Returns) \<Rightarrow> (m', Inr ())
      | (m', Throws_gr what) \<Rightarrow>
          (setAndNotifyState D ERROR m', Inl (''Block '' @ quoted (h_blockName D) @ '' throws: '' @ what))
      | (m', Throws_std what) \<Rightarrow>
          (setAndNotifyState D ERROR m', Inl (''Block '' @ quoted (h_blockName D) @ '' throws: '' @ what))
      | (m', Throws_unknown) \<Rightarrow>
          (setAndNotifyState D ERROR m',
           Inl (''Block '' @ quoted (h_blockName D) @ '' throws: unknown unnamed error'')))"

text \<open>
  The dispatch after a transition: the first hook whose guard holds and which the class declares
  is the only one that runs.
\<close>

definition dispatchHook :: "'d derived \<Rightarrow> state \<Rightarrow> state \<Rightarrow> 'd hook option" where
  "dispatchHook D oldState newState =
     (if h_init D \<noteq> None \<and> oldState = IDLE \<and> newState = INITIALISED then h_init D
      else if h_start D \<noteq> None \<and> oldState = INITIALISED \<and> newState = RUNNING then h_start D
      else if h_stop D \<noteq> None \<and> (newState = REQUESTED_STOP \<or> (newState = ERROR \<and> isActive oldState)) then h_stop D
      else if h_pause D \<noteq> None \<and> newState = REQUESTED_PAUSE then h_pause D
      else if h_resume D \<noteq> None \<and> (oldState = REQUESTED_PAUSE \<or> oldState = PAUSED) \<and> newState = RUNNING then h_resume D
      else if h_reset D \<noteq> None \<and> oldState \<noteq> IDLE \<and> newState = INITIALISED then h_reset D
      else None)"

definition runHook :: "'d derived \<Rightarrow> state \<Rightarrow> state \<Rightarrow> 'd machine \<Rightarrow> 'd machine \<times> (string + unit)" where
  "runHook D oldState newState m =
     (case dispatchHook D oldState newState of
        None \<Rightarrow> (m, Inr ()) | Some f \<Rightarrow> invokeLifecycleMethod D f m)"

text \<open>
  The claim loop of the atomic variant. \<open>env\<close> lists what the other threads have stored by the time
  of each of this thread's exchanges; a mismatch hands the fresh value back for re-validation, and
  once the environment is exhausted the value the thread has read is the current one.
\<close>

datatype claim = Satisfied state | Invalid state | Claimed state

fun claimTransition :: "state list \<Rightarrow> state \<Rightarrow> state \<Rightarrow> claim" where
  "claimTransition env oldState newState =
     (if isSatisfiedTransition oldState newState then Satisfied oldState
      else if \<not> isValidTransition oldState newState then Invalid oldState
      else case env of
        [] \<Rightarrow> Claimed oldState
      | e # env' \<Rightarrow> if e = oldState then Claimed oldState else claimTransition env' e newState)"

text \<open>
  After a claim the state already is the new one when the callback runs; in the non-atomic variant
  the callback runs first. \<open>env = []\<close> is the call without a competing thread.
\<close>

definition changeStateTo ::
  "storage \<Rightarrow> 'd derived \<Rightarrow> state list \<Rightarrow> state \<Rightarrow> 'd machine \<Rightarrow> 'd machine \<times> (string + unit)" where
  "changeStateTo st D env newState m =
     (case st of
        ATOMIC \<Rightarrow>
          (case claimTransition env (m_state m) newState of
             Invalid old \<Rightarrow> (m\<lparr>m_state := old\<rparr>, Inl (invalidTransitionError D old newState))
           | Satisfied old \<Rightarrow> (notifyTransitionSatisfied D newState old (m\<lparr>m_state := old\<rparr>), Inr ())
           | Claimed old \<Rightarrow> runHook D old newState (notifyStateChanged D newState (m\<lparr>m_state := newState\<rparr>)))
      | NON_ATOMIC \<Rightarrow>
          (let old = m_state m in
           if isSatisfiedTransition old newState
           then (notifyTransitionSatisfied D newState old m, Inr ())
           else if \<not> isValidTransition old newState
           then (m, Inl (invalidTransitionError D old newState))
           else runHook D old newState (setAndNotifyState D newState m)))"

text \<open>Move assignment: the moved-from machine becomes STOPPED, unless it is moved onto itself.\<close>

definition moveAssign :: "bool \<Rightarrow> state \<Rightarrow> state \<Rightarrow> state \<times> state" where
  "moveAssign selfMove this other = (if selfMove then (this, other) else (other, STOPPED))"

subsection \<open>Outcome of a request\<close>

lemmas table_defs = isValidTransition_def isSatisfiedTransition_def isActive_def isShuttingDown_def

text \<open>The hooks leave the state to the machine, as those of the block and scheduler classes do.\<close>

definition keeps_state :: "'d derived \<Rightarrow> bool" where
  "keeps_state D \<longleftrightarrow>
     (\<forall>f m. f \<in> set_option (h_init D) \<union> set_option (h_start D) \<union> set_option (h_stop D) \<union>
        set_option (h_pause D) \<union> set_option (h_resume D) \<union> set_option (h_reset D) \<longrightarrow>
        m_state (fst (f m)) = m_state m) \<and>
     (\<forall>f n m. f \<in> set_option (h_stateChanged D) \<longrightarrow> m_state (f n m) = m_state m) \<and>
     (\<forall>f a b m. f \<in> set_option (h_transitionSatisfied D) \<longrightarrow> m_state (f a b m) = m_state m)"

lemma notify_state [simp]:
  assumes "keeps_state D"
  shows "m_state (notifyStateChanged D n m) = m_state m"
    and "m_state (notifyTransitionSatisfied D a b m) = m_state m"
  using assms
  by (auto simp: keeps_state_def notifyStateChanged_def notifyTransitionSatisfied_def split: option.split)

lemma dispatchHook_range:
  "dispatchHook D a b = Some f \<Longrightarrow> f \<in> set_option (h_init D) \<union> set_option (h_start D) \<union>
     set_option (h_stop D) \<union> set_option (h_pause D) \<union> set_option (h_resume D) \<union> set_option (h_reset D)"
  by (auto simp: dispatchHook_def split: if_splits)

lemma runHook_state:
  assumes "keeps_state D" "runHook D a b m = (m', r)"
  shows "m_state m' = (case r of Inr _ \<Rightarrow> m_state m | Inl _ \<Rightarrow> ERROR)"
proof (cases "dispatchHook D a b")
  case None
  with assms(2) show ?thesis by (auto simp: runHook_def)
next
  case (Some f)
  from dispatchHook_range [OF Some] have "m_state (fst (f m)) = m_state m"
    using assms(1) unfolding keeps_state_def by blast
  with assms(2) Some show ?thesis
    by (auto simp: runHook_def invokeLifecycleMethod_def setAndNotifyState_def
        split: prod.splits outcome.splits)
qed


definition failing_start :: "nat derived" where
  "failing_start =
     \<lparr>h_init = Some (\<lambda>m. (m\<lparr>m_data := m_data m + 1\<rparr>, Returns)),
      h_start = Some (\<lambda>m. (m, Throws_std ''no device'')), h_stop = None, h_pause = None, h_resume = None,
      h_reset = None, h_stateChanged = None, h_transitionSatisfied = None,
      h_blockName = ''b'', h_typeName = ''T''\<rparr>"

lemma failing_start_keeps_state: "keeps_state failing_start"
  by (simp add: keeps_state_def failing_start_def)


text \<open>
  Without a competing thread the two storage types behave alike, although they call the
  \<open>stateChanged\<close> callback on opposite sides of the store, whenever the callback does not look at
  or write the state field.
\<close>

theorem storage_equivalent:
  assumes "\<And>f n s m. h_stateChanged D = Some f \<Longrightarrow> f n (m\<lparr>m_state := s\<rparr>) = (f n m)\<lparr>m_state := s\<rparr>"
  shows "changeStateTo ATOMIC D [] new m = changeStateTo NON_ATOMIC D [] new m"
proof -
  have "notifyStateChanged D new (m\<lparr>m_state := new\<rparr>) = setAndNotifyState D new m"
    using assms by (auto simp: notifyStateChanged_def setAndNotifyState_def split: option.split)
  then show ?thesis by (simp add: changeStateTo_def Let_def)
qed

lemma storage_equivalent_witness:
  "changeStateTo ATOMIC (failing_start\<lparr>h_stateChanged := Some (\<lambda>n m. m\<lparr>m_data := 7\<rparr>)\<rparr>) [] RUNNING
     \<lparr>m_state = INITIALISED, m_data = 0\<rparr> =
   changeStateTo NON_ATOMIC (failing_start\<lparr>h_stateChanged := Some (\<lambda>n m. m\<lparr>m_data := 7\<rparr>)\<rparr>) [] RUNNING
     \<lparr>m_state = INITIALISED, m_data = 0\<rparr>"
  by (rule storage_equivalent) (auto simp: failing_start_def)

subsection \<open>Competing threads\<close>

text \<open>
  Each thread runs \<open>changeStateTo\<close> on one shared atomic state: a load, then per round of the
  loop either an early return or one compare-exchange, and, when a hook of the winner throws, the
  unconditional store of ERROR. \<open>c_log\<close> records every store with the value it replaced.
\<close>

datatype pc =
    Requested state
  | Looping state state
  | Won state state
  | Returned

record 't config =
  c_state :: state
  c_pc :: "'t \<Rightarrow> pc"
  c_log :: "(state \<times> state) list"

inductive cas_step :: "'t config \<Rightarrow> 't config \<Rightarrow> bool" where
  load: "c_pc c t = Requested new \<Longrightarrow>
    cas_step c (c\<lparr>c_pc := (c_pc c)(t := Looping (c_state c) new)\<rparr>)"
| satisfied: "c_pc c t = Looping old new \<Longrightarrow> isSatisfiedTransition old new \<Longrightarrow>
    cas_step c (c\<lparr>c_pc := (c_pc c)(t := Returned)\<rparr>)"
| invalid: "c_pc c t = Looping old new \<Longrightarrow> \<not> isSatisfiedTransition old new \<Longrightarrow> \<not> isValidTransition old new \<Longrightarrow>
    cas_step c (c\<lparr>c_pc := (c_pc c)(t := Returned)\<rparr>)"
| exchanged: "c_pc c t = Looping old new \<Longrightarrow> \<not> isSatisfiedTransition old new \<Longrightarrow> isValidTransition old new \<Longrightarrow>
    c_state c = old \<Longrightarrow>
    cas_step c (c\<lparr>c_state := new, c_pc := (c_pc c)(t := Won old new), c_log := c_log c @ [(old, new)]\<rparr>)"
| lost: "c_pc c t = Looping old new \<Longrightarrow> \<not> isSatisfiedTransition old new \<Longrightarrow> isValidTransition old new \<Longrightarrow>
    c_state c \<noteq> old \<Longrightarrow>
    cas_step c (c\<lparr>c_pc := (c_pc c)(t := Looping (c_state c) new)\<rparr>)"
| returned: "c_pc c t = Won old new \<Longrightarrow>
    cas_step c (c\<lparr>c_pc := (c_pc c)(t := Returned)\<rparr>)"
| hook_throws: "c_pc c t = Won old new \<Longrightarrow>
    cas_step c (c\<lparr>c_state := ERROR, c_pc := (c_pc c)(t := Returned), c_log := c_log c @ [(c_state c, ERROR)]\<rparr>)"
| request: "c_pc c t = Returned \<Longrightarrow>
    cas_step c (c\<lparr>c_pc := (c_pc c)(t := Requested new)\<rparr>)"

inductive cas_reach :: "'t config \<Rightarrow> bool" where
  start: "(\<And>t. c_pc c t = Returned) \<Longrightarrow> c_state c = IDLE \<Longrightarrow> c_log c = [] \<Longrightarrow> cas_reach c"
| step: "cas_reach c \<Longrightarrow> cas_step c c' \<Longrightarrow> cas_reach c'"

text \<open>The log is a path through the table from the initial to the current state.\<close>

fun path :: "state \<Rightarrow> (state \<times> state) list \<Rightarrow> state \<Rightarrow> bool" where
  "path a [] b \<longleftrightarrow> a = b"
| "path a ((x, y) # l) b \<longleftrightarrow> a = x \<and> isValidTransition x y \<and> path y l b"

lemma path_append: "path a (l @ l') b \<longleftrightarrow> (\<exists>c. path a l c \<and> path c l' b)"
  by (induction a l b rule: path.induct) auto

lemma cas_step_path: "cas_step c c' \<Longrightarrow> path IDLE (c_log c) (c_state c) \<Longrightarrow> path IDLE (c_log c') (c_state c')"
  by (induction rule: cas_step.induct) (auto simp: path_append, auto simp: isValidTransition_def)

lemma cas_reach_path: "cas_reach c \<Longrightarrow> path IDLE (c_log c) (c_state c)"
proof (induction rule: cas_reach.induct)
  case (start c)
  then show ?case by simp
next
  case (step c c')
  from cas_step_path [OF step(2) step(3)] show ?case .
qed

text \<open>A store that makes the machine run its \<open>stop()\<close> hook.\<close>

definition runs_stop :: "state \<times> state \<Rightarrow> bool" where
  "runs_stop e \<longleftrightarrow> (case e of (old, new) \<Rightarrow>
     old \<noteq> new \<and> (new = REQUESTED_STOP \<or> (new = ERROR \<and> isActive old)))"

definition halted :: "state \<Rightarrow> bool" where
  "halted s \<longleftrightarrow> s = REQUESTED_STOP \<or> s = STOPPED \<or> s = ERROR"

lemma halted_path:
  "path a l b \<Longrightarrow> halted a \<Longrightarrow> \<forall>e \<in> set l. snd e \<noteq> INITIALISED \<Longrightarrow> halted b \<and> (\<forall>e \<in> set l. \<not> runs_stop e)"
proof (induction a l b rule: path.induct)
  case (2 a x y l b)
  then have "halted y \<and> \<not> runs_stop (x, y)"
    by (auto simp: halted_def runs_stop_def isValidTransition_def isActive_def split: if_splits state.splits)
  with 2 show ?case by auto
qed simp


lemma solo_transition:
  assumes "cas_reach c" "c_pc c t = Returned" "isValidTransition (c_state c) new" "\<not> isSatisfiedTransition (c_state c) new"
  shows "\<exists>c'. cas_reach c' \<and> c_pc c' t = Returned \<and> c_state c' = new \<and> c_log c' = c_log c @ [(c_state c, new)]"
proof -
  let ?c1 = "c\<lparr>c_pc := (c_pc c)(t := Requested new)\<rparr>"
  let ?c2 = "?c1\<lparr>c_pc := (c_pc ?c1)(t := Looping (c_state c) new)\<rparr>"
  let ?c3 = "?c2\<lparr>c_state := new, c_pc := (c_pc ?c2)(t := Won (c_state c) new), c_log := c_log c @ [(c_state c, new)]\<rparr>"
  have 1: "cas_reach ?c1" by (rule cas_reach.step [OF assms(1) cas_step.request]) (rule assms(2))
  have 2: "cas_reach ?c2" using cas_reach.step [OF 1 cas_step.load [of ?c1 t new]] by simp
  have 3: "cas_reach ?c3" using cas_reach.step [OF 2 cas_step.exchanged [of ?c2 t "c_state c" new]] assms(3,4) by simp
  have "cas_reach (?c3\<lparr>c_pc := (c_pc ?c3)(t := Returned)\<rparr>)"
    using cas_reach.step [OF 3 cas_step.returned [of ?c3 t "c_state c" new]] by simp
  then show ?thesis by (rule_tac exI) auto
qed

lemma solo_transitions:
  "cas_reach c \<Longrightarrow> c_pc c t = Returned \<Longrightarrow> path (c_state c) l b \<Longrightarrow>
   (\<forall>(x, y) \<in> set l. \<not> isSatisfiedTransition x y) \<Longrightarrow> \<exists>c'. cas_reach c' \<and> c_pc c' t = Returned \<and> c_log c' = c_log c @ l"
proof (induction l arbitrary: c)
  case (Cons e l)
  obtain x y where e: "e = (x, y)" by fastforce
  from Cons.prems e obtain c1 where
    "cas_reach c1" "c_pc c1 t = Returned" "c_state c1 = y" "c_log c1 = c_log c @ [(x, y)]"
    using solo_transition [of c t y] by auto
  with Cons.IH [of c1] Cons.prems e show ?case by auto
qed auto


end
