(* ===== verification/ClaimStrategy.thy ===== *)
theory ClaimStrategy
  imports Prelude
begin

text \<open>
  The sequences of \<^verbatim>\<open>core/include/gnuradio-4.0/Sequence.hpp\<close> and the two claim strategies of
  \<^verbatim>\<open>ClaimStrategy.hpp\<close>, on 64-bit unsigned cursors with their wrap-around. A \<open>Sequence\<close> object is
  an address in a store, so that a strategy and a reader share its value. Each operation is the
  run of one thread between two actions of the others; what the others do in a spin loop is an
  explicit argument. The interleavings of several producers are in \<open>MultiProducer\<close>.
\<close>

type_synonym addr = nat
type_synonym seq_store = "addr \<Rightarrow> usize"

subsection \<open>Sequences\<close>

definition kInitialCursorValue :: usize where
  "kInitialCursorValue = 0"

definition compareAndSet :: "addr \<Rightarrow> usize \<Rightarrow> usize \<Rightarrow> seq_store \<Rightarrow> seq_store \<times> bool" where
  "compareAndSet a expected new s = (if s a = expected then (s(a := new), True) else (s, False))"

definition addAndGet :: "addr \<Rightarrow> usize \<Rightarrow> seq_store \<Rightarrow> seq_store \<times> usize" where
  "addAndGet a n s = (s(a := s a + n), s a + n)"

definition subAndGet :: "addr \<Rightarrow> usize \<Rightarrow> seq_store \<Rightarrow> seq_store \<times> usize" where
  "subAndGet a n s = (s(a := s a - n), s a - n)"

definition incrementAndGet :: "addr \<Rightarrow> seq_store \<Rightarrow> seq_store \<times> usize" where
  "incrementAndGet a s = addAndGet a 1 s"

text \<open>\<open>hasLeft\<close>: a compare-and-set of the old value onto itself.\<close>

definition hasLeft :: "addr \<Rightarrow> usize \<Rightarrow> seq_store \<Rightarrow> bool" where
  "hasLeft a oldValue s = (\<not> snd (compareAndSet a oldValue oldValue s))"

fun getMinimumSequence :: "seq_store \<Rightarrow> addr list \<Rightarrow> usize \<Rightarrow> usize" where
  "getMinimumSequence s [] minimum = minimum"
| "getMinimumSequence s (a # as) minimum =
     (let v = s a in getMinimumSequence s as (if v < minimum then v else minimum))"

text \<open>
  Registration of gating sequences: each starts at the cursor value read before the list is
  swapped (\<open>cursor1\<close>) and is set again to the one read afterwards (\<open>cursor2\<close>).
\<close>

definition addSequences ::
  "addr list \<Rightarrow> usize \<Rightarrow> usize \<Rightarrow> addr list \<Rightarrow> seq_store \<Rightarrow> addr list \<times> seq_store" where
  "addSequences sequences cursor1 cursor2 toAdd s =
     (let s1 = fold (\<lambda>a st. st(a := cursor1)) toAdd s
      in (sequences @ toAdd, fold (\<lambda>a st. st(a := cursor2)) toAdd s1))"

definition removeSequence :: "addr list \<Rightarrow> addr \<Rightarrow> addr list \<times> bool" where
  "removeSequence sequences a =
     (let numToRemove = count_list sequences a
      in if numToRemove = 0 then (sequences, False)
         else (filter (\<lambda>x. x \<noteq> a) sequences, True))"

subsection \<open>Single producer\<close>

record single_producer =
  sp_size :: usize
  sp_publishCursor :: usize
  sp_reserveCursor :: usize
  sp_readSequences :: "addr list"
  sp_readerGeneration :: usize
  sp_snapshotGeneration :: usize
  sp_snapshotReadSequences :: "addr list"
  sp_cachedSingleReader :: "addr option"

definition sp_new :: "usize \<Rightarrow> single_producer" where
  "sp_new bufferSize =
     \<lparr>sp_size = bufferSize, sp_publishCursor = kInitialCursorValue, sp_reserveCursor = kInitialCursorValue,
      sp_readSequences = [], sp_readerGeneration = 0, sp_snapshotGeneration = usize_max,
      sp_snapshotReadSequences = [], sp_cachedSingleReader = None\<rparr>"

definition sp_notifyReaderSetChanged :: "single_producer \<Rightarrow> single_producer" where
  "sp_notifyReaderSetChanged p = p\<lparr>sp_readerGeneration := sp_readerGeneration p + 1\<rparr>"

definition refreshReaderSnapshot :: "single_producer \<Rightarrow> single_producer" where
  "refreshReaderSnapshot p =
     (let generation = sp_readerGeneration p in
      if generation = sp_snapshotGeneration p then p
      else p\<lparr>sp_snapshotReadSequences := sp_readSequences p,
             sp_cachedSingleReader :=
               (if length (sp_readSequences p) = 1 then Some (hd (sp_readSequences p)) else None),
             sp_snapshotGeneration := generation\<rparr>)"

definition sp_getMinReaderCursor :: "seq_store \<Rightarrow> single_producer \<Rightarrow> single_producer \<times> usize" where
  "sp_getMinReaderCursor s p =
     (let p1 = refreshReaderSnapshot p in
      (p1, case sp_cachedSingleReader p1 of
             Some a \<Rightarrow> s a
           | None \<Rightarrow> if sp_snapshotReadSequences p1 = [] then sp_reserveCursor p1
                     else getMinimumSequence s (sp_snapshotReadSequences p1) usize_max))"

definition sp_getRemainingCapacity :: "seq_store \<Rightarrow> single_producer \<Rightarrow> single_producer \<times> usize" where
  "sp_getRemainingCapacity s p =
     (let (p1, m) = sp_getMinReaderCursor s p; nClaimed = sp_reserveCursor p - m
      in (p1, if nClaimed \<ge> sp_size p then 0 else sp_size p - nClaimed))"

definition sp_tryNext :: "usize \<Rightarrow> seq_store \<Rightarrow> single_producer \<Rightarrow> single_producer \<times> usize option" where
  "sp_tryNext n s p =
     (let (p1, remaining) = sp_getRemainingCapacity s p in
      if remaining < n then (p1, None)
      else let p2 = p1\<lparr>sp_reserveCursor := sp_reserveCursor p1 + n\<rparr>
           in (p2, Some (sp_reserveCursor p2)))"

text \<open>
  The blocking claim polls the readers: \<open>polls\<close> are the stores it sees, one per poll; \<open>None\<close>
  is a call that is still spinning when they run out.
\<close>

fun sp_next :: "usize \<Rightarrow> seq_store list \<Rightarrow> single_producer \<Rightarrow> single_producer \<times> usize option" where
  "sp_next n [] p = (p, None)"
| "sp_next n (s # polls) p =
     (let (p1, remaining) = sp_getRemainingCapacity s p in
      if remaining < n then sp_next n polls p1
      else let p2 = p1\<lparr>sp_reserveCursor := sp_reserveCursor p1 + n\<rparr>
           in (p2, Some (sp_reserveCursor p2)))"

definition sp_publish :: "usize \<Rightarrow> usize \<Rightarrow> single_producer \<Rightarrow> single_producer" where
  "sp_publish offset n p =
     (let sequence = offset + n in p\<lparr>sp_publishCursor := sequence, sp_reserveCursor := sequence\<rparr>)"

subsection \<open>Multiple producers, one at a time\<close>

record multi_producer =
  mp_availableBuffer :: "usize list"
  mp_size :: usize
  mp_cachedMinReaderCursor :: usize
  mp_reserveCursor :: usize
  mp_publishCursor :: usize
  mp_readSequences :: "addr list"

definition mp_new :: "nat \<Rightarrow> multi_producer" where
  "mp_new bufferSize =
     \<lparr>mp_availableBuffer = replicate bufferSize usize_max, mp_size = of_nat bufferSize,
      mp_cachedMinReaderCursor = kInitialCursorValue, mp_reserveCursor = kInitialCursorValue,
      mp_publishCursor = kInitialCursorValue, mp_readSequences = []\<rparr>"

text \<open>The slot of a sequence number: a mask when the size is a power of two, a remainder otherwise.\<close>

definition calculateIndex :: "usize \<Rightarrow> usize \<Rightarrow> usize" where
  "calculateIndex sz seq =
     (if has_single_bit (unat sz) then seq AND (sz - 1) else seq mod sz)"

definition mp_getMinReaderCursor :: "seq_store \<Rightarrow> multi_producer \<Rightarrow> usize" where
  "mp_getMinReaderCursor s p =
     (case mp_readSequences p of
        [] \<Rightarrow> mp_reserveCursor p
      | [a] \<Rightarrow> s a
      | as \<Rightarrow> getMinimumSequence s as usize_max)"

definition refreshMinReaderCursor :: "seq_store \<Rightarrow> multi_producer \<Rightarrow> multi_producer \<times> usize" where
  "refreshMinReaderCursor s p =
     (let minReader = mp_getMinReaderCursor s p
      in (p\<lparr>mp_cachedMinReaderCursor := min minReader (mp_publishCursor p)\<rparr>, minReader))"

definition mp_notifyReaderSetChanged :: "seq_store \<Rightarrow> multi_producer \<Rightarrow> multi_producer" where
  "mp_notifyReaderSetChanged s p = fst (refreshMinReaderCursor s p)"

definition mp_tryNext :: "usize \<Rightarrow> seq_store \<Rightarrow> multi_producer \<Rightarrow> multi_producer \<times> usize option" where
  "mp_tryNext n s p =
     (let next = mp_reserveCursor p + n in
      if next - mp_cachedMinReaderCursor p > mp_size p
      then let (p1, freshMin) = refreshMinReaderCursor s p in
           if next - freshMin > mp_size p then (p1, None)
           else (p1\<lparr>mp_reserveCursor := next\<rparr>, Some next)
      else (p\<lparr>mp_reserveCursor := next\<rparr>, Some next))"

text \<open>The blocking claim, with the reader positions each round of its loop sees.\<close>

fun mp_next :: "usize \<Rightarrow> seq_store list \<Rightarrow> multi_producer \<Rightarrow> multi_producer \<times> usize option" where
  "mp_next n [] p = (p, None)"
| "mp_next n (s # polls) p =
     (case mp_tryNext n s p of
        (p1, Some next) \<Rightarrow> (p1, Some next)
      | (p1, None) \<Rightarrow> mp_next n polls p1)"

definition mp_getRemainingCapacity :: "seq_store \<Rightarrow> multi_producer \<Rightarrow> multi_producer \<times> usize" where
  "mp_getRemainingCapacity s p =
     (let (p1, minReader) = refreshMinReaderCursor s p; nClaimed = mp_reserveCursor p - minReader
      in (p1, if nClaimed \<ge> mp_size p then 0 else mp_size p - nClaimed))"

fun markSlots :: "usize \<Rightarrow> nat \<Rightarrow> usize \<Rightarrow> usize list \<Rightarrow> usize list" where
  "markSlots sz 0 seq slots = slots"
| "markSlots sz (Suc k) seq slots =
     markSlots sz k (seq + 1) (slots[unat (calculateIndex sz seq) := seq])"

text \<open>The scan for contiguous completed slots; \<open>k\<close> counts down from the size, the loop's bound.\<close>

fun scanPublished :: "usize \<Rightarrow> nat \<Rightarrow> usize \<Rightarrow> usize list \<Rightarrow> usize" where
  "scanPublished sz 0 next slots = next"
| "scanPublished sz (Suc k) next slots =
     (if slots ! unat (calculateIndex sz next) = next
      then scanPublished sz k (next + 1) slots else next)"

definition mp_publish :: "usize \<Rightarrow> usize \<Rightarrow> multi_producer \<Rightarrow> multi_producer" where
  "mp_publish offset n p =
     (if n = 0 then p
      else let slots = markSlots (mp_size p) (unat n) offset (mp_availableBuffer p);
               current = mp_publishCursor p;
               next = scanPublished (mp_size p) (unat (mp_size p)) current slots
           in p\<lparr>mp_availableBuffer := slots, mp_publishCursor := next\<rparr>)"

text \<open>The wakes that follow a publish: all but the exempt sequence are advanced and notified.\<close>

record wake =
  w_advanced :: addr
  w_notified :: addr

definition wakes_add :: "addr \<Rightarrow> addr \<Rightarrow> wake list \<Rightarrow> wake list" where
  "wakes_add a n ws = ws @ [\<lparr>w_advanced = a, w_notified = n\<rparr>]"

fun wakes_remove :: "addr \<Rightarrow> wake list \<Rightarrow> wake list" where
  "wakes_remove a [] = []"
| "wakes_remove a (w # ws) = (if w_advanced w = a then ws else w # wakes_remove a ws)"

definition wakes_armed :: "wake list \<Rightarrow> bool" where
  "wakes_armed ws \<longleftrightarrow> ws \<noteq> []"

fun wakes_wake :: "addr option \<Rightarrow> wake list \<Rightarrow> seq_store \<Rightarrow> seq_store \<times> addr list" where
  "wakes_wake exempt [] s = (s, [])"
| "wakes_wake exempt (w # ws) s =
     (if Some (w_advanced w) \<noteq> exempt
      then let (s', ns) = wakes_wake exempt ws (fst (incrementAndGet (w_advanced w) s))
           in (s', w_notified w # ns)
      else wakes_wake exempt ws s)"

text \<open>The whole \<open>publish\<close>: a publish that moved the cursor runs the registered wakes.\<close>

definition mp_publish_wakes ::
  "usize \<Rightarrow> usize \<Rightarrow> addr option \<Rightarrow> wake list \<Rightarrow> multi_producer \<Rightarrow> seq_store \<Rightarrow> multi_producer \<times> seq_store \<times> addr list" where
  "mp_publish_wakes offset n exempt wakes p s =
     (let p1 = mp_publish offset n p in
      if n \<noteq> 0 \<and> mp_publishCursor p1 \<noteq> mp_publishCursor p \<and> wakes_armed wakes
      then let (s1, notified) = wakes_wake exempt wakes s in (p1, s1, notified)
      else (p1, s, []))"

subsection \<open>The gating position\<close>

definition gate :: "seq_store \<Rightarrow> addr list \<Rightarrow> usize \<Rightarrow> usize" where
  "gate s as r = (if as = [] then r else Min (s ` set as))"

lemma getMinimumSequence_min:
  "getMinimumSequence s as m = Min (insert m (s ` set as))"
proof (induction as arbitrary: m)
  case (Cons a as)
  have "(if s a < m then s a else m) = min (s a) m" by (auto simp: min_def)
  then have "getMinimumSequence s (a # as) m = getMinimumSequence s as (min (s a) m)"
    by (simp only: getMinimumSequence.simps Let_def)
  then show ?case by (cases "as = []") (simp_all add: Cons min.assoc min.left_commute min.commute)
qed simp

lemma getMinimumSequence_gate: "as \<noteq> [] \<Longrightarrow> getMinimumSequence s as usize_max = gate s as r"
  by (simp add: getMinimumSequence_min gate_def min_absorb2)

lemma mp_gate: "mp_getMinReaderCursor s p = gate s (mp_readSequences p) (mp_reserveCursor p)"
  using getMinimumSequence_gate [of "mp_readSequences p" s "mp_reserveCursor p"]
  by (auto simp: mp_getMinReaderCursor_def gate_def simp del: getMinimumSequence.simps split: list.split)

text \<open>The snapshot of the single producer agrees with the reader list unless a change is announced.\<close>

definition snapshot_ok :: "single_producer \<Rightarrow> bool" where
  "snapshot_ok p \<longleftrightarrow> sp_readerGeneration p = sp_snapshotGeneration p \<longrightarrow>
     sp_snapshotReadSequences p = sp_readSequences p \<and>
     sp_cachedSingleReader p =
       (if length (sp_readSequences p) = 1 then Some (hd (sp_readSequences p)) else None)"

lemma refresh_ok:
  "snapshot_ok p \<Longrightarrow> refreshReaderSnapshot p =
     p\<lparr>sp_snapshotReadSequences := sp_readSequences p,
       sp_cachedSingleReader := (if length (sp_readSequences p) = 1 then Some (hd (sp_readSequences p)) else None),
       sp_snapshotGeneration := sp_readerGeneration p\<rparr>"
  by (auto simp: refreshReaderSnapshot_def snapshot_ok_def Let_def)

lemma sp_gate:
  assumes "snapshot_ok p"
  shows "sp_getMinReaderCursor s p =
    (refreshReaderSnapshot p, gate s (sp_readSequences p) (sp_reserveCursor p))"
proof (cases "length (sp_readSequences p) = 1")
  case True
  then obtain a where "sp_readSequences p = [a]" by (auto simp: length_Suc_conv)
  with assms show ?thesis by (simp add: sp_getMinReaderCursor_def refresh_ok gate_def Let_def)
next
  case False
  with assms show ?thesis
    by (auto simp: sp_getMinReaderCursor_def refresh_ok Let_def getMinimumSequence_gate) (simp add: gate_def)
qed

lemma refresh_snapshot_ok: "snapshot_ok p \<Longrightarrow> snapshot_ok (refreshReaderSnapshot p)"
  by (auto simp: refresh_ok) (auto simp: snapshot_ok_def)

subsection \<open>Claims never overtake the slowest reader\<close>

text \<open>
  The gating position lies behind the claim, at most one buffer length (as natural numbers: 2^64
  slots are never handed out).
\<close>

definition gated :: "usize \<Rightarrow> usize \<Rightarrow> usize \<Rightarrow> bool" where
  "gated m r n \<longleftrightarrow> m \<le> r \<and> unat r \<le> unat m + unat n"

lemma nClaimed_fits:
  assumes "gated m r sz"
  shows "(if r - m \<ge> sz then 0 else sz - (r - m)) < n \<longleftrightarrow> unat m + unat sz < unat r + unat n"
proof -
  have d: "unat (r - m) = unat r - unat m" "unat m \<le> unat r" using assms
    by (auto simp: gated_def unat_sub_le word_le_nat_alt)
  show ?thesis
  proof (cases "r - m \<ge> sz")
    case True
    then have "unat sz \<le> unat r - unat m" by (simp add: word_le_nat_alt d)
    with True show ?thesis using assms d by (auto simp: gated_def word_less_nat_alt)
  next
    case False
    then have "unat (sz - (r - m)) = unat sz - (unat r - unat m)" by (simp add: unat_sub_le d)
    with False show ?thesis using assms d by (auto simp: gated_def word_less_nat_alt word_le_nat_alt)
  qed
qed

lemma next_fits:
  assumes "gated m r sz" "n \<le> sz" "unat r + unat n < 2 ^ 64"
  shows "r + n - m > sz \<longleftrightarrow> unat m + unat sz < unat r + unat n" "unat (r + n) = unat r + unat n"
proof -
  show a: "unat (r + n) = unat r + unat n" using assms(3) by (rule unat_add_nowrap)
  have "m \<le> r + n" using assms(1) a by (simp add: gated_def word_le_nat_alt)
  then have "unat (r + n - m) = unat r + unat n - unat m" by (simp add: unat_sub_le a)
  then show "r + n - m > sz \<longleftrightarrow> unat m + unat sz < unat r + unat n"
    using assms(1) by (auto simp: gated_def word_less_nat_alt word_le_nat_alt)
qed

lemma sp_tryNext_eq:
  assumes "snapshot_ok p" and "gated (gate s (sp_readSequences p) (sp_reserveCursor p)) (sp_reserveCursor p) (sp_size p)"
  shows "sp_tryNext n s p =
    (if unat (sp_reserveCursor p) + unat n \<le> unat (gate s (sp_readSequences p) (sp_reserveCursor p)) + unat (sp_size p)
     then ((refreshReaderSnapshot p)\<lparr>sp_reserveCursor := sp_reserveCursor p + n\<rparr>, Some (sp_reserveCursor p + n))
     else (refreshReaderSnapshot p, None))"
  using nClaimed_fits [OF assms(2)] refresh_ok [OF assms(1)]
  by (simp add: sp_tryNext_def sp_getRemainingCapacity_def sp_gate [OF assms(1)] Let_def not_less)

text \<open>
  The single producer's non-blocking claim succeeds exactly when the claimed slots do not
  overtake the slowest registered reader by more than the buffer size, whether or not the cached
  reader snapshot was stale, and it then moves only the reserve cursor, by \<open>n\<close>.
\<close>

theorem sp_tryNext_exact:
  assumes "snapshot_ok p" and "gated (gate s (sp_readSequences p) (sp_reserveCursor p)) (sp_reserveCursor p) (sp_size p)"
  shows "sp_tryNext n s p =
    (if unat (sp_reserveCursor p) + unat n \<le> unat (gate s (sp_readSequences p) (sp_reserveCursor p)) + unat (sp_size p)
     then ((refreshReaderSnapshot p)\<lparr>sp_reserveCursor := sp_reserveCursor p + n\<rparr>, Some (sp_reserveCursor p + n))
     else (refreshReaderSnapshot p, None))"
  using assms by (rule sp_tryNext_eq)

lemma sp_tryNext_exact_witness:
  "snapshot_ok ((sp_new 4)\<lparr>sp_readSequences := [0], sp_readerGeneration := 1\<rparr>) \<and>
   snd (sp_tryNext 3 (\<lambda>_. 0) ((sp_new 4)\<lparr>sp_readSequences := [0], sp_readerGeneration := 1\<rparr>)) = Some 3"
proof -
  let ?p = "(sp_new 4)\<lparr>sp_readSequences := [0], sp_readerGeneration := 1\<rparr>"
  have ok: "snapshot_ok ?p" by (simp add: snapshot_ok_def sp_new_def)
  have g: "gated (gate (\<lambda>_. 0) (sp_readSequences ?p) (sp_reserveCursor ?p)) (sp_reserveCursor ?p) (sp_size ?p)"
    by (simp add: gated_def gate_def sp_new_def kInitialCursorValue_def)
  from sp_tryNext_exact [OF ok g, of 3] ok show ?thesis
    by (simp add: sp_new_def kInitialCursorValue_def gate_def)
qed

text \<open>
  The multi-producer claim with its cached reader minimum decides like an uncached one: while the
  cache is a lower bound of every reader, the claim succeeds exactly when the slots fit, and the
  cache it leaves behind is again a lower bound.
\<close>

theorem mp_tryNext_cache_equiv:
  assumes g: "gated (mp_getMinReaderCursor s p) (mp_reserveCursor p) (mp_size p)"
    and c: "mp_cachedMinReaderCursor p \<le> mp_getMinReaderCursor s p"
    and n: "n \<le> mp_size p" "unat (mp_reserveCursor p) + unat n < 2 ^ 64"
  shows "snd (mp_tryNext n s p) =
      (if unat (mp_reserveCursor p) + unat n \<le> unat (mp_getMinReaderCursor s p) + unat (mp_size p)
       then Some (mp_reserveCursor p + n) else None) \<and>
    mp_cachedMinReaderCursor (fst (mp_tryNext n s p)) \<le> mp_getMinReaderCursor s p \<and>
    mp_reserveCursor (fst (mp_tryNext n s p)) =
      (case snd (mp_tryNext n s p) of None \<Rightarrow> mp_reserveCursor p | Some r \<Rightarrow> r)"
proof -
  let ?r = "mp_reserveCursor p" and ?m = "mp_getMinReaderCursor s p" and ?c = "mp_cachedMinReaderCursor p"
  have a: "unat (?r + n) = unat ?r + unat n" by (rule next_fits(2) [OF g n])
  have m: "?r + n - ?m > mp_size p \<longleftrightarrow> unat ?m + unat (mp_size p) < unat ?r + unat n" by (rule next_fits(1) [OF g n])
  have "?c \<le> ?r + n" using c g a by (auto simp: gated_def word_le_nat_alt)
  then have "unat (?r + n - ?c) = unat ?r + unat n - unat ?c" by (simp add: unat_sub_le a)
  then have cached: "\<not> ?r + n - ?c > mp_size p \<Longrightarrow> \<not> unat ?m + unat (mp_size p) < unat ?r + unat n"
    using c by (auto simp: word_less_nat_alt word_le_nat_alt)
  show ?thesis
    using c cached m
    by (auto simp: mp_tryNext_def refreshMinReaderCursor_def Let_def not_less min.coboundedI1)
qed

lemma mp_tryNext_cache_equiv_witness:
  "snd (mp_tryNext 3 (\<lambda>_. 2) ((mp_new 4)\<lparr>mp_readSequences := [0], mp_reserveCursor := 3, mp_publishCursor := 3\<rparr>)) = Some 6"
proof -
  let ?p = "(mp_new 4)\<lparr>mp_readSequences := [0], mp_reserveCursor := 3, mp_publishCursor := 3\<rparr>"
  have m: "mp_getMinReaderCursor (\<lambda>_. 2) ?p = 2" by (simp add: mp_getMinReaderCursor_def)
  have "gated (mp_getMinReaderCursor (\<lambda>_. 2) ?p) (mp_reserveCursor ?p) (mp_size ?p)"
    "mp_cachedMinReaderCursor ?p \<le> mp_getMinReaderCursor (\<lambda>_. 2) ?p" "(3::usize) \<le> mp_size ?p"
    "unat (mp_reserveCursor ?p) + unat (3::usize) < 2 ^ 64"
    by (simp_all add: m) (simp_all add: gated_def mp_new_def kInitialCursorValue_def)
  from mp_tryNext_cache_equiv [OF this] show ?thesis
    by (simp add: m) (simp add: mp_new_def)
qed

end
