(* ===== verification/MultiProducer.thy ===== *)
theory MultiProducer
  imports ClaimStrategy
begin

text \<open>
  Any number of producers on one \<open>MultiProducerStrategy\<close> (\<^verbatim>\<open>ClaimStrategy.hpp\<close>,
  \<open>tryNext\<close> and \<open>publish\<close>), as an interleaving of their atomic actions: the claiming
  exchange, each slot store, each slot load of the scan and the publishing exchange. Cursors are
  natural numbers here (absolute positions); \<open>r_pc\<close> holds where each producer is in its call and the
  part of its claim it still has to mark. The theory shows that no published position was ever unwritten, that the ring
  is never overrun, and that no completed slot stays unpublished.
\<close>

text \<open>Where a producer is in \<open>publish\<close>; \<open>Marking\<close> holds the part of the claim still to be marked.\<close>

datatype pstate =
    Idle
  | Marking nat nat
  | Scanning nat nat
  | Exchanging nat nat

record 't ring =
  r_size :: nat
  r_slots :: "nat \<Rightarrow> nat option"
  r_reserve :: nat
  r_publish :: nat
  r_reader :: nat
  r_pc :: "'t \<Rightarrow> pstate"

text \<open>
  \<open>claim\<close> is a successful exchange of the reserve cursor; the bound it was checked against is any
  lower bound of the slowest reader (\<open>_cachedMinReaderCursor\<close>). \<open>restart\<close> is a failed publishing
  exchange, which reloads the publish cursor. \<open>consume\<close> is the slowest reader moving on.
\<close>

inductive ring_step :: "'t ring \<Rightarrow> 't ring \<Rightarrow> bool" where
  claim: "r_pc r t = Idle \<Longrightarrow> 0 < n \<Longrightarrow> bound \<le> r_reader r \<Longrightarrow> r_reserve r + n \<le> bound + r_size r \<Longrightarrow>
    ring_step r (r\<lparr>r_reserve := r_reserve r + n,
                   r_pc := (r_pc r)(t := Marking (r_reserve r) (r_reserve r + n))\<rparr>)"
| mark: "r_pc r t = Marking a b \<Longrightarrow> a < b \<Longrightarrow>
    ring_step r (r\<lparr>r_slots := (r_slots r)(a mod r_size r := Some a),
                   r_pc := (r_pc r)(t := Marking (Suc a) b)\<rparr>)"
| fence: "r_pc r t = Marking a b \<Longrightarrow> \<not> a < b \<Longrightarrow>
    ring_step r (r\<lparr>r_pc := (r_pc r)(t := Scanning (r_publish r) (r_publish r))\<rparr>)"
| scan: "r_pc r t = Scanning c x \<Longrightarrow> x - c < r_size r \<Longrightarrow> r_slots r (x mod r_size r) = Some x \<Longrightarrow>
    ring_step r (r\<lparr>r_pc := (r_pc r)(t := Scanning c (Suc x))\<rparr>)"
| scan_none: "r_pc r t = Scanning c x \<Longrightarrow> \<not> (x - c < r_size r \<and> r_slots r (x mod r_size r) = Some x) \<Longrightarrow> x = c \<Longrightarrow>
    ring_step r (r\<lparr>r_pc := (r_pc r)(t := Idle)\<rparr>)"
| scan_end: "r_pc r t = Scanning c x \<Longrightarrow> \<not> (x - c < r_size r \<and> r_slots r (x mod r_size r) = Some x) \<Longrightarrow> x \<noteq> c \<Longrightarrow>
    ring_step r (r\<lparr>r_pc := (r_pc r)(t := Exchanging c x)\<rparr>)"
| exchange: "r_pc r t = Exchanging c x \<Longrightarrow> r_publish r = c \<Longrightarrow>
    ring_step r (r\<lparr>r_publish := x, r_pc := (r_pc r)(t := Idle)\<rparr>)"
| restart: "r_pc r t = Exchanging c x \<Longrightarrow> r_publish r \<noteq> c \<Longrightarrow>
    ring_step r (r\<lparr>r_pc := (r_pc r)(t := Scanning (r_publish r) (r_publish r))\<rparr>)"
| consume: "r_reader r \<le> k \<Longrightarrow> k \<le> r_publish r \<Longrightarrow> ring_step r (r\<lparr>r_reader := k\<rparr>)"

inductive ring_reach :: "nat \<Rightarrow> 't ring \<Rightarrow> bool" for sz where
  start: "0 < sz \<Longrightarrow> r = \<lparr>r_size = sz, r_slots = (\<lambda>_. None), r_reserve = 0, r_publish = 0, r_reader = 0,
                           r_pc = (\<lambda>_. Idle)\<rparr> \<Longrightarrow> ring_reach sz r"
| step: "ring_reach sz r \<Longrightarrow> ring_step r r' \<Longrightarrow> ring_reach sz r'"

subsection \<open>The invariant\<close>

definition marked :: "'t ring \<Rightarrow> nat \<Rightarrow> bool" where
  "marked r p \<longleftrightarrow> r_slots r (p mod r_size r) = Some p"

definition owns :: "'t ring \<Rightarrow> 't \<Rightarrow> nat \<Rightarrow> bool" where
  "owns r t p \<longleftrightarrow> (\<exists>a b. r_pc r t = Marking a b \<and> a \<le> p \<and> p < b)"

text \<open>What a producer's place says about the ring: its claim is reserved, its scan has passed marked slots.\<close>

definition pc_ok :: "'t ring \<Rightarrow> pstate \<Rightarrow> bool" where
  "pc_ok r q \<longleftrightarrow>
     (case q of
        Idle \<Rightarrow> True
      | Marking a b \<Rightarrow> a \<le> b \<and> b \<le> r_reserve r \<and> (a < b \<longrightarrow> r_publish r \<le> a)
      | Scanning c x \<Rightarrow> c \<le> r_publish r \<and> c \<le> x \<and> (c = r_publish r \<longrightarrow> (\<forall>p. c \<le> p \<longrightarrow> p < x \<longrightarrow> marked r p))
      | Exchanging c x \<Rightarrow> c \<le> r_publish r \<and> c < x \<and> (c = r_publish r \<longrightarrow> (\<forall>p. c \<le> p \<longrightarrow> p < x \<longrightarrow> marked r p)))"

definition cursors_ok :: "'t ring \<Rightarrow> bool" where
  "cursors_ok r \<longleftrightarrow> 0 < r_size r \<and> r_reader r \<le> r_publish r \<and> r_publish r \<le> r_reserve r \<and>
     r_reserve r \<le> r_reader r + r_size r"

text \<open>The pending claims are disjoint, unmarked, and all that is unmarked between the cursors.\<close>

definition claims_ok :: "'t ring \<Rightarrow> bool" where
  "claims_ok r \<longleftrightarrow>
     (\<forall>t u p. owns r t p \<longrightarrow> owns r u p \<longrightarrow> t = u) \<and>
     (\<forall>t p. owns r t p \<longrightarrow> \<not> marked r p) \<and>
     (\<forall>p. r_publish r \<le> p \<longrightarrow> p < r_reserve r \<longrightarrow> marked r p \<or> (\<exists>t. owns r t p))"

definition ring_inv :: "'t ring \<Rightarrow> bool" where
  "ring_inv r \<longleftrightarrow> cursors_ok r \<and> claims_ok r \<and> (\<forall>t. pc_ok r (r_pc r t)) \<and>
     (\<forall>i p. r_slots r i = Some p \<longrightarrow> p < r_reserve r)"

text \<open>A producer that is bound to publish position \<open>p\<close>, or to have another one do so.\<close>

definition covers :: "'t ring \<Rightarrow> 't \<Rightarrow> nat \<Rightarrow> bool" where
  "covers r t p \<longleftrightarrow>
     (case r_pc r t of
        Idle \<Rightarrow> False
      | Marking a b \<Rightarrow> True
      | Scanning c x \<Rightarrow> c = r_publish r \<or> c < x \<or> marked r c
      | Exchanging c x \<Rightarrow> c \<noteq> r_publish r \<or> p < x)"

definition covered :: "'t ring \<Rightarrow> bool" where
  "covered r \<longleftrightarrow> (\<forall>p. r_publish r \<le> p \<longrightarrow> p < r_reserve r \<longrightarrow>
     (\<forall>q. r_publish r \<le> q \<longrightarrow> q \<le> p \<longrightarrow> marked r q) \<longrightarrow> (\<exists>t. covers r t p))"

lemma marked_upd [simp]:
  "marked (r\<lparr>r_pc := f\<rparr>) = marked r" "marked (r\<lparr>r_reserve := n\<rparr>) = marked r"
  "marked (r\<lparr>r_publish := n\<rparr>) = marked r" "marked (r\<lparr>r_reader := n\<rparr>) = marked r"
  by (auto simp: marked_def)

lemma owns_upd [simp]:
  "owns (r\<lparr>r_reserve := n\<rparr>) = owns r" "owns (r\<lparr>r_publish := n\<rparr>) = owns r"
  "owns (r\<lparr>r_reader := n\<rparr>) = owns r" "owns (r\<lparr>r_slots := s\<rparr>) = owns r"
  by (auto simp: owns_def fun_eq_iff)

lemma owns_pc: "owns (r\<lparr>r_pc := (r_pc r)(t := q)\<rparr>) u p \<longleftrightarrow>
  (if u = t then (\<exists>a b. q = Marking a b \<and> a \<le> p \<and> p < b) else owns r u p)"
  by (auto simp: owns_def)

lemma mod_window: "p mod n = q mod n \<Longrightarrow> p \<le> q \<Longrightarrow> q < p + n \<Longrightarrow> p = (q::nat)"
proof -
  assume a: "p mod n = q mod n" "p \<le> q" "q < p + n"
  then have "n dvd q - p" by (metis mod_eq_dvd_iff_nat)
  moreover have "q - p < n" using a by simp
  ultimately show "p = q" using a(2) by (metis dvd_imp_le diff_is_0_eq le_antisym not_le zero_less_iff_neq_zero)
qed

lemma marked_mark:
  assumes inv: "ring_inv r" and a: "r_publish r \<le> a" "a < r_reserve r" and p: "r_publish r \<le> p" "p < r_reserve r"
  shows "marked (r\<lparr>r_slots := (r_slots r)(a mod r_size r := Some a)\<rparr>) p \<longleftrightarrow> p = a \<or> marked r p"
proof -
  have "r_reserve r \<le> r_publish r + r_size r" using inv by (auto simp: ring_inv_def cursors_ok_def)
  then have "p mod r_size r = a mod r_size r \<Longrightarrow> p = a"
    using a p mod_window [of p "r_size r" a] mod_window [of a "r_size r" p] by (cases "p \<le> a") auto
  then show ?thesis by (auto simp: marked_def)
qed

lemma marked_lt: "ring_inv r \<Longrightarrow> marked r p \<Longrightarrow> p < r_reserve r"
  by (auto simp: ring_inv_def marked_def)

lemma owns_lt:
  assumes "ring_inv r" "owns r t p"
  shows "r_publish r \<le> p \<and> p < r_reserve r"
proof -
  from assms(2) obtain a b where ab: "r_pc r t = Marking a b" "a \<le> p" "p < b" by (auto simp: owns_def)
  have "pc_ok r (Marking a b)" using assms(1) unfolding ring_inv_def ab(1) [symmetric] by blast
  with ab show ?thesis by (simp add: pc_ok_def)
qed

lemma pc_ok_upd [simp]: "pc_ok (r\<lparr>r_pc := f\<rparr>) = pc_ok r" "pc_ok (r\<lparr>r_reader := k\<rparr>) = pc_ok r"
  by (simp_all add: pc_ok_def fun_eq_iff split: pstate.split)

lemma pc_ok_reserve: "pc_ok r q \<Longrightarrow> pc_ok (r\<lparr>r_reserve := r_reserve r + n\<rparr>) q"
  by (auto simp: pc_ok_def split: pstate.splits)

text \<open>Steps that change only one producer's place outside \<open>Marking\<close> keep everything else.\<close>

lemma ring_inv_pc:
  assumes inv: "ring_inv r" and old: "\<And>p. \<not> owns r t p" and new: "\<And>a b. q \<noteq> Marking a b" and q: "pc_ok r q"
  shows "ring_inv (r\<lparr>r_pc := (r_pc r)(t := q)\<rparr>)"
proof -
  have "owns (r\<lparr>r_pc := (r_pc r)(t := q)\<rparr>) = owns r"
    using old new by (auto simp: owns_pc fun_eq_iff split: if_splits)
  with inv q show ?thesis by (simp add: ring_inv_def claims_ok_def cursors_ok_def)
qed

lemma not_owner: "r_pc r t = q \<Longrightarrow> (\<And>a b. q = Marking a b \<Longrightarrow> \<not> a < b) \<Longrightarrow> \<not> owns r t p"
  by (auto simp: owns_def)

lemma pcD: "ring_inv r \<Longrightarrow> r_pc r t = q \<Longrightarrow> pc_ok r q"
  by (auto simp: ring_inv_def)

lemma claimsD:
  assumes "ring_inv r"
  shows "owns r t p \<Longrightarrow> owns r u p \<Longrightarrow> t = u" and "owns r t p \<Longrightarrow> \<not> marked r p"
    and "r_publish r \<le> p \<Longrightarrow> p < r_reserve r \<Longrightarrow> \<not> marked r p \<Longrightarrow> \<exists>t. owns r t p"
  using assms unfolding ring_inv_def claims_ok_def by blast+

lemma ring_inv_mark:
  assumes inv: "ring_inv r" and t: "r_pc r t = Marking a b" "a < b"
  shows "ring_inv (r\<lparr>r_slots := (r_slots r)(a mod r_size r := Some a), r_pc := (r_pc r)(t := Marking (Suc a) b)\<rparr>)"
    (is "ring_inv ?r'")
proof -
  from pcD [OF inv t(1)] t(2) have ab: "r_publish r \<le> a" "b \<le> r_reserve r" by (auto simp: pc_ok_def)
  then have ar: "a < r_reserve r" using t by simp
  have m: "marked ?r' p \<longleftrightarrow> p = a \<or> marked r p" if "r_publish r \<le> p" "p < r_reserve r" for p
    using marked_mark [OF inv ab(1) ar that] by simp
  have o: "owns ?r' u p \<longleftrightarrow> owns r u p \<and> \<not> (u = t \<and> p = a)" for u p
    using t by (auto simp: owns_pc owns_def)
  have ota: "owns r t a" using t by (auto simp: owns_def)
  have "claims_ok ?r'"
    unfolding claims_ok_def o
  proof (intro conjI allI impI)
    fix u v p assume "owns r u p \<and> \<not> (u = t \<and> p = a)" "owns r v p \<and> \<not> (v = t \<and> p = a)"
    then show "u = v" using inv by (auto simp: ring_inv_def claims_ok_def)
  next
    fix u p assume u: "owns r u p \<and> \<not> (u = t \<and> p = a)"
    then have "p \<noteq> a" using ota inv by (auto simp: ring_inv_def claims_ok_def)
    moreover have "\<not> marked r p" using u claimsD(2) [OF inv] by blast
    ultimately show "\<not> marked ?r' p" using m owns_lt [OF inv, of u p] u by simp
  next
    fix p assume p: "r_publish ?r' \<le> p" "p < r_reserve ?r'"
    with inv have "marked r p \<or> (\<exists>t. owns r t p)" by (auto simp: ring_inv_def claims_ok_def)
    with p m show "marked ?r' p \<or> (\<exists>u. owns r u p \<and> \<not> (u = t \<and> p = a))" by auto
  qed
  moreover have "pc_ok ?r' q" if "pc_ok r q" for q
  proof -
    have "marked ?r' p" if "marked r p" "r_publish r \<le> p" for p
      using m [OF that(2) marked_lt [OF inv that(1)]] that(1) by simp
    with \<open>pc_ok r q\<close> show ?thesis by (auto simp: pc_ok_def split: pstate.splits)
  qed
  moreover have "pc_ok r (Marking (Suc a) b)" using t ab by (simp add: pc_ok_def)
  ultimately show ?thesis
    using inv ar by (auto simp: ring_inv_def cursors_ok_def)
qed

lemma ring_inv_claim:
  assumes inv: "ring_inv r" and t: "r_pc r t = Idle" and n: "r_reserve r + n \<le> r_reader r + r_size r"
  shows "ring_inv (r\<lparr>r_reserve := r_reserve r + n, r_pc := (r_pc r)(t := Marking (r_reserve r) (r_reserve r + n))\<rparr>)"
    (is "ring_inv ?r'")
proof -
  have o: "owns ?r' u p \<longleftrightarrow> owns r u p \<or> (u = t \<and> r_reserve r \<le> p \<and> p < r_reserve r + n)" for u p
    using t by (auto simp: owns_pc owns_def)
  have old: "owns r u p \<Longrightarrow> p < r_reserve r" for u p using owns_lt [OF inv] by blast
  have "claims_ok ?r'"
    unfolding claims_ok_def o
  proof (intro conjI allI impI)
    fix u v p
    assume "owns r u p \<or> (u = t \<and> r_reserve r \<le> p \<and> p < r_reserve r + n)"
      "owns r v p \<or> (v = t \<and> r_reserve r \<le> p \<and> p < r_reserve r + n)"
    then show "u = v" using inv old [of u p] old [of v p] by (auto simp: ring_inv_def claims_ok_def)
  next
    fix u p assume "owns r u p \<or> (u = t \<and> r_reserve r \<le> p \<and> p < r_reserve r + n)"
    moreover have "owns r u p \<Longrightarrow> \<not> marked r p" using inv by (simp add: ring_inv_def claims_ok_def)
    ultimately show "\<not> marked ?r' p" using marked_lt [OF inv, of p] by auto
  next
    fix p assume p: "r_publish ?r' \<le> p" "p < r_reserve ?r'"
    have "p < r_reserve r \<Longrightarrow> marked r p \<or> (\<exists>u. owns r u p)"
      using inv p by (simp add: ring_inv_def claims_ok_def)
    with p show "marked ?r' p \<or> (\<exists>u. owns r u p \<or> (u = t \<and> r_reserve r \<le> p \<and> p < r_reserve r + n))"
      by (cases "p < r_reserve r") auto
  qed
  moreover have "pc_ok ?r' (Marking (r_reserve r) (r_reserve r + n))"
    using inv by (simp add: pc_ok_def ring_inv_def cursors_ok_def)
  moreover have "pc_ok ?r' (r_pc r u)" for u
    using inv pc_ok_reserve by (auto simp: ring_inv_def)
  ultimately show ?thesis using inv n by (auto simp: ring_inv_def cursors_ok_def trans_less_add1)
qed

lemma ring_inv_exchange:
  assumes inv: "ring_inv r" and t: "r_pc r t = Exchanging (r_publish r) x"
  shows "ring_inv (r\<lparr>r_publish := x, r_pc := (r_pc r)(t := Idle)\<rparr>)" (is "ring_inv ?r'")
proof -
  from pcD [OF inv t] have x: "r_publish r < x" "\<And>p. r_publish r \<le> p \<Longrightarrow> p < x \<Longrightarrow> marked r p"
    by (auto simp: pc_ok_def)
  have xr: "x \<le> r_reserve r" using marked_lt [OF inv x(2) [of "x - 1"]] x(1) by linarith
  have o: "owns ?r' = owns r" using t by (auto simp: owns_def fun_eq_iff)
  have "pc_ok ?r' q" if q: "pc_ok r q" and own: "\<And>a b p. q = Marking a b \<Longrightarrow> a \<le> p \<Longrightarrow> p < b \<Longrightarrow> \<not> marked r p" for q
  proof (cases q)
    case (Marking a b)
    have "a < b \<Longrightarrow> x \<le> a" using own [OF Marking] x(2) [of a] q Marking by (force simp: pc_ok_def)
    with q Marking show ?thesis by (simp add: pc_ok_def)
  qed (use q x in \<open>auto simp: pc_ok_def\<close>)
  moreover have "\<not> marked r p" if "r_pc r u = Marking a b" "a \<le> p" "p < b" for u a b p
    using claimsD(2) [OF inv, of u p] that by (auto simp: owns_def)
  ultimately have "pc_ok ?r' (r_pc r u)" for u using inv unfolding ring_inv_def by blast
  with inv x(1) xr show ?thesis
    by (auto simp: ring_inv_def cursors_ok_def claims_ok_def o) (simp add: pc_ok_def)
qed

lemma ring_step_inv: "ring_step r r' \<Longrightarrow> ring_inv r \<Longrightarrow> ring_inv r'"
proof (induction rule: ring_step.induct)
  case (claim r t n bound)
  then show ?case by (intro ring_inv_claim) auto
next
  case (mark r t a b)
  then show ?case by (intro ring_inv_mark)
next
  case (fence r t a b)
  then show ?case by (intro ring_inv_pc not_owner) (auto simp: pc_ok_def)
next
  case (scan r t c x)
  then show ?case using pcD [OF scan.prems scan.hyps(1)]
    by (intro ring_inv_pc not_owner) (auto simp: pc_ok_def marked_def less_Suc_eq)
next
  case (scan_none r t c x)
  then show ?case by (intro ring_inv_pc not_owner) (auto simp: pc_ok_def)
next
  case (scan_end r t c x)
  then show ?case using pcD [OF scan_end.prems scan_end.hyps(1)]
    by (intro ring_inv_pc not_owner) (auto simp: pc_ok_def)
next
  case (exchange r t c x)
  then show ?case by (intro ring_inv_exchange) auto
next
  case (restart r t c x)
  then show ?case by (intro ring_inv_pc not_owner) (auto simp: pc_ok_def)
next
  case (consume r k)
  then show ?case by (auto simp: ring_inv_def cursors_ok_def claims_ok_def)
qed

subsection \<open>Readers see written slots only\<close>

definition readable :: "'t ring \<Rightarrow> bool" where
  "readable r \<longleftrightarrow> (\<forall>p. r_reader r \<le> p \<longrightarrow> p < r_publish r \<longrightarrow> marked r p)"

lemma ring_step_readable: "ring_step r r' \<Longrightarrow> ring_inv r \<Longrightarrow> readable r \<Longrightarrow> readable r'"
proof (induction rule: ring_step.induct)
  case (mark r t a b)
  from pcD [OF mark.prems(1) mark.hyps(1)] mark.hyps(2) have ab: "r_publish r \<le> a" "a < r_reserve r"
    by (auto simp: pc_ok_def)
  have "marked (r\<lparr>r_slots := (r_slots r)(a mod r_size r := Some a)\<rparr>) p" if "r_reader r \<le> p" "p < r_publish r" for p
  proof -
    have "a < p + r_size r" using mark.prems(1) ab that by (auto simp: ring_inv_def cursors_ok_def)
    then have "p mod r_size r \<noteq> a mod r_size r" using mod_window [of p "r_size r" a] ab that by auto
    moreover have "marked r p" using mark.prems(2) that by (simp add: readable_def)
    ultimately show ?thesis by (simp add: marked_def)
  qed
  then show ?case by (simp add: readable_def)
next
  case (exchange r t c x)
  from pcD [OF exchange.prems(1) exchange.hyps(1)] exchange.hyps(2) exchange.prems(2) show ?case
    by (auto simp: readable_def pc_ok_def not_le [symmetric])
qed (auto simp: readable_def)

subsection \<open>No completed slot is left unpublished\<close>

lemma coveredD:
  "covered r \<Longrightarrow> r_publish r \<le> p \<Longrightarrow> p < r_reserve r \<Longrightarrow>
   (\<And>q. r_publish r \<le> q \<Longrightarrow> q \<le> p \<Longrightarrow> marked r q) \<Longrightarrow> \<exists>t. covers r t p"
  by (auto simp: covered_def)

text \<open>A step of one producer outside \<open>mark\<close> keeps the others' obligations; only its own can end.\<close>

lemma covered_pc:
  assumes cov: "covered r"
    and own: "\<And>p. covers r t p \<Longrightarrow> r_publish r \<le> p \<Longrightarrow> p < r_reserve r \<Longrightarrow>
        (\<And>q. r_publish r \<le> q \<Longrightarrow> q \<le> p \<Longrightarrow> marked r q) \<Longrightarrow>
        covers (r\<lparr>r_pc := (r_pc r)(t := q)\<rparr>) t p"
  shows "covered (r\<lparr>r_pc := (r_pc r)(t := q)\<rparr>)"
  unfolding covered_def
proof (intro allI impI)
  let ?r' = "r\<lparr>r_pc := (r_pc r)(t := q)\<rparr>"
  fix p assume p: "r_publish ?r' \<le> p" "p < r_reserve ?r'" "\<forall>q. r_publish ?r' \<le> q \<longrightarrow> q \<le> p \<longrightarrow> marked ?r' q"
  then obtain u where u: "covers r u p" using coveredD [OF cov] by auto
  show "\<exists>t. covers ?r' t p"
  proof (cases "u = t")
    case True
    with own [of p] u p show ?thesis by auto
  next
    case False
    with u have "covers ?r' u p" by (simp add: covers_def split: pstate.splits)
    then show ?thesis ..
  qed
qed

lemma covered_all: "(\<And>p. covers r t p) \<Longrightarrow> covered r"
  by (auto simp: covered_def)

lemma scan_stops:
  assumes inv: "ring_inv r" and stop: "\<not> (x - r_publish r < r_size r \<and> r_slots r (x mod r_size r) = Some x)"
    and x: "r_publish r \<le> x" and p: "r_publish r \<le> p" "p < r_reserve r"
    and m: "\<And>q. r_publish r \<le> q \<Longrightarrow> q \<le> p \<Longrightarrow> marked r q"
  shows "p < x"
proof (rule ccontr)
  assume "\<not> p < x"
  then have "marked r x" "x - r_publish r \<le> p - r_publish r" using m [OF x] by auto
  moreover have "p - r_publish r < r_size r" using inv p by (auto simp: ring_inv_def cursors_ok_def)
  ultimately show False using stop by (auto simp: marked_def)
qed

lemma covered_exchange:
  assumes inv: "ring_inv r" and cov: "covered r" and t: "r_pc r t = Exchanging (r_publish r) x"
  shows "covered (r\<lparr>r_publish := x, r_pc := (r_pc r)(t := Idle)\<rparr>)"
  unfolding covered_def
proof (intro allI impI)
  let ?r' = "r\<lparr>r_publish := x, r_pc := (r_pc r)(t := Idle)\<rparr>"
  from pcD [OF inv t] have x: "r_publish r < x" "\<And>p. r_publish r \<le> p \<Longrightarrow> p < x \<Longrightarrow> marked r p"
    by (auto simp: pc_ok_def)
  fix p assume p: "r_publish ?r' \<le> p" "p < r_reserve ?r'" "\<forall>q. r_publish ?r' \<le> q \<longrightarrow> q \<le> p \<longrightarrow> marked ?r' q"
  then have m: "\<And>q. r_publish r \<le> q \<Longrightarrow> q \<le> p \<Longrightarrow> marked r q" using x(2) by (metis marked_upd(1,3) not_le ring.select_convs(4) ring.simps(4) ring.update_convs(4,6) ring.surjective)
  have "\<exists>u. covers r u p" by (rule coveredD [OF cov]) (use x(1) p m in auto)
  then obtain u where u: "covers r u p" ..
  have ut: "u \<noteq> t" using u t p by (auto simp: covers_def)
  from pcD [OF inv refl] have "pc_ok r (r_pc r u)" .
  then have "covers ?r' u p"
    using u ut x m by (auto simp: covers_def pc_ok_def split: pstate.splits)
  then show "\<exists>t. covers ?r' t p" ..
qed

lemma ring_step_covered: "ring_step r r' \<Longrightarrow> ring_inv r \<Longrightarrow> covered r \<Longrightarrow> covered r'"
proof (induction rule: ring_step.induct)
  case (claim r t n bound)
  show ?case by (rule covered_all [of _ t]) (simp add: covers_def)
next
  case (mark r t a b)
  show ?case by (rule covered_all [of _ t]) (simp add: covers_def)
next
  case (fence r t a b)
  show ?case by (rule covered_all [of _ t]) (simp add: covers_def)
next
  case (scan r t c x)
  have "c \<le> x" using pcD [OF scan.prems(1) scan.hyps(1)] by (simp add: pc_ok_def)
  then show ?case by (intro covered_pc scan.prems(2)) (simp add: covers_def)
next
  case (scan_none r t c x)
  show ?case
  proof (rule covered_pc [OF scan_none.prems(2)])
    fix p assume h: "covers r t p" "r_publish r \<le> p" "p < r_reserve r" "\<And>q. r_publish r \<le> q \<Longrightarrow> q \<le> p \<Longrightarrow> marked r q"
    have "0 < r_size r" using scan_none.prems(1) by (simp add: ring_inv_def cursors_ok_def)
    then have nm: "\<not> marked r c" using scan_none.hyps by (auto simp: marked_def)
    with h scan_none.hyps have "c = r_publish r" by (auto simp: covers_def)
    with nm h show "covers (r\<lparr>r_pc := (r_pc r)(t := Idle)\<rparr>) t p" by auto
  qed
next
  case (scan_end r t c x)
  from pcD [OF scan_end.prems(1) scan_end.hyps(1)] have c: "c \<le> r_publish r" "c \<le> x" by (auto simp: pc_ok_def)
  show ?case
  proof (rule covered_pc [OF scan_end.prems(2)])
    fix p assume h: "covers r t p" "r_publish r \<le> p" "p < r_reserve r" "\<And>q. r_publish r \<le> q \<Longrightarrow> q \<le> p \<Longrightarrow> marked r q"
    show "covers (r\<lparr>r_pc := (r_pc r)(t := Exchanging c x)\<rparr>) t p"
      using scan_stops [OF scan_end.prems(1) _ _ h(2-4), of x] scan_end.hyps(2) c by (auto simp: covers_def)
  qed
next
  case (exchange r t c x)
  then show ?case by (auto intro: covered_exchange)
next
  case (restart r t c x)
  show ?case by (rule covered_all [of _ t]) (simp add: covers_def)
next
  case (consume r k)
  then show ?case by (simp add: covered_def covers_def cong: pstate.case_cong)
qed

lemma ring_reach_inv: "ring_reach sz r \<Longrightarrow> ring_inv r \<and> readable r \<and> covered r \<and> r_size r = sz"
proof (induction rule: ring_reach.induct)
  case (start r)
  then show ?case
    by (simp add: ring_inv_def cursors_ok_def claims_ok_def pc_ok_def owns_def marked_def readable_def covered_def)
next
  case (step r r')
  have "r_size r' = r_size r" using step.hyps(2) by (induction rule: ring_step.induct) auto
  with step show ?case by (simp add: ring_step_inv ring_step_readable ring_step_covered)
qed

text \<open>
  C16. Whatever the interleaving of the producers and however out of order they finish: the ring is
  never overrun, every slot between the slowest reader and the publish cursor holds its completed
  write, and once no producer is inside \<open>publish\<close> every claimed slot has been published.
\<close>

theorem mp_publish_complete:
  assumes "ring_reach sz r"
  shows "r_reader r \<le> r_publish r \<and> r_publish r \<le> r_reserve r \<and> r_reserve r \<le> r_reader r + sz \<and>
    (\<forall>p. r_reader r \<le> p \<longrightarrow> p < r_publish r \<longrightarrow> r_slots r (p mod sz) = Some p) \<and>
    ((\<forall>t. r_pc r t = Idle) \<longrightarrow> r_publish r = r_reserve r)"
proof -
  have inv: "ring_inv r" "readable r" "covered r" "r_size r = sz" using ring_reach_inv [OF assms] by auto
  have "r_publish r = r_reserve r" if idle: "\<forall>t. r_pc r t = Idle"
  proof (rule ccontr)
    assume "r_publish r \<noteq> r_reserve r"
    then have lt: "r_publish r < r_reserve r" using inv(1) by (auto simp: ring_inv_def cursors_ok_def)
    have "marked r p" if "r_publish r \<le> p" "p < r_reserve r" for p
      using claimsD(3) [OF inv(1) that] idle by (auto simp: owns_def)
    with lt have "\<exists>t. covers r t (r_publish r)" by (intro coveredD [OF inv(3)]) auto
    with idle show False by (auto simp: covers_def)
  qed
  then show ?thesis using inv by (auto simp: ring_inv_def cursors_ok_def readable_def marked_def)
qed

definition demo_ring :: "(nat \<Rightarrow> nat option) \<Rightarrow> nat \<Rightarrow> nat \<Rightarrow> (bool \<Rightarrow> pstate) \<Rightarrow> bool ring" where
  "demo_ring sl res pub f =
     \<lparr>r_size = 2, r_slots = sl, r_reserve = res, r_publish = pub, r_reader = 0, r_pc = f\<rparr>"

lemma demo_upd [simp]:
  "demo_ring sl res pub f\<lparr>r_slots := sl'\<rparr> = demo_ring sl' res pub f"
  "demo_ring sl res pub f\<lparr>r_reserve := n\<rparr> = demo_ring sl n pub f"
  "demo_ring sl res pub f\<lparr>r_publish := n\<rparr> = demo_ring sl res n f"
  "demo_ring sl res pub f\<lparr>r_pc := f'\<rparr> = demo_ring sl res pub f'"
  "r_size (demo_ring sl res pub f) = 2" "r_slots (demo_ring sl res pub f) = sl"
  "r_reserve (demo_ring sl res pub f) = res" "r_publish (demo_ring sl res pub f) = pub"
  "r_reader (demo_ring sl res pub f) = 0" "r_pc (demo_ring sl res pub f) = f"
  by (simp_all add: demo_ring_def)

lemma mp_publish_complete_witness:
  "\<exists>r :: bool ring. ring_reach 2 r \<and> r_publish r = 2 \<and> r_slots r (1 mod 2) = Some 1 \<and>
     ((\<forall>t. r_pc r t = Idle) \<and> r_publish r = r_reserve r)"
proof -
  let ?S = "\<lambda>f. demo_ring (\<lambda>_. None) 2 0 f" and ?i = "\<lambda>_ :: bool. Idle"
  let ?m1 = "(\<lambda>_. None)(1 := Some 1) :: nat \<Rightarrow> nat option"
  let ?m = "?m1(0 := Some 0)"
  let ?a = "?i(True := Marking 0 1)"
  have "ring_reach 2 (demo_ring (\<lambda>_. None) 0 0 ?i)" by (rule ring_reach.start) (simp_all add: demo_ring_def)
  from ring_reach.step [OF this ring_step.claim [where t = True and n = 1 and bound = 0]]
  have "ring_reach 2 (demo_ring (\<lambda>_. None) 1 0 ?a)" by simp
  from ring_reach.step [OF this ring_step.claim [where t = False and n = 1 and bound = 0]]
  have "ring_reach 2 (?S (?a(False := Marking 1 2)))" by (simp add: numeral_2_eq_2)
  from ring_reach.step [OF this ring_step.mark [where t = False and a = 1 and b = 2]]
  have "ring_reach 2 (demo_ring ?m1 2 0 (?a(False := Marking 2 2)))" by (simp add: numeral_2_eq_2)
  from ring_reach.step [OF this ring_step.fence [where t = False and a = 2 and b = 2]]
  have "ring_reach 2 (demo_ring ?m1 2 0 (?a(False := Scanning 0 0)))" by simp
  from ring_reach.step [OF this ring_step.scan_none [where t = False and c = 0 and x = 0]]
  have "ring_reach 2 (demo_ring ?m1 2 0 (?a(False := Idle)))" by simp
  from ring_reach.step [OF this ring_step.mark [where t = True and a = 0 and b = 1]]
  have "ring_reach 2 (demo_ring ?m 2 0 (?i(True := Marking 1 1, False := Idle)))" by (simp add: fun_upd_twist)
  from ring_reach.step [OF this ring_step.fence [where t = True and a = 1 and b = 1]]
  have "ring_reach 2 (demo_ring ?m 2 0 (?i(True := Scanning 0 0)))" by (simp add: fun_upd_idem)
  from ring_reach.step [OF this ring_step.scan [where t = True and c = 0 and x = 0]]
  have "ring_reach 2 (demo_ring ?m 2 0 (?i(True := Scanning 0 1)))" by simp
  from ring_reach.step [OF this ring_step.scan [where t = True and c = 0 and x = 1]]
  have "ring_reach 2 (demo_ring ?m 2 0 (?i(True := Scanning 0 2)))" by (simp add: numeral_2_eq_2)
  from ring_reach.step [OF this ring_step.scan_end [where t = True and c = 0 and x = 2]]
  have "ring_reach 2 (demo_ring ?m 2 0 (?i(True := Exchanging 0 2)))" by simp
  from ring_reach.step [OF this ring_step.exchange [where t = True and c = 0 and x = 2]]
  have r: "ring_reach 2 (demo_ring ?m 2 2 (?i(True := Idle)))" by simp
  show ?thesis using mp_publish_complete [OF r] r by (intro exI [of _ "demo_ring ?m 2 2 (?i(True := Idle))"]) simp
qed

end
