(* ===== verification/CircularBuffer.thy ===== *)
theory CircularBuffer
  imports ClaimStrategy
begin

text \<open>
  The single-producer circular buffer of \<^verbatim>\<open>core/include/gnuradio-4.0/CircularBuffer.hpp\<close> in a
  release build (the \<open>NDEBUG\<close> diagnostics are left out): the storage with its mirror (mapped twice by
  the memory unit, or copied when a write span is released), the writer with its reservation and
  spans, and readers with theirs. Spans share their parent's state; the release actions of a span
  are those of its destructor. The last part states the queue the buffer implements.
\<close>

datatype policy = Terminate | ProcessAll | ProcessNone

text \<open>Page alignment of a double-mapped buffer: whole pages that hold whole elements.\<close>

definition align_with_page_size :: "nat \<Rightarrow> nat \<Rightarrow> nat \<Rightarrow> bool \<Rightarrow> nat" where
  "align_with_page_size page_size element_size min_elems isMmap =
     (if \<not> isMmap then min_elems
      else let gcd_value = gcd page_size element_size;
               lcm_value = (page_size div gcd_value) * element_size;
               elements_per_lcm = lcm_value div element_size;
               num_blocks = (min_elems + elements_per_lcm - 1) div elements_per_lcm
           in num_blocks * elements_per_lcm)"

definition buffer_size :: "nat \<Rightarrow> bool \<Rightarrow> nat" where
  "buffer_size n isMmapAllocated = (if isMmapAllocated then n else 2 * n)"

record 'a cbuffer =
  cb_isMmap :: bool
  cb_size :: usize
  cb_data :: "'a list"
  cb_claim :: single_producer
  cb_seqs :: seq_store
  cb_reader_count :: usize
  cb_writer_count :: usize

definition cb_new :: "nat \<Rightarrow> bool \<Rightarrow> 'a \<Rightarrow> 'a cbuffer" where
  "cb_new n mmap d =
     \<lparr>cb_isMmap = mmap, cb_size = of_nat n, cb_data = replicate (buffer_size n mmap) d,
      cb_claim = sp_new (of_nat n), cb_seqs = (\<lambda>_. 0), cb_reader_count = 0, cb_writer_count = 0\<rparr>"

text \<open>
  Memory accesses: a double-mapped buffer has one copy of the data behind both halves, so an
  address is taken modulo the size; otherwise both halves are stored.
\<close>

definition cb_cell :: "'a cbuffer \<Rightarrow> nat \<Rightarrow> 'a" where
  "cb_cell b i = (if cb_isMmap b then cb_data b ! (i mod unat (cb_size b)) else cb_data b ! i)"

definition cb_store :: "nat \<Rightarrow> 'a \<Rightarrow> 'a cbuffer \<Rightarrow> 'a cbuffer" where
  "cb_store i v b =
     b\<lparr>cb_data := (cb_data b)[(if cb_isMmap b then i mod unat (cb_size b) else i) := v]\<rparr>"

subsection \<open>Writer\<close>

abbreviation kNotPublished :: usize where
  "kNotPublished \<equiv> usize_max"

record writer =
  w_requested :: usize
  w_index :: usize
  w_offset :: usize
  w_spanSize :: usize
  w_instanceCount :: nat

definition new_writer :: "'a cbuffer \<Rightarrow> 'a cbuffer \<times> writer" where
  "new_writer b = (b\<lparr>cb_writer_count := cb_writer_count b + 1\<rparr>,
     \<lparr>w_requested = 0, w_index = 0, w_offset = 0, w_spanSize = 0, w_instanceCount = 0\<rparr>)"

definition drop_writer :: "'a cbuffer \<Rightarrow> 'a cbuffer" where
  "drop_writer b = b\<lparr>cb_writer_count := cb_writer_count b - 1\<rparr>"

definition w_isPublishRequested :: "writer \<Rightarrow> bool" where
  "w_isPublishRequested w \<longleftrightarrow> w_requested w \<noteq> kNotPublished"

definition w_nRequestedSamplesToPublish :: "writer \<Rightarrow> usize" where
  "w_nRequestedSamplesToPublish w = (if w_requested w = kNotPublished then 0 else w_requested w)"

text \<open>A write span: whether its reservation was refused; the claim itself is the writer's.\<close>

datatype wspan = WSpan (ws_refused: bool)

definition ws_size :: "wspan \<Rightarrow> writer \<Rightarrow> usize" where
  "ws_size s w = (if ws_refused s then 0 else w_spanSize w)"

definition tryReserve :: "usize \<Rightarrow> 'a cbuffer \<Rightarrow> writer \<Rightarrow> 'a cbuffer \<times> writer \<times> wspan" where
  "tryReserve n b w =
     (if w_instanceCount w > 0
      then (b, w\<lparr>w_instanceCount := w_instanceCount w + 1\<rparr>, WSpan True)
      else
        let w1 = w\<lparr>w_requested := kNotPublished\<rparr> in
        if n = 0 then (b, w1\<lparr>w_instanceCount := w_instanceCount w1 + 1\<rparr>, WSpan False)
        else case sp_tryNext n (cb_seqs b) (cb_claim b) of
            (c, Some sequence) \<Rightarrow>
              (b\<lparr>cb_claim := c\<rparr>,
               w1\<lparr>w_index := calculateIndex (cb_size b) (sequence + cb_size b - n),
                  w_offset := sequence - n, w_spanSize := n,
                  w_instanceCount := w_instanceCount w1 + 1\<rparr>,
               WSpan False)
          | (c, None) \<Rightarrow> (b\<lparr>cb_claim := c\<rparr>, w1\<lparr>w_instanceCount := w_instanceCount w1 + 1\<rparr>, WSpan False))"

text \<open>The blocking variant, with the reader positions it polls; \<open>None\<close> while it still spins.\<close>

definition reserve :: "usize \<Rightarrow> seq_store list \<Rightarrow> 'a cbuffer \<Rightarrow> writer \<Rightarrow> ('a cbuffer \<times> writer \<times> wspan) option" where
  "reserve n polls b w =
     (if w_instanceCount w > 0
      then Some (b, w\<lparr>w_instanceCount := w_instanceCount w + 1\<rparr>, WSpan True)
      else
        let w1 = w\<lparr>w_requested := kNotPublished\<rparr> in
        if n = 0 then Some (b, w1\<lparr>w_instanceCount := w_instanceCount w1 + 1\<rparr>, WSpan False)
        else case sp_next n polls (cb_claim b) of
            (c, Some sequence) \<Rightarrow>
              Some (b\<lparr>cb_claim := c\<rparr>,
               w1\<lparr>w_index := calculateIndex (cb_size b) (sequence + cb_size b - n),
                  w_offset := sequence - n, w_spanSize := n,
                  w_instanceCount := w_instanceCount w1 + 1\<rparr>,
               WSpan False)
          | (c, None) \<Rightarrow> None)"

text \<open>\<open>span[i] = v\<close> for an index inside the span.\<close>

definition ws_write :: "nat \<Rightarrow> 'a \<Rightarrow> writer \<Rightarrow> 'a cbuffer \<Rightarrow> 'a cbuffer" where
  "ws_write i v w b = cb_store (unat (w_index w) + i) v b"

definition ws_copy :: "writer \<Rightarrow> writer" where
  "ws_copy w = w\<lparr>w_instanceCount := w_instanceCount w + 1\<rparr>"

text \<open>\<open>WriterSpan::publish\<close>: requests accumulate over the copies and are clamped to the claim.\<close>

definition ws_publish :: "usize \<Rightarrow> wspan \<Rightarrow> writer \<Rightarrow> writer" where
  "ws_publish n s w =
     (if ws_refused s then w
      else let alreadyRequested = (if w_requested w = kNotPublished then 0 else w_requested w);
               unpublished = w_spanSize w - alreadyRequested;
               n1 = (if n > unpublished then unpublished else n)
           in w\<lparr>w_requested := alreadyRequested + n1\<rparr>)"

text \<open>The copy between the halves of a buffer that is not double-mapped.\<close>

definition mirror_copy :: "nat \<Rightarrow> nat \<Rightarrow> 'a cbuffer \<Rightarrow> 'a cbuffer" where
  "mirror_copy index nRequested b =
     (if cb_isMmap b then b
      else let sz = unat (cb_size b);
               nFirstHalf = min (sz - index) nRequested;
               nSecondHalf = nRequested - nFirstHalf;
               d1 = copy_n index nFirstHalf (index + sz) (cb_data b);
               d2 = (if nSecondHalf > 0 then copy_n sz nSecondHalf 0 d1 else d1)
           in b\<lparr>cb_data := d2\<rparr>)"

text \<open>
  \<open>~WriterSpan\<close>: the last span of a reservation publishes it (\<open>None\<close>: the process is aborted
  because a \<open>Terminate\<close> span was released without \<open>publish\<close>).
\<close>

definition ws_release :: "policy \<Rightarrow> wspan \<Rightarrow> 'a cbuffer \<Rightarrow> writer \<Rightarrow> ('a cbuffer \<times> writer) option" where
  "ws_release pol s b w =
     (let w1 = w\<lparr>w_instanceCount := w_instanceCount w - 1\<rparr> in
      if ws_refused s \<or> w_instanceCount w1 \<noteq> 0 then Some (b, w1)
      else if \<not> w_isPublishRequested w1 \<and> pol = Terminate then None
      else
        let w2 = (if w_isPublishRequested w1 then w1
                  else ws_publish (if pol = ProcessAll then w_spanSize w1 else 0) s w1);
            b1 = mirror_copy (unat (w_index w2)) (unat (w_requested w2)) b;
            b2 = b1\<lparr>cb_claim := sp_publish (w_offset w2) (w_requested w2) (cb_claim b1)\<rparr>
        in Some (b2, w2\<lparr>w_offset := w_offset w2 + w_requested w2, w_requested := 0, w_spanSize := 0\<rparr>))"

subsection \<open>Reader\<close>

record reader =
  r_readIndex :: addr
  r_readIndexCached :: usize
  r_nSamplesFirstGet :: usize
  r_instanceCount :: nat
  r_requested :: usize
  r_nSamplesConsumed :: usize

definition new_reader :: "addr \<Rightarrow> 'a cbuffer \<Rightarrow> 'a cbuffer \<times> reader" where
  "new_reader a b =
     (let c = cb_claim b;
          (seqs, st) = addSequences (sp_readSequences c) (sp_publishCursor c) (sp_publishCursor c) [a] (cb_seqs b)
      in (b\<lparr>cb_claim := sp_notifyReaderSetChanged (c\<lparr>sp_readSequences := seqs\<rparr>), cb_seqs := st,
            cb_reader_count := cb_reader_count b + 1\<rparr>,
          \<lparr>r_readIndex = a, r_readIndexCached = st a, r_nSamplesFirstGet = usize_max, r_instanceCount = 0,
           r_requested = usize_max, r_nSamplesConsumed = 0\<rparr>))"

definition drop_reader :: "reader \<Rightarrow> 'a cbuffer \<Rightarrow> 'a cbuffer" where
  "drop_reader r b =
     b\<lparr>cb_claim := sp_notifyReaderSetChanged
         ((cb_claim b)\<lparr>sp_readSequences := fst (removeSequence (sp_readSequences (cb_claim b)) (r_readIndex r))\<rparr>),
       cb_reader_count := cb_reader_count b - 1\<rparr>"

definition r_available :: "'a cbuffer \<Rightarrow> reader \<Rightarrow> usize" where
  "r_available b r = sp_publishCursor (cb_claim b) - r_readIndexCached r"

definition r_isConsumeRequested :: "reader \<Rightarrow> bool" where
  "r_isConsumeRequested r \<longleftrightarrow> r_requested r \<noteq> usize_max"

text \<open>A read span: the address of its first sample and its length.\<close>

datatype rspan = RSpan (rs_index: usize) (rs_size: usize)

text \<open>\<open>Reader::get\<close>; \<open>usize_max\<close> is the default argument and asks for everything available.\<close>

definition r_get :: "usize \<Rightarrow> 'a cbuffer \<Rightarrow> reader \<Rightarrow> reader \<times> rspan" where
  "r_get nRequested b r =
     (let n = (if nRequested = usize_max then r_available b r else nRequested);
          (r1, n1) = (if r_nSamplesFirstGet r = usize_max
                      then (r\<lparr>r_nSamplesFirstGet := n, r_nSamplesConsumed := 0\<rparr>, n)
                      else (r, min n (r_nSamplesFirstGet r)))
      in (r1\<lparr>r_instanceCount := r_instanceCount r1 + 1\<rparr>,
          RSpan (calculateIndex (cb_size b) (r_readIndexCached r)) n1))"

definition rs_read :: "rspan \<Rightarrow> 'a cbuffer \<Rightarrow> 'a list" where
  "rs_read s b = map (\<lambda>i. cb_cell b (unat (rs_index s) + i)) [0..<unat (rs_size s)]"

text \<open>\<open>tryConsume\<close> with the strict check: a second request and an excessive one are refused.\<close>

definition rs_tryConsume :: "usize \<Rightarrow> reader \<Rightarrow> reader \<times> bool" where
  "rs_tryConsume n r =
     (if r_isConsumeRequested r then (r, False)
      else let handedOut = (if r_nSamplesFirstGet r = usize_max then 0 else r_nSamplesFirstGet r)
           in if n > handedOut then (r, False) else (r\<lparr>r_requested := n\<rparr>, True))"

definition performConsume :: "bool \<Rightarrow> usize \<Rightarrow> 'a cbuffer \<Rightarrow> reader \<Rightarrow> 'a cbuffer \<times> reader \<times> bool" where
  "performConsume strict n b r =
     (let r1 = r\<lparr>r_nSamplesFirstGet := usize_max, r_requested := usize_max\<rparr> in
      if strict \<and> n = 0 then (b, r1, True)
      else if strict \<and> n > r_available b r1 then (b, r1, False)
      else let nextReadIndex = r_readIndexCached r1 + n
           in (b\<lparr>cb_seqs := (cb_seqs b)(r_readIndex r1 := nextReadIndex)\<rparr>,
               r1\<lparr>r_readIndexCached := nextReadIndex, r_nSamplesConsumed := n\<rparr>, True))"

text \<open>\<open>~ReaderSpan\<close>; \<open>None\<close> aborts as above.\<close>

definition rs_release :: "policy \<Rightarrow> 'a cbuffer \<Rightarrow> reader \<Rightarrow> ('a cbuffer \<times> reader) option" where
  "rs_release pol b r =
     (let r1 = r\<lparr>r_instanceCount := r_instanceCount r - 1\<rparr> in
      if r_instanceCount r1 \<noteq> 0 then Some (b, r1)
      else if r_isConsumeRequested r1
      then let (b', r', _) = performConsume False (r_requested r1) b r1 in Some (b', r')
      else case pol of
          Terminate \<Rightarrow> None
        | ProcessAll \<Rightarrow> let (b', r', _) = performConsume True (r_nSamplesFirstGet r1) b r1 in Some (b', r')
        | ProcessNone \<Rightarrow> let (b', r', _) = performConsume True 0 b r1 in Some (b', r'))"

subsection \<open>Sizes and indices\<close>

lemma align_with_page_size_whole:
  assumes "0 < page" "0 < elem"
  shows "min_elems \<le> align_with_page_size page elem min_elems True"
    "page dvd align_with_page_size page elem min_elems True * elem"
proof -
  define g where "g = gcd page elem"
  define step where "step = page div g"
  have g: "0 < g" "g dvd page" "g dvd elem" using assms by (auto simp: g_def gcd_pos_nat)
  then have step: "0 < step" using assms by (auto simp: step_def dvd_div_eq_0_iff)
  have res: "align_with_page_size page elem min_elems True = (min_elems + step - 1) div step * step"
    using assms by (simp add: align_with_page_size_def Let_def g_def [symmetric] step_def [symmetric])
  have "min_elems + step - 1 = (min_elems + step - 1) div step * step + (min_elems + step - 1) mod step" by simp
  moreover have "(min_elems + step - 1) mod step < step" using step by simp
  ultimately show "min_elems \<le> align_with_page_size page elem min_elems True" using step by (simp only: res)
  have "step * elem = page * (elem div g)" using g unfolding step_def by (metis dvd_div_mult dvd_mult_div_cancel
      mult.commute mult.left_commute)
  then have "page dvd step * elem" by simp
  then show "page dvd align_with_page_size page elem min_elems True * elem" by (simp add: res mult.assoc)
qed

lemma unat_calculateIndex: "unat (calculateIndex sz seq) = unat seq mod unat sz"
proof (cases "has_single_bit (unat sz)")
  case True
  then have pos: "0 < unat sz" unfolding has_single_bit_def by (metis bit_ceil_pos)
  then have "(1 :: usize) \<le> sz" by (simp add: word_le_nat_alt Suc_leI)
  then have "unat (sz - 1) = unat sz - 1" by (simp add: unat_sub_le)
  then show ?thesis using True and_mask_single_bit [OF True, of "unat seq"]
    by (simp add: calculateIndex_def unsigned_and_eq)
next
  case False
  then show ?thesis by (simp add: calculateIndex_def unat_mod)
qed

subsection \<open>The published stream\<close>

text \<open>
  \<open>cb_holds b ps lo\<close>: both halves of the buffer hold the values of the published stream \<open>ps\<close>
  from position \<open>lo\<close>; \<open>cb_inv b ps\<close>: no reservation is open, the cursor counts the stream and
  everything a registered reader may still read is stored.
\<close>

definition cb_holds :: "'a cbuffer \<Rightarrow> 'a list \<Rightarrow> nat \<Rightarrow> bool" where
  "cb_holds b ps lo \<longleftrightarrow> (\<forall>k i. lo \<le> k \<longrightarrow> k < length ps \<longrightarrow> i < 2 * unat (cb_size b) \<longrightarrow>
     i mod unat (cb_size b) = k mod unat (cb_size b) \<longrightarrow> cb_cell b i = ps ! k)"

definition cb_shape :: "'a cbuffer \<Rightarrow> bool" where
  "cb_shape b \<longleftrightarrow> 0 < unat (cb_size b) \<and> 2 * unat (cb_size b) < 2 ^ 64 \<and>
     length (cb_data b) = buffer_size (unat (cb_size b)) (cb_isMmap b) \<and> sp_size (cb_claim b) = cb_size b"

abbreviation cb_gate :: "'a cbuffer \<Rightarrow> usize" where
  "cb_gate b \<equiv> gate (cb_seqs b) (sp_readSequences (cb_claim b)) (sp_reserveCursor (cb_claim b))"

lemma cb_holds_claim [simp]: "cb_holds (b\<lparr>cb_claim := c\<rparr>) ps lo = cb_holds b ps lo"
  by (simp add: cb_holds_def cb_cell_def)

lemma cb_shape_claim: "sp_size c = sp_size (cb_claim b) \<Longrightarrow> cb_shape (b\<lparr>cb_claim := c\<rparr>) = cb_shape b"
  by (simp add: cb_shape_def)

lemma sp_publish_simps [simp]:
  "sp_publishCursor (sp_publish offset n c) = offset + n" "sp_reserveCursor (sp_publish offset n c) = offset + n"
  "sp_size (sp_publish offset n c) = sp_size c" "sp_readSequences (sp_publish offset n c) = sp_readSequences c"
  "snapshot_ok (sp_publish offset n c) = snapshot_ok c"
  by (simp_all add: sp_publish_def snapshot_ok_def Let_def)

definition cb_inv :: "'a cbuffer \<Rightarrow> 'a list \<Rightarrow> bool" where
  "cb_inv b ps \<longleftrightarrow> cb_shape b \<and> snapshot_ok (cb_claim b) \<and>
     unat (sp_publishCursor (cb_claim b)) = length ps \<and>
     sp_reserveCursor (cb_claim b) = sp_publishCursor (cb_claim b) \<and>
     gated (cb_gate b) (sp_publishCursor (cb_claim b)) (cb_size b) \<and>
     cb_holds b ps (unat (cb_gate b))"

lemma cb_invD:
  assumes "cb_inv b ps"
  shows "cb_shape b" "snapshot_ok (cb_claim b)" "unat (sp_publishCursor (cb_claim b)) = length ps"
    "sp_reserveCursor (cb_claim b) = sp_publishCursor (cb_claim b)"
    "gated (cb_gate b) (sp_publishCursor (cb_claim b)) (cb_size b)"
    "cb_holds b ps (unat (cb_gate b))"
    "unat (cb_gate b) \<le> length ps" "length ps \<le> unat (cb_gate b) + unat (cb_size b)"
  using assms by (auto simp: cb_inv_def gated_def word_le_nat_alt)

lemma cb_shapeD:
  assumes "cb_shape b"
  shows "0 < unat (cb_size b)" "2 * unat (cb_size b) < 2 ^ 64"
    "length (cb_data b) = buffer_size (unat (cb_size b)) (cb_isMmap b)" "sp_size (cb_claim b) = cb_size b"
  using assms by (auto simp: cb_shape_def)

lemma cb_new_inv:
  assumes "0 < n" "2 * n < 2 ^ 64"
  shows "cb_inv (cb_new n mmap d) []"
proof -
  have n: "unat (of_nat n :: usize) = n" using assms by (simp add: unat_of_nat)
  then show ?thesis using assms
    by (simp add: cb_inv_def cb_shape_def cb_holds_def cb_new_def sp_new_def snapshot_ok_def gated_def gate_def
        kInitialCursorValue_def)
qed

text \<open>A store into the span: it is seen at both halves of a double-mapped buffer only.\<close>

lemma cb_cell_store:
  assumes "cb_shape b" "j < 2 * unat (cb_size b)" "i < 2 * unat (cb_size b)"
  shows "cb_cell (cb_store j v b) i =
    (if i = j \<or> cb_isMmap b \<and> i mod unat (cb_size b) = j mod unat (cb_size b) then v else cb_cell b i)"
  using assms cb_shapeD [OF assms(1)]
  by (auto simp: cb_cell_def cb_store_def buffer_size_def nth_list_update)

lemma cb_store_simps [simp]:
  "cb_isMmap (cb_store j v b) = cb_isMmap b" "cb_size (cb_store j v b) = cb_size b"
  "cb_claim (cb_store j v b) = cb_claim b" "cb_seqs (cb_store j v b) = cb_seqs b"
  "length (cb_data (cb_store j v b)) = length (cb_data b)"
  "cb_reader_count (cb_store j v b) = cb_reader_count b" "cb_writer_count (cb_store j v b) = cb_writer_count b"
  by (simp_all add: cb_store_def)

lemma cb_shape_store [simp]: "cb_shape (cb_store j v b) = cb_shape b"
  by (simp add: cb_shape_def)

text \<open>Filling a span from its start.\<close>

fun ws_fill :: "nat \<Rightarrow> 'a list \<Rightarrow> writer \<Rightarrow> 'a cbuffer \<Rightarrow> 'a cbuffer" where
  "ws_fill i [] w b = b"
| "ws_fill i (x # xs) w b = ws_fill (Suc i) xs w (ws_write i x w b)"

lemma ws_fill_simps [simp]:
  "cb_isMmap (ws_fill i xs w b) = cb_isMmap b" "cb_size (ws_fill i xs w b) = cb_size b"
  "cb_claim (ws_fill i xs w b) = cb_claim b" "cb_seqs (ws_fill i xs w b) = cb_seqs b"
  "length (cb_data (ws_fill i xs w b)) = length (cb_data b)"
  by (induction xs arbitrary: i b) (simp_all add: ws_write_def)

lemma cb_shape_fill [simp]: "cb_shape (ws_fill i xs w b) = cb_shape b"
  by (simp add: cb_shape_def)

lemma cb_cell_fill_miss:
  assumes "cb_shape b" "unat (w_index w) < unat (cb_size b)" "i + length xs \<le> unat (cb_size b)"
    "m < 2 * unat (cb_size b)"
    "\<And>j. j < length xs \<Longrightarrow> m mod unat (cb_size b) \<noteq> (unat (w_index w) + (i + j)) mod unat (cb_size b)"
  shows "cb_cell (ws_fill i xs w b) m = cb_cell b m"
  using assms
proof (induction xs arbitrary: i b)
  case (Cons x xs)
  have "m mod unat (cb_size b) \<noteq> (unat (w_index w) + (Suc i + j)) mod unat (cb_size b)" if "j < length xs" for j
    using Cons.prems(5) [of "Suc j"] that by simp
  then have "cb_cell (ws_fill (Suc i) xs w (ws_write i x w b)) m = cb_cell (ws_write i x w b) m"
    using Cons.prems by (intro Cons.IH) (auto simp: ws_write_def)
  also have "\<dots> = cb_cell b m"
    using Cons.prems(1-4) Cons.prems(5) [of 0] by (auto simp: ws_write_def cb_cell_store)
  finally show ?case by simp
qed simp

lemma cb_cell_fill_hit:
  assumes "cb_shape b" "unat (w_index w) < unat (cb_size b)" "i + length xs \<le> unat (cb_size b)"
    "m < 2 * unat (cb_size b)" "j < length xs"
    "m = unat (w_index w) + (i + j) \<or>
     cb_isMmap b \<and> m mod unat (cb_size b) = (unat (w_index w) + (i + j)) mod unat (cb_size b)"
  shows "cb_cell (ws_fill i xs w b) m = xs ! j"
  using assms
proof (induction xs arbitrary: i b j)
  case (Cons x xs)
  let ?b = "ws_write i x w b"
  show ?case
  proof (cases j)
    case 0
    have "m mod unat (cb_size b) \<noteq> (unat (w_index w) + (Suc i + k)) mod unat (cb_size b)" if "k < length xs" for k
    proof
      assume "m mod unat (cb_size b) = (unat (w_index w) + (Suc i + k)) mod unat (cb_size b)"
      then have "(unat (w_index w) + i) mod unat (cb_size b) = (unat (w_index w) + (Suc i + k)) mod unat (cb_size b)"
        using Cons.prems(6) 0 by auto
      from ring_inj [OF _ _ this] show False using Cons.prems(3) that by simp
    qed
    then have "cb_cell (ws_fill (Suc i) xs w ?b) m = cb_cell ?b m"
      using Cons.prems by (intro cb_cell_fill_miss) (auto simp: ws_write_def)
    also have "\<dots> = x" using Cons.prems 0 by (auto simp: ws_write_def cb_cell_store)
    finally show ?thesis using 0 by simp
  next
    case (Suc k)
    have "cb_cell (ws_fill (Suc i) xs w ?b) m = xs ! k"
      using Cons.prems Suc by (intro Cons.IH) (auto simp: ws_write_def)
    then show ?thesis using Suc by simp
  qed
qed simp

text \<open>The copy between the halves makes both agree over the published part of the span.\<close>

lemma mirror_copy_simps [simp]:
  "cb_isMmap (mirror_copy i n b) = cb_isMmap b" "cb_size (mirror_copy i n b) = cb_size b"
  "cb_claim (mirror_copy i n b) = cb_claim b" "cb_seqs (mirror_copy i n b) = cb_seqs b"
  by (simp_all add: mirror_copy_def Let_def)

lemma cb_cell_mirror:
  assumes "cb_shape b" "\<not> cb_isMmap b" "p < unat (cb_size b)" "n \<le> unat (cb_size b)" "m < 2 * unat (cb_size b)"
  shows "cb_cell (mirror_copy p n b) m =
    (if unat (cb_size b) + p \<le> m \<and> m < unat (cb_size b) + p + n then cb_cell b (m - unat (cb_size b))
     else if m + unat (cb_size b) < p + n then cb_cell b (m + unat (cb_size b)) else cb_cell b m)"
    and "cb_shape (mirror_copy p n b)"
proof -
  define sz where "sz = unat (cb_size b)"
  have len: "length (cb_data b) = 2 * sz" using cb_shapeD [OF assms(1)] assms(2) by (simp add: sz_def buffer_size_def)
  define k where "k = min (sz - p) n"
  have k: "p + k \<le> sz" "k \<le> n" "n - k \<le> p" "k = n \<or> p + k = sz"
    using assms(3,4) by (auto simp: k_def sz_def)
  define d1 where "d1 = copy_n p k (p + sz) (cb_data b)"
  have d1: "length d1 = 2 * sz" using k len by (simp add: d1_def length_copy_n)
  have data: "cb_data (mirror_copy p n b) = (if n - k > 0 then copy_n sz (n - k) 0 d1 else d1)"
    using assms(2) by (simp add: mirror_copy_def Let_def sz_def [symmetric] k_def [symmetric] d1_def)
  have len2: "length (cb_data (mirror_copy p n b)) = 2 * sz"
    using d1 k assms(3) by (simp add: data length_copy_n sz_def [symmetric])
  then show "cb_shape (mirror_copy p n b)" using assms(1) len by (simp add: cb_shape_def)
  have n1: "i < 2 * sz \<Longrightarrow> d1 ! i = (if p + sz \<le> i \<and> i < p + sz + k then cb_data b ! (i - sz) else cb_data b ! i)" for i
    using k len by (auto simp: d1_def nth_copy_n)
  have m: "m < 2 * sz" using assms(5) by (simp add: sz_def)
  have "cb_data (mirror_copy p n b) ! m =
    (if sz + p \<le> m \<and> m < sz + p + n then cb_data b ! (m - sz)
     else if m + sz < p + n then cb_data b ! (m + sz) else cb_data b ! m)"
  proof (cases "k = n")
    case True
    then show ?thesis using k m by (simp add: data n1 add.commute)
  next
    case False
    then have ps: "p + k = sz" "0 < n - k" using k by auto
    have "cb_data (mirror_copy p n b) ! m = (if m < n - k then d1 ! (sz + m) else d1 ! m)"
      using ps k m d1 assms(3) by (simp add: data nth_copy_n sz_def [symmetric])
    then show ?thesis using ps k m assms(3) by (auto simp: n1 add.commute sz_def [symmetric])
  qed
  then show "cb_cell (mirror_copy p n b) m =
    (if unat (cb_size b) + p \<le> m \<and> m < unat (cb_size b) + p + n then cb_cell b (m - unat (cb_size b))
     else if m + unat (cb_size b) < p + n then cb_cell b (m + unat (cb_size b)) else cb_cell b m)"
    using assms(2) by (simp add: cb_cell_def sz_def)
qed

lemma cb_cell_mirrored:
  assumes "cb_shape b" "\<not> cb_isMmap b" "p < unat (cb_size b)" "n \<le> unat (cb_size b)" "m < 2 * unat (cb_size b)"
    "j < n" "m mod unat (cb_size b) = (p + j) mod unat (cb_size b)"
  shows "cb_cell (mirror_copy p n b) m = cb_cell b (p + j)"
proof -
  define sz where "sz = unat (cb_size b)"
  have r: "m = p + j \<or> m = p + j + sz \<or> m + sz = p + j"
  proof -
    have "m mod sz = m \<or> m mod sz = m - sz \<and> sz \<le> m" using assms(5) by (auto simp: sz_def mod_if)
    moreover have "(p + j) mod sz = p + j \<or> (p + j) mod sz = p + j - sz \<and> sz \<le> p + j"
      using assms(3,4,6) by (auto simp: sz_def mod_if)
    ultimately show ?thesis using assms(7) by (auto simp: sz_def)
  qed
  then show ?thesis
    using assms(3,4,5,6) cb_cell_mirror(1) [OF assms(1-5)] by (auto simp: sz_def)
qed

lemma cb_cell_unmirrored:
  assumes "cb_shape b" "p < unat (cb_size b)" "n \<le> unat (cb_size b)" "m < 2 * unat (cb_size b)"
    "\<And>j. j < n \<Longrightarrow> m mod unat (cb_size b) \<noteq> (p + j) mod unat (cb_size b)"
  shows "cb_cell (mirror_copy p n b) m = cb_cell b m"
proof (cases "cb_isMmap b")
  case True
  then show ?thesis by (simp add: mirror_copy_def)
next
  case False
  define sz where "sz = unat (cb_size b)"
  have "\<not> (sz + p \<le> m \<and> m < sz + p + n)"
  proof
    assume a: "sz + p \<le> m \<and> m < sz + p + n"
    then have "(p + (m - sz - p)) mod sz = m mod sz" using assms(2) by (simp add: le_mod_geq)
    moreover have "m - sz - p < n" using a by linarith
    ultimately show False using assms(5) [of "m - sz - p"] by (simp add: sz_def)
  qed
  moreover have "\<not> m + sz < p + n"
  proof
    assume a: "m + sz < p + n"
    have "p + (m + sz - p) = m + sz" using assms(2) by (simp add: sz_def)
    then have "(p + (m + sz - p)) mod sz = m mod sz" by simp
    moreover have "m + sz - p < n" using a assms(2,3) by (simp add: sz_def)
    ultimately show False using assms(5) [of "m + sz - p"] by (simp add: sz_def)
  qed
  ultimately show ?thesis using cb_cell_mirror(1) [OF assms(1) False assms(2-4)] unfolding sz_def by (simp only: if_False)
qed

text \<open>
  The stored stream after a write: the first \<open>m\<close> of the values written at the end of the stream are
  stored in both halves, and what readers have not read is untouched.
\<close>

lemma cb_holds_write:
  assumes "cb_shape b" "cb_holds b ps lo" "unat (w_index w) = length ps mod unat (cb_size b)"
    "length ps + length xs \<le> lo + unat (cb_size b)" "length xs \<le> unat (cb_size b)" "m \<le> length xs"
  shows "cb_holds (mirror_copy (unat (w_index w)) m (ws_fill 0 xs w b)) (ps @ take m xs) lo"
  unfolding cb_holds_def
proof (intro allI impI)
  fix k i
  define sz where "sz = unat (cb_size b)"
  define p where "p = unat (w_index w)"
  define b1 where "b1 = ws_fill 0 xs w b"
  assume k: "lo \<le> k" "k < length (ps @ take m xs)"
    and i: "i < 2 * unat (cb_size (mirror_copy (unat (w_index w)) m (ws_fill 0 xs w b)))"
      "i mod unat (cb_size (mirror_copy (unat (w_index w)) m (ws_fill 0 xs w b))) =
       k mod unat (cb_size (mirror_copy (unat (w_index w)) m (ws_fill 0 xs w b)))"
  have b1: "cb_shape b1" "unat (cb_size b1) = sz" "cb_isMmap b1 = cb_isMmap b"
    using assms(1) by (simp_all add: b1_def sz_def)
  have i': "i < 2 * sz" "i mod sz = k mod sz" using i by (simp_all add: sz_def)
  have p: "p < sz" "p = length ps mod sz" using assms(3) cb_shapeD(1) [OF assms(1)] by (simp_all add: p_def sz_def)
  have pj: "(p + j) mod sz = (length ps + j) mod sz" for j by (simp add: p(2) mod_add_left_eq)
  have "cb_cell (mirror_copy p m b1) i = (ps @ take m xs) ! k"
  proof (cases "k < length ps")
    case True
    have ne: "i mod sz \<noteq> (p + j) mod sz" if "j < length xs" for j
    proof
      assume "i mod sz = (p + j) mod sz"
      then have e: "(k + 0) mod sz = (k + (length ps + j - k)) mod sz" using i' pj True by simp
      have "length ps + j - k < sz" using that True k assms(4) by (simp add: sz_def)
      from ring_inj [OF _ this e] show False using True p(1) by simp
    qed
    have "cb_cell (mirror_copy p m b1) i = cb_cell b1 i"
      using b1 p i' assms(5,6) ne by (intro cb_cell_unmirrored) (auto simp: sz_def)
    also have "\<dots> = cb_cell b i"
      unfolding b1_def using assms(1,5) p i' ne by (intro cb_cell_fill_miss) (auto simp: p_def sz_def)
    also have "\<dots> = ps ! k" using assms(2) True k i' by (simp add: cb_holds_def sz_def)
    finally show ?thesis using True by (simp add: nth_append)
  next
    case False
    define j where "j = k - length ps"
    have j: "j < m" "k = length ps + j" using False k by (auto simp: j_def)
    have r: "i mod sz = (p + j) mod sz" using i' pj j by simp
    have "cb_cell (mirror_copy p m b1) i = xs ! j"
    proof (cases "cb_isMmap b")
      case True
      then have "mirror_copy p m b1 = b1" by (simp add: mirror_copy_def b1)
      moreover have "cb_cell b1 i = xs ! j" unfolding b1_def
        using assms(1,5,6) p i' r j True by (intro cb_cell_fill_hit) (auto simp: p_def sz_def)
      ultimately show ?thesis by simp
    next
      case nm: False
      then have "cb_cell (mirror_copy p m b1) i = cb_cell b1 (p + j)"
        using b1 p i' r j assms(5,6) by (intro cb_cell_mirrored) (auto simp: sz_def)
      also have "\<dots> = xs ! j" unfolding b1_def
        using assms(1,5,6) p(1) j by (intro cb_cell_fill_hit) (auto simp: p_def sz_def)
      finally show ?thesis .
    qed
    then show ?thesis using j by (simp add: nth_append)
  qed
  then show "cb_cell (mirror_copy (unat (w_index w)) m (ws_fill 0 xs w b)) i = (ps @ take m xs) ! k"
    by (simp add: p_def b1_def)
qed

lemma cb_shape_mirror [simp]:
  assumes "cb_shape b" "p < unat (cb_size b)" "n \<le> unat (cb_size b)"
  shows "cb_shape (mirror_copy p n b)"
proof (cases "cb_isMmap b")
  case True
  then show ?thesis using assms by (simp add: mirror_copy_def)
next
  case False
  then show ?thesis using assms cb_shapeD(1) [OF assms(1)] cb_cell_mirror(2) [OF assms(1) False assms(2,3), of 0] by simp
qed

text \<open>
  A write burst: reserve room for \<open>xs\<close>, fill the span if it was granted, perhaps ask for \<open>m\<close> samples
  to be published, and release the span under a release policy.
\<close>

definition write_burst ::
  "policy \<Rightarrow> 'a list \<Rightarrow> usize option \<Rightarrow> 'a cbuffer \<Rightarrow> writer \<Rightarrow> ('a cbuffer \<times> writer) option" where
  "write_burst pol xs req b w =
     (let (b1, w1, s) = tryReserve (of_nat (length xs)) b w;
          b2 = (if unat (ws_size s w1) = length xs then ws_fill 0 xs w1 b1 else b1)
      in ws_release pol s b2 (case req of None \<Rightarrow> w1 | Some m \<Rightarrow> ws_publish m s w1))"

text \<open>How many of \<open>n\<close> reserved samples a release publishes.\<close>

definition burst_count :: "policy \<Rightarrow> usize option \<Rightarrow> nat \<Rightarrow> nat" where
  "burst_count pol req n =
     (case req of Some m \<Rightarrow> min (unat m) n | None \<Rightarrow> if pol = ProcessAll then n else 0)"

definition writer_ok :: "'a cbuffer \<Rightarrow> writer \<Rightarrow> bool" where
  "writer_ok b w \<longleftrightarrow> w_instanceCount w = 0 \<and> w_spanSize w = 0 \<and> w_offset w = sp_publishCursor (cb_claim b)"

text \<open>A granted reservation, and a refused one.\<close>

lemma tryReserve_granted:
  assumes "cb_inv b ps" "writer_ok b w" "0 < n" "n < 2 ^ 64" "length ps + n + unat (cb_size b) < 2 ^ 64"
    "length ps + n \<le> unat (cb_gate b) + unat (cb_size b)"
  shows "\<exists>c i. tryReserve (of_nat n) b w = (b\<lparr>cb_claim := c\<rparr>,
      w\<lparr>w_requested := kNotPublished, w_index := i, w_offset := w_offset w, w_spanSize := of_nat n,
        w_instanceCount := Suc 0\<rparr>, WSpan False) \<and>
    snapshot_ok c \<and> sp_size c = sp_size (cb_claim b) \<and> sp_readSequences c = sp_readSequences (cb_claim b) \<and>
    sp_publishCursor c = sp_publishCursor (cb_claim b) \<and> unat i = length ps mod unat (cb_size b)"
proof -
  define c where "c = (refreshReaderSnapshot (cb_claim b))\<lparr>sp_reserveCursor := sp_reserveCursor (cb_claim b) + of_nat n\<rparr>"
  note D = cb_invD [OF assms(1)] and S = cb_shapeD [OF cb_invD(1) [OF assms(1)]]
  have n1: "unat (of_nat n :: usize) = n" using assms(4) by (simp add: unat_of_nat)
  then have n: "unat (of_nat n :: usize) = n" "(of_nat n :: usize) \<noteq> 0" using assms(3) by (auto intro: notI)
  have W: "w_offset w = sp_publishCursor (cb_claim b)" "w_instanceCount w = 0"
    using assms(2) by (auto simp: writer_ok_def)
  let ?r = "sp_publishCursor (cb_claim b)"
  have tn: "sp_tryNext (of_nat n) (cb_seqs b) (cb_claim b) = (c, Some (?r + of_nat n))"
    using sp_tryNext_eq [of "cb_claim b" "cb_seqs b" "of_nat n"] D S n assms(6) by (simp add: c_def)
  have u: "unat (?r + of_nat n) = length ps + n" using unat_add_nowrap [of ?r "of_nat n"] D(3) n assms(5) by simp
  have "unat (?r + of_nat n + cb_size b) = length ps + n + unat (cb_size b)"
    using unat_add_nowrap [of "?r + of_nat n" "cb_size b"] u assms(5) by simp
  then have "unat (?r + of_nat n + cb_size b - of_nat n) = length ps + unat (cb_size b)"
    using n by (subst unat_sub_le) (simp_all add: word_le_nat_alt)
  then have i: "unat (calculateIndex (cb_size b) (?r + of_nat n + cb_size b - of_nat n)) = length ps mod unat (cb_size b)"
    by (simp add: unat_calculateIndex)
  have c: "snapshot_ok c" "sp_size c = sp_size (cb_claim b)" "sp_readSequences c = sp_readSequences (cb_claim b)"
    "sp_publishCursor c = sp_publishCursor (cb_claim b)"
    using refresh_snapshot_ok [OF D(2)] refresh_ok [OF D(2)] by (simp_all add: c_def snapshot_ok_def)
  have "tryReserve (of_nat n) b w = (b\<lparr>cb_claim := c\<rparr>,
      w\<lparr>w_requested := kNotPublished, w_index := calculateIndex (cb_size b) (?r + of_nat n + cb_size b - of_nat n),
        w_offset := w_offset w, w_spanSize := of_nat n, w_instanceCount := Suc 0\<rparr>, WSpan False)"
    using n W by (simp add: tryReserve_def tn)
  with c i show ?thesis by blast
qed

lemma tryReserve_none:
  assumes "cb_inv b ps" "writer_ok b w" "n = 0 \<or> unat (cb_gate b) + unat (cb_size b) < length ps + n" "n < 2 ^ 64"
  shows "\<exists>c. tryReserve (of_nat n) b w =
      (b\<lparr>cb_claim := c\<rparr>, w\<lparr>w_requested := kNotPublished, w_instanceCount := Suc 0\<rparr>, WSpan False) \<and>
    snapshot_ok c \<and> sp_size c = sp_size (cb_claim b) \<and> sp_readSequences c = sp_readSequences (cb_claim b) \<and>
    sp_publishCursor c = sp_publishCursor (cb_claim b) \<and> sp_reserveCursor c = sp_reserveCursor (cb_claim b)"
proof (cases "n = 0")
  case True
  have "b\<lparr>cb_claim := cb_claim b\<rparr> = b" by simp
  then show ?thesis using True cb_invD(2) [OF assms(1)] assms(2)
    by (intro exI [of _ "cb_claim b"]) (simp add: tryReserve_def writer_ok_def)
next
  case False
  note D = cb_invD [OF assms(1)] and S = cb_shapeD [OF cb_invD(1) [OF assms(1)]]
  have n1: "unat (of_nat n :: usize) = n" using assms(4) by (simp add: unat_of_nat)
  then have n: "unat (of_nat n :: usize) = n" "(of_nat n :: usize) \<noteq> 0" using False by (auto intro: notI)
  have "sp_tryNext (of_nat n) (cb_seqs b) (cb_claim b) = (refreshReaderSnapshot (cb_claim b), None)"
    using sp_tryNext_eq [of "cb_claim b" "cb_seqs b" "of_nat n"] D S n False assms(3) by simp
  then show ?thesis using n assms(2) refresh_snapshot_ok [OF D(2)] refresh_ok [OF D(2)]
    by (intro exI [of _ "refreshReaderSnapshot (cb_claim b)"]) (simp add: tryReserve_def writer_ok_def)
qed

text \<open>The release of a span of \<open>n\<close> samples of which \<open>m\<close> are requested or taken by the policy.\<close>

lemma ws_release_eq:
  assumes "w_instanceCount w = Suc 0" "unat (w_spanSize w) = n" "w_requested w = kNotPublished"
    "\<not> (pol = Terminate \<and> req = None)" "n < 2 ^ 64 - 1" "q = burst_count pol req n"
  shows "ws_release pol (WSpan False) b (case req of None \<Rightarrow> w | Some m \<Rightarrow> ws_publish m (WSpan False) w) =
    Some ((mirror_copy (unat (w_index w)) q b)\<lparr>cb_claim := sp_publish (w_offset w) (of_nat q) (cb_claim b)\<rparr>,
          w\<lparr>w_requested := 0, w_offset := w_offset w + of_nat q, w_spanSize := 0, w_instanceCount := 0\<rparr>)"
proof -
  note q_def = assms(6)
  have q: "q \<le> n" "q < 2 ^ 64 - 1" using assms(5) by (auto simp: q_def burst_count_def split: option.splits)
  then have uq: "unat (of_nat q :: usize) = q" by (simp add: unat_of_nat)
  have nk: "(of_nat q :: usize) \<noteq> kNotPublished"
  proof
    assume "(of_nat q :: usize) = kNotPublished"
    then have "unat (of_nat q :: usize) = unat kNotPublished" by simp
    then show False using uq q by (simp add: unsigned_minus_1_eq_mask mask_eq_exp_minus_1)
  qed
  have span: "w_spanSize w = of_nat n" using assms(2) by auto
  have "(if m > w_spanSize w then w_spanSize w else m) = of_nat (min (unat m) n)" for m
    using assms(2) span by (auto simp: min_def word_less_nat_alt)
  then have pub: "ws_publish m (WSpan False) w = w\<lparr>w_requested := of_nat (min (unat m) n)\<rparr>" for m
    using assms(3) by (simp add: ws_publish_def)
  have un: "min (unat (w_spanSize w)) n = n" "min (unat (0 :: usize)) n = 0" using assms(2) by simp_all
  show ?thesis
  proof (cases req)
    case (Some m)
    then have b: "q = min (unat m) n" by (simp add: q_def burst_count_def)
    then have "(case req of None \<Rightarrow> w | Some m \<Rightarrow> ws_publish m (WSpan False) w) = w\<lparr>w_requested := of_nat q\<rparr>"
      using Some by (simp add: pub b)
    then show ?thesis using assms(1,2) nk uq
      by (simp only:) (cases w, simp add: ws_release_def Let_def w_isPublishRequested_def)
  next
    case None
    show ?thesis
    proof (cases "pol = ProcessAll")
      case True
      with None have b: "q = n" by (simp add: q_def burst_count_def)
      have p2: "ws_publish (w_spanSize w) (WSpan False) (w\<lparr>w_instanceCount := 0\<rparr>) =
        w\<lparr>w_instanceCount := 0, w_requested := of_nat q\<rparr>"
        using assms(2,3) span by (simp add: ws_publish_def b)
      show ?thesis using None True assms(1,2,3) nk uq p2
        by (cases w) (simp add: ws_release_def Let_def w_isPublishRequested_def)
    next
      case False
      with None have b: "q = 0" by (simp add: q_def burst_count_def)
      have p2: "ws_publish 0 (WSpan False) (w\<lparr>w_instanceCount := 0\<rparr>) = w\<lparr>w_instanceCount := 0, w_requested := 0\<rparr>"
        using assms(3) by (simp add: ws_publish_def)
      show ?thesis using None False assms(1,3,4) p2
        by (cases w) (simp add: ws_release_def b Let_def w_isPublishRequested_def)
    qed
  qed
qed

lemma gate_cases: "gate s as r = (if as = [] then r else gate s as r')"
  by (simp add: gate_def)

text \<open>Publishing \<open>ys\<close> behind \<open>ps\<close> when both halves already hold the values.\<close>

lemma cb_inv_publish:
  assumes "cb_inv b ps" "cb_holds b' (ps @ ys) (unat (cb_gate b))" "cb_shape b'" "cb_size b' = cb_size b"
    "cb_seqs b' = cb_seqs b"
    "snapshot_ok c" "sp_size c = sp_size (cb_claim b)" "sp_readSequences c = sp_readSequences (cb_claim b)"
    "length ps + length ys < 2 ^ 64" "length ps + length ys \<le> unat (cb_gate b) + unat (cb_size b)"
  shows "cb_inv (b'\<lparr>cb_claim := sp_publish (sp_publishCursor (cb_claim b)) (of_nat (length ys)) c\<rparr>) (ps @ ys)"
proof -
  note D = cb_invD [OF assms(1)] and S = cb_shapeD [OF cb_invD(1) [OF assms(1)]]
  define p where "p = sp_publishCursor (cb_claim b) + of_nat (length ys)"
  let ?b = "b'\<lparr>cb_claim := sp_publish (sp_publishCursor (cb_claim b)) (of_nat (length ys)) c\<rparr>"
  have ys: "unat (of_nat (length ys) :: usize) = length ys" using assms(9) by (simp add: unat_of_nat)
  have p: "unat p = length ps + length ys"
    unfolding p_def using unat_add_nowrap [of "sp_publishCursor (cb_claim b)" "of_nat (length ys)"] ys D(3) assms(9) by simp
  have claim: "sp_publishCursor (cb_claim ?b) = p" "sp_reserveCursor (cb_claim ?b) = p"
    "sp_readSequences (cb_claim ?b) = sp_readSequences (cb_claim b)" "sp_size (cb_claim ?b) = cb_size b"
    "snapshot_ok (cb_claim ?b)"
    using assms(6-8) S by (simp_all add: p_def)
  have g: "cb_gate ?b = (if sp_readSequences (cb_claim b) = [] then p else cb_gate b)"
    using gate_cases [of "cb_seqs b" "sp_readSequences (cb_claim b)" p] assms(5) claim(2,3) by simp
  have "cb_holds ?b (ps @ ys) (unat (cb_gate ?b))"
  proof (cases "sp_readSequences (cb_claim b) = []")
    case True
    then show ?thesis using p g by (simp add: cb_holds_def)
  next
    case False
    then show ?thesis using assms(2) by (simp only: cb_holds_claim g if_False)
  qed
  moreover have "gated (cb_gate ?b) p (cb_size ?b)"
    using p assms(4,10) D(7) unfolding g by (simp add: gated_def word_le_nat_alt)
  moreover have "cb_shape ?b" using assms(3,4,7) S by (simp add: cb_shape_def)
  ultimately show ?thesis using claim p by (simp add: cb_inv_def)
qed

lemma write_burst_lemma:
  assumes "cb_inv b ps" "writer_ok b w" "\<not> (pol = Terminate \<and> req = None)"
    and "length ps + length xs + unat (cb_size b) < 2 ^ 64"
  shows "\<exists>b' w'. write_burst pol xs req b w = Some (b', w') \<and>
    cb_inv b' (if length ps + length xs \<le> unat (cb_gate b) + unat (cb_size b)
               then ps @ take (burst_count pol req (length xs)) xs else ps) \<and>
    writer_ok b' w' \<and> cb_size b' = cb_size b \<and> cb_seqs b' = cb_seqs b \<and>
    sp_readSequences (cb_claim b') = sp_readSequences (cb_claim b)"
proof -
  note D = cb_invD [OF assms(1)] and S = cb_shapeD [OF cb_invD(1) [OF assms(1)]]
  let ?n = "length xs" and ?p = "sp_publishCursor (cb_claim b)"
  have n: "?n < 2 ^ 64 - 1" "unat (of_nat ?n :: usize) = ?n" using assms(4) S by (simp_all add: unat_of_nat)
  have W: "w_offset w = ?p" "w_spanSize w = 0" using assms(2) by (auto simp: writer_ok_def)
  show ?thesis
  proof (cases "0 < ?n \<and> ?n + length ps \<le> unat (cb_gate b) + unat (cb_size b)")
    case True
    define m where "m = burst_count pol req ?n"
    have m: "m \<le> ?n" by (auto simp: m_def burst_count_def split: option.splits)
    obtain c i where t: "tryReserve (of_nat ?n) b w = (b\<lparr>cb_claim := c\<rparr>,
        w\<lparr>w_requested := kNotPublished, w_index := i, w_offset := ?p, w_spanSize := of_nat ?n,
          w_instanceCount := Suc 0\<rparr>, WSpan False)" (is "_ = (?b1, ?w1, _)")
      and c: "snapshot_ok c" "sp_size c = sp_size (cb_claim b)" "sp_readSequences c = sp_readSequences (cb_claim b)"
        "sp_publishCursor c = ?p" and i: "unat i = length ps mod unat (cb_size b)"
      using tryReserve_granted [OF assms(1,2), of ?n] True n assms(4) W by (auto simp: add.commute)
    let ?b2 = "mirror_copy (unat i) m (ws_fill 0 xs ?w1 ?b1)"
    have shape: "cb_shape ?b1" using D(1) c(2) by (simp add: cb_shape_def)
    have il: "unat i < unat (cb_size b)" using i S by simp
    have fit: "?n \<le> unat (cb_size b)" using True D(7) by simp
    have "write_burst pol xs req b w = Some (?b2\<lparr>cb_claim := sp_publish ?p (of_nat m) c\<rparr>,
        ?w1\<lparr>w_requested := 0, w_offset := ?p + of_nat m, w_spanSize := 0, w_instanceCount := 0\<rparr>)" (is "_ = Some (?b3, ?w3)")
      using n ws_release_eq [of ?w1 ?n pol req m "ws_fill 0 xs ?w1 ?b1"] assms(3)
      by (simp add: write_burst_def t ws_size_def m_def)
    moreover have "cb_inv ?b3 (ps @ take m xs)"
    proof -
      have "cb_holds ?b1 ps (unat (cb_gate b))" using D(6) by simp
      then have "cb_holds ?b2 (ps @ take m xs) (unat (cb_gate b))"
        using cb_holds_write [of ?b1 ps "unat (cb_gate b)" ?w1 xs m] shape True fit m i by (simp add: add.commute)
      then show ?thesis
        using cb_inv_publish [OF assms(1), of ?b2 "take m xs" c] shape il fit m c True assms(4)
        by (simp add: add.commute)
    qed
    moreover have "writer_ok ?b3 ?w3" by (simp add: writer_ok_def)
    ultimately show ?thesis using True c by (intro exI [of _ ?b3] exI [of _ ?w3]) (simp add: m_def add.commute)
  next
    case False
    obtain c where t: "tryReserve (of_nat ?n) b w =
        (b\<lparr>cb_claim := c\<rparr>, w\<lparr>w_requested := kNotPublished, w_instanceCount := Suc 0\<rparr>, WSpan False)" (is "_ = (?b1, ?w1, _)")
      and c: "snapshot_ok c" "sp_size c = sp_size (cb_claim b)" "sp_readSequences c = sp_readSequences (cb_claim b)"
        "sp_publishCursor c = ?p" "sp_reserveCursor c = sp_reserveCursor (cb_claim b)"
      using tryReserve_none [OF assms(1,2), of ?n] False n by auto
    have m0: "mirror_copy j 0 ?b1 = ?b1" for j by (simp add: mirror_copy_def copy_n_def write_at_def Let_def)
    let ?b3 = "b\<lparr>cb_claim := sp_publish ?p 0 c\<rparr>" and ?w3 = "?w1\<lparr>w_requested := 0, w_offset := ?p, w_spanSize := 0, w_instanceCount := 0\<rparr>"
    have "burst_count pol req 0 = 0" by (auto simp: burst_count_def split: option.splits)
    then have rel: "ws_release pol (WSpan False) ?b1 (case req of None \<Rightarrow> ?w1 | Some m \<Rightarrow> ws_publish m (WSpan False) ?w1) =
        Some (?b3, ?w3)"
      using ws_release_eq [of ?w1 0 pol req 0 ?b1] W assms(3) by (simp add: m0)
    have "(if unat (ws_size (WSpan False) ?w1) = ?n then ws_fill 0 xs ?w1 ?b1 else ?b1) = ?b1"
      using W by (simp add: ws_size_def)
    then have "write_burst pol xs req b w = Some (?b3, ?w3)" using rel by (simp only: write_burst_def t Let_def prod.case)
    moreover have "cb_inv ?b3 ps"
      using cb_inv_publish [OF assms(1), of ?b1 "[]" c] D c assms(4) by (simp add: cb_shape_claim)
    moreover have "writer_ok ?b3 ?w3" by (simp add: writer_ok_def)
    ultimately show ?thesis using False c
      by (intro exI [of _ ?b3] exI [of _ ?w3]) (auto simp: burst_count_def add.commute)
  qed
qed

text \<open>
  C14. A write burst on a single-producer buffer. When the samples fit beside what the slowest reader
  has not consumed, the burst appends exactly the published prefix of the values to the stream the
  readers see, in both halves of the buffer (mapped twice or copied), for every release policy; when they
  do not fit it publishes nothing. Unread samples survive, and the writer ends where the stream ends.
\<close>

theorem write_burst_publishes:
  assumes "cb_inv b ps" "writer_ok b w" "\<not> (pol = Terminate \<and> req = None)"
    and "length ps + length xs + unat (cb_size b) < 2 ^ 64"
  shows "\<exists>b' w'. write_burst pol xs req b w = Some (b', w') \<and>
    cb_inv b' (if length ps + length xs \<le> unat (cb_gate b) + unat (cb_size b)
               then ps @ take (burst_count pol req (length xs)) xs else ps) \<and>
    writer_ok b' w' \<and> cb_size b' = cb_size b \<and> cb_seqs b' = cb_seqs b \<and>
    sp_readSequences (cb_claim b') = sp_readSequences (cb_claim b)"
  using assms by (rule write_burst_lemma)


subsection \<open>Readers see the stream\<close>

definition reader_ok :: "'a cbuffer \<Rightarrow> reader \<Rightarrow> bool" where
  "reader_ok b r \<longleftrightarrow> r_readIndex r \<in> set (sp_readSequences (cb_claim b)) \<and>
     r_readIndexCached r = cb_seqs b (r_readIndex r) \<and> r_readIndexCached r \<le> sp_publishCursor (cb_claim b) \<and>
     r_nSamplesFirstGet r = usize_max \<and> r_instanceCount r = 0 \<and> r_requested r = usize_max"

lemma reader_okD:
  assumes "reader_ok b r"
  shows "r_readIndex r \<in> set (sp_readSequences (cb_claim b))"
    "r_readIndexCached r = cb_seqs b (r_readIndex r)" "r_readIndexCached r \<le> sp_publishCursor (cb_claim b)"
    "r_nSamplesFirstGet r = usize_max" "r_instanceCount r = 0" "r_requested r = usize_max"
  using assms by (auto simp: reader_ok_def)

lemma gate_le: "a \<in> set as \<Longrightarrow> gate s as r \<le> s a"
  by (auto simp: gate_def)

lemma gate_advance:
  assumes "s a \<le> v"
  shows "gate s as r \<le> gate (s(a := v)) as r"
proof (cases "as = []")
  case False
  have "gate s as r \<le> (s(a := v)) x" if "x \<in> set as" for x
    using gate_le [OF that, of s r] assms by (cases "x = a") auto
  with False show ?thesis unfolding gate_def [of "s(a := v)"] by (simp del: fun_upd_apply)
qed (simp add: gate_def)

lemma cb_holds_mono: "cb_holds b ps lo \<Longrightarrow> lo \<le> lo' \<Longrightarrow> cb_holds b ps lo'"
  by (auto simp: cb_holds_def)

text \<open>A reader that moves forward inside the stream keeps the invariant.\<close>

lemma cb_inv_advance:
  assumes "cb_inv b ps" "a \<in> set (sp_readSequences (cb_claim b))" "cb_seqs b a \<le> v" "v \<le> sp_publishCursor (cb_claim b)"
  shows "cb_inv (b\<lparr>cb_seqs := (cb_seqs b)(a := v)\<rparr>) ps"
proof -
  note D = cb_invD [OF assms(1)]
  let ?b = "b\<lparr>cb_seqs := (cb_seqs b)(a := v)\<rparr>"
  have up: "cb_gate b \<le> cb_gate ?b" using gate_advance [of "cb_seqs b" a v] assms(3) by simp
  have "cb_gate ?b \<le> v" using gate_le [OF assms(2), of "(cb_seqs b)(a := v)"] by simp
  then have le: "cb_gate ?b \<le> sp_publishCursor (cb_claim b)" using assms(4) by simp
  have "cb_holds ?b ps lo = cb_holds b ps lo" for lo by (simp add: cb_holds_def cb_cell_def)
  then have "cb_holds ?b ps (unat (cb_gate ?b))" using cb_holds_mono [OF D(6)] up by (simp add: word_le_nat_alt)
  moreover have "gated (cb_gate ?b) (sp_publishCursor (cb_claim b)) (cb_size b)"
    using D(5) le up by (auto simp: gated_def word_le_nat_alt)
  ultimately show ?thesis using D(1-4) by (simp add: cb_inv_def cb_shape_def)
qed

lemma available_eq:
  assumes "cb_inv b ps" "reader_ok b r"
  shows "unat (r_available b r) = length ps - unat (r_readIndexCached r)" "unat (r_readIndexCached r) \<le> length ps"
    "unat (cb_gate b) \<le> unat (r_readIndexCached r)"
  using cb_invD(3) [OF assms(1)] reader_okD [OF assms(2)]
    gate_le [OF reader_okD(1) [OF assms(2)], of "cb_seqs b" "sp_reserveCursor (cb_claim b)"]
  by (simp_all add: r_available_def unat_sub_le word_le_nat_alt)

text \<open>The samples of a span handed out at the read position.\<close>

lemma rs_read_stream:
  assumes "cb_inv b ps" "reader_ok b r" "unat (r_readIndexCached r) + unat n \<le> length ps"
  shows "rs_read (RSpan (calculateIndex (cb_size b) (r_readIndexCached r)) n) b =
    take (unat n) (drop (unat (r_readIndexCached r)) ps)"
proof (rule nth_equalityI)
  note D = cb_invD [OF assms(1)] and S = cb_shapeD [OF cb_invD(1) [OF assms(1)]] and A = available_eq [OF assms(1,2)]
  let ?p = "unat (r_readIndexCached r)" and ?z = "unat (cb_size b)"
  show "length (rs_read (RSpan (calculateIndex (cb_size b) (r_readIndexCached r)) n) b) =
      length (take (unat n) (drop ?p ps))" using assms(3) by (simp add: rs_read_def)
  fix i
  assume "i < length (rs_read (RSpan (calculateIndex (cb_size b) (r_readIndexCached r)) n) b)"
  then have i: "i < unat n" by (simp add: rs_read_def)
  have "?p mod ?z < ?z" using S by simp
  moreover have "i < ?z" using i assms(3) D(8) A(3) by linarith
  ultimately have "?p mod ?z + i < 2 * ?z" by linarith
  moreover have "(?p mod ?z + i) mod ?z = (?p + i) mod ?z" by (simp add: mod_add_left_eq)
  ultimately have "cb_cell b (?p mod ?z + i) = ps ! (?p + i)"
    using D(6) i assms(3) A(3) by (simp add: cb_holds_def)
  then show "rs_read (RSpan (calculateIndex (cb_size b) (r_readIndexCached r)) n) b ! i =
      take (unat n) (drop ?p ps) ! i"
    using i assms(3) by (simp add: rs_read_def unat_calculateIndex)
qed

text \<open>A read burst: get a span, read it, perhaps ask to consume, release it under a policy.\<close>

definition read_burst ::
  "policy \<Rightarrow> usize \<Rightarrow> usize option \<Rightarrow> 'a cbuffer \<Rightarrow> reader \<Rightarrow> ('a list \<times> 'a cbuffer \<times> reader) option" where
  "read_burst pol n req b r =
     (let (r1, s) = r_get n b r;
          vs = rs_read s b;
          r2 = (case req of None \<Rightarrow> r1 | Some k \<Rightarrow> fst (rs_tryConsume k r1))
      in case rs_release pol b r2 of None \<Rightarrow> None | Some (b', r') \<Rightarrow> Some (vs, b', r'))"

text \<open>What a release consumes of \<open>n\<close> samples handed out: a refused request counts as none.\<close>

definition consume_count :: "policy \<Rightarrow> usize option \<Rightarrow> nat \<Rightarrow> nat" where
  "consume_count pol req n =
     (case req of Some k \<Rightarrow> if unat k \<le> n then unat k else if pol = ProcessAll then n else 0
      | None \<Rightarrow> if pol = ProcessAll then n else 0)"

text \<open>How many samples \<open>get\<close> hands out: all that are available by default.\<close>

definition handed_out :: "usize \<Rightarrow> nat \<Rightarrow> nat" where
  "handed_out n avail = (if n = usize_max then avail else unat n)"

lemma read_burst_eq:
  assumes "cb_inv b ps" "reader_ok b r" "a = length ps - unat (r_readIndexCached r)" "m = handed_out n a" "m \<le> a"
    "m < 2 ^ 64 - 1" "c = consume_count pol req m"
    "pol = Terminate \<longrightarrow> (\<exists>k. req = Some k \<and> unat k \<le> m)"
  shows "\<exists>r'. read_burst pol n req b r =
      Some (take m (drop (unat (r_readIndexCached r)) ps),
            b\<lparr>cb_seqs := (cb_seqs b)(r_readIndex r := r_readIndexCached r + of_nat c)\<rparr>, r') \<and>
    r_readIndex r' = r_readIndex r \<and> r_readIndexCached r' = r_readIndexCached r + of_nat c \<and>
    r_nSamplesFirstGet r' = usize_max \<and> r_instanceCount r' = 0 \<and> r_requested r' = usize_max"
proof -
  note R = reader_okD [OF assms(2)] and A = available_eq [OF assms(1,2)]
  define w :: usize where "w = (if n = usize_max then r_available b r else n)"
  have w: "unat w = m" "w = of_nat m"
  proof -
    show "unat w = m" using A(1) assms(3,4) by (simp add: w_def handed_out_def)
    then show "w = of_nat m" by auto
  qed
  have wm: "w \<noteq> usize_max" using w(1) assms(6) by (auto simp: unsigned_minus_1_eq_mask mask_eq_exp_minus_1)
  have get: "r_get n b r = (r\<lparr>r_nSamplesFirstGet := w, r_nSamplesConsumed := 0, r_instanceCount := Suc 0\<rparr>,
      RSpan (calculateIndex (cb_size b) (r_readIndexCached r)) w)"
    using R by (simp add: r_get_def w_def [symmetric] Let_def)
  have vs: "rs_read (RSpan (calculateIndex (cb_size b) (r_readIndexCached r)) w) b =
      take m (drop (unat (r_readIndexCached r)) ps)"
    using rs_read_stream [OF assms(1,2), of w] w(1) assms(3,5) A(2) by simp
  have same: "b\<lparr>cb_seqs := (cb_seqs b)(r_readIndex r := r_readIndexCached r + 0)\<rparr> = b"
    using R(2) by (cases b) simp
  define r1 where "r1 = r\<lparr>r_nSamplesFirstGet := w, r_nSamplesConsumed := 0, r_instanceCount := Suc 0\<rparr>"
  have nm: "unat k \<le> m \<Longrightarrow> k \<noteq> usize_max" for k :: usize
    using assms(6) by (auto simp: unsigned_minus_1_eq_mask mask_eq_exp_minus_1)
  have avail: "r_available b (r1\<lparr>r_instanceCount := 0, r_nSamplesFirstGet := usize_max, r_requested := usize_max\<rparr>) = r_available b r"
    by (simp add: r1_def r_available_def)
  have wa: "w \<le> r_available b r" using w(1) A(1) assms(3,5) by (simp add: word_le_nat_alt)
  have burst: "read_burst pol n req b r =
      (case rs_release pol b (case req of None \<Rightarrow> r1 | Some k \<Rightarrow> fst (rs_tryConsume k r1)) of
         None \<Rightarrow> None | Some (b', r') \<Rightarrow> Some (take m (drop (unat (r_readIndexCached r)) ps), b', r'))"
    unfolding read_burst_def get r1_def [symmetric] Let_def prod.case vs ..
  let ?b' = "b\<lparr>cb_seqs := (cb_seqs b)(r_readIndex r := r_readIndexCached r + of_nat c)\<rparr>"
  show ?thesis
  proof (cases "\<exists>k. req = Some k \<and> unat k \<le> m")
    case True
    then obtain k where k: "req = Some k" "unat k \<le> m" by blast
    then have c: "of_nat c = k" by (simp add: assms(7) consume_count_def)
    have "\<not> k > w" using k w(1) by (simp add: word_less_nat_alt)
    then have rq: "fst (rs_tryConsume k r1) = r1\<lparr>r_requested := k\<rparr>"
      using wm R by (simp add: rs_tryConsume_def r_isConsumeRequested_def r1_def)
    have "rs_release pol b (r1\<lparr>r_requested := k\<rparr>) = Some (b\<lparr>cb_seqs := (cb_seqs b)(r_readIndex r := r_readIndexCached r + k)\<rparr>,
        r1\<lparr>r_instanceCount := 0, r_nSamplesFirstGet := usize_max, r_requested := usize_max,
           r_readIndexCached := r_readIndexCached r + k, r_nSamplesConsumed := k\<rparr>)"
      using nm [OF k(2)] by (simp add: rs_release_def r_isConsumeRequested_def performConsume_def r1_def Let_def)
    then show ?thesis using k(1) c rq unfolding burst by (simp add: r1_def)
  next
    case False
    then have t: "pol \<noteq> Terminate" using assms(8) by blast
    have c: "c = (if pol = ProcessAll then m else 0)"
      using False by (auto simp: assms(7) consume_count_def split: option.splits)
    have "fst (rs_tryConsume k r1) = r1" if "req = Some k" for k
    proof -
      have "k > w" using that False w(1) by (simp add: word_less_nat_alt not_le)
      then show ?thesis using wm R by (simp add: rs_tryConsume_def r_isConsumeRequested_def r1_def)
    qed
    then have refused: "(case req of None \<Rightarrow> r1 | Some k \<Rightarrow> fst (rs_tryConsume k r1)) = r1"
      by (auto split: option.split)
    have stay: "rs_release pol b r1 = Some (b, r1\<lparr>r_instanceCount := 0, r_nSamplesFirstGet := usize_max, r_requested := usize_max\<rparr>)"
      if "c = 0"
      using that c t w(2) R
      by (cases pol) (simp_all add: rs_release_def r_isConsumeRequested_def performConsume_def r1_def Let_def)
    show ?thesis
    proof (cases "c = 0")
      case True
      then show ?thesis using stay same R by (simp add: burst refused) (simp add: r1_def)
    next
      case pos: False
      then have p: "pol = ProcessAll" "c = m" "w \<noteq> 0" using c w(1) by (auto split: if_splits)
      have "\<not> w > r_available b r" using wa by simp
      then have "rs_release pol b r1 = Some (b\<lparr>cb_seqs := (cb_seqs b)(r_readIndex r := r_readIndexCached r + w)\<rparr>,
          r1\<lparr>r_instanceCount := 0, r_nSamplesFirstGet := usize_max, r_requested := usize_max,
             r_readIndexCached := r_readIndexCached r + w, r_nSamplesConsumed := w\<rparr>)"
        using p R avail by (simp add: rs_release_def r_isConsumeRequested_def performConsume_def r1_def Let_def)
      then show ?thesis using p(2) w(2) R by (simp add: burst refused) (simp add: r1_def)
    qed
  qed
qed


lemma read_burst_lemma:
  assumes "cb_inv b ps" "reader_ok b r" "handed_out n (length ps - unat (r_readIndexCached r)) = m"
    "m \<le> length ps - unat (r_readIndexCached r)" "m < 2 ^ 64 - 1"
    "pol = Terminate \<longrightarrow> (\<exists>k. req = Some k \<and> unat k \<le> m)"
  shows "\<exists>b' r'. read_burst pol n req b r = Some (take m (drop (unat (r_readIndexCached r)) ps), b', r') \<and>
    cb_inv b' ps \<and> reader_ok b' r' \<and> r_readIndex r' = r_readIndex r \<and>
    unat (r_readIndexCached r') = unat (r_readIndexCached r) + consume_count pol req m \<and>
    cb_claim b' = cb_claim b \<and> cb_size b' = cb_size b \<and> cb_data b' = cb_data b \<and>
    (\<forall>a. a \<noteq> r_readIndex r \<longrightarrow> cb_seqs b' a = cb_seqs b a)"
proof -
  note D = cb_invD [OF assms(1)] and R = reader_okD [OF assms(2)] and A = available_eq [OF assms(1,2)]
  define c where "c = consume_count pol req m"
  have c: "c \<le> m" by (auto simp: c_def consume_count_def split: option.split)
  define v where "v = r_readIndexCached r + of_nat c"
  have ps: "length ps < 2 ^ 64" using D(3) usize_less [of "sp_publishCursor (cb_claim b)"] by simp
  then have uc: "unat (of_nat c :: usize) = c" using c assms(4) by (simp add: unat_of_nat)
  have v: "unat v = unat (r_readIndexCached r) + c"
    unfolding v_def using unat_add_nowrap [of "r_readIndexCached r" "of_nat c"] uc c A(2) assms(4) ps by simp
  have le: "cb_seqs b (r_readIndex r) \<le> v" "v \<le> sp_publishCursor (cb_claim b)"
    using v R(2) c A(2) assms(4) D(3) by (simp_all add: word_le_nat_alt)
  obtain r' where r': "read_burst pol n req b r = Some (take m (drop (unat (r_readIndexCached r)) ps),
      b\<lparr>cb_seqs := (cb_seqs b)(r_readIndex r := v)\<rparr>, r')"
    "r_readIndex r' = r_readIndex r" "r_readIndexCached r' = v"
    "r_nSamplesFirstGet r' = usize_max" "r_instanceCount r' = 0" "r_requested r' = usize_max"
    using read_burst_eq [OF assms(1,2) refl assms(3) [symmetric] assms(4,5) c_def assms(6)] unfolding v_def by blast
  moreover have "cb_inv (b\<lparr>cb_seqs := (cb_seqs b)(r_readIndex r := v)\<rparr>) ps"
    using assms(1) R(1) le by (rule cb_inv_advance)
  moreover have "reader_ok (b\<lparr>cb_seqs := (cb_seqs b)(r_readIndex r := v)\<rparr>) r'"
    using r' R(1) le by (simp add: reader_ok_def)
  ultimately show ?thesis using v
    by (intro exI [of _ "b\<lparr>cb_seqs := (cb_seqs b)(r_readIndex r := v)\<rparr>"] exI [of _ r']) (simp add: c_def)
qed

text \<open>
  C15. A read burst returns exactly the next samples of the published stream, from the reader's
  position on and never the same twice: the position advances by what was consumed (the accepted
  request, or what the release policy takes), a request beyond the span is refused, and the buffer,
  the stream and every other reader are unchanged.
\<close>

theorem read_burst_stream:
  assumes "cb_inv b ps" "reader_ok b r" "handed_out n (length ps - unat (r_readIndexCached r)) = m"
    "m \<le> length ps - unat (r_readIndexCached r)" "m < 2 ^ 64 - 1"
    "pol = Terminate \<longrightarrow> (\<exists>k. req = Some k \<and> unat k \<le> m)"
  shows "\<exists>b' r'. read_burst pol n req b r = Some (take m (drop (unat (r_readIndexCached r)) ps), b', r') \<and>
    cb_inv b' ps \<and> reader_ok b' r' \<and> r_readIndex r' = r_readIndex r \<and>
    unat (r_readIndexCached r') = unat (r_readIndexCached r) + consume_count pol req m \<and>
    cb_claim b' = cb_claim b \<and> cb_size b' = cb_size b \<and> cb_data b' = cb_data b \<and>
    (\<forall>a. a \<noteq> r_readIndex r \<longrightarrow> cb_seqs b' a = cb_seqs b a)"
  using assms by (rule read_burst_lemma)


subsection \<open>Joining\<close>

text \<open>
  A new reader starts at the publish cursor: it is registered, has nothing to read and leaves the
  other readers and the stored stream alone.
\<close>

lemma gate_append:
  assumes "s a = r" "gate s as r \<le> r"
  shows "gate s (as @ [a]) r = gate s as r"
proof (cases "as = []")
  case True
  then show ?thesis using assms by (simp add: gate_def)
next
  case False
  have "Min (s ` set (as @ [a])) = min r (Min (s ` set as))" using False assms(1) by simp
  then show ?thesis using False assms(2) by (simp add: gate_def min_absorb2)
qed

lemma gate_upd_fresh: "a \<notin> set as \<Longrightarrow> gate (s(a := v)) as r = gate s as r"
  by (auto simp: gate_def intro!: arg_cong [of _ _ Min])

lemma new_reader_joins:
  assumes "cb_inv b ps" "a \<notin> set (sp_readSequences (cb_claim b))"
    "sp_readerGeneration (cb_claim b) + 1 \<noteq> sp_snapshotGeneration (cb_claim b)"
  shows "cb_inv (fst (new_reader a b)) ps" "reader_ok (fst (new_reader a b)) (snd (new_reader a b))"
    "r_available (fst (new_reader a b)) (snd (new_reader a b)) = 0"
proof -
  note D = cb_invD [OF assms(1)]
  let ?p = "sp_publishCursor (cb_claim b)"
  define c where "c = sp_notifyReaderSetChanged ((cb_claim b)\<lparr>sp_readSequences := sp_readSequences (cb_claim b) @ [a]\<rparr>)"
  have nr: "new_reader a b = (b\<lparr>cb_claim := c, cb_seqs := (cb_seqs b)(a := ?p), cb_reader_count := cb_reader_count b + 1\<rparr>,
      \<lparr>r_readIndex = a, r_readIndexCached = ?p, r_nSamplesFirstGet = usize_max, r_instanceCount = 0,
       r_requested = usize_max, r_nSamplesConsumed = 0\<rparr>)" (is "_ = (?b, ?r)")
    by (simp add: new_reader_def addSequences_def c_def Let_def)
  have c: "sp_publishCursor c = ?p" "sp_reserveCursor c = ?p" "sp_size c = sp_size (cb_claim b)"
    "sp_readSequences c = sp_readSequences (cb_claim b) @ [a]" "snapshot_ok c"
    using D(4) assms(3) by (simp_all add: c_def sp_notifyReaderSetChanged_def snapshot_ok_def)
  have "cb_gate b \<le> ?p" using D(5) by (simp add: gated_def)
  then have g: "gate ((cb_seqs b)(a := ?p)) (sp_readSequences c) ?p = cb_gate b"
    using assms(2) D(4) by (simp add: c gate_append gate_upd_fresh del: fun_upd_apply) (simp add: gate_append gate_upd_fresh)
  have "cb_holds ?b ps lo = cb_holds b ps lo" for lo by (simp add: cb_holds_def cb_cell_def)
  then show "cb_inv (fst (new_reader a b)) ps"
    using D c g by (simp add: nr cb_inv_def cb_shape_def)
  show "reader_ok (fst (new_reader a b)) (snd (new_reader a b))"
    "r_available (fst (new_reader a b)) (snd (new_reader a b)) = 0"
    using c by (simp_all add: nr reader_ok_def r_available_def)
qed

subsection \<open>The bounded queue\<close>

text \<open>
  The interface a producer and a consumer rely on: whole blocks are put or refused, blocks are taken
  from the front. \<open>headroom\<close> bounds what may still be put before a 64-bit cursor would wrap.
\<close>

locale bounded_fifo =
  fixes inv :: "'s \<Rightarrow> bool" and queue :: "'s \<Rightarrow> 'a list" and cap :: "'s \<Rightarrow> nat" and headroom :: "'s \<Rightarrow> nat"
    and put :: "'a list \<Rightarrow> 's \<Rightarrow> 's option" and take_from :: "nat \<Rightarrow> 's \<Rightarrow> ('a list \<times> 's) option"
  assumes put_ok: "inv s \<Longrightarrow> length xs < headroom s \<Longrightarrow>
      \<exists>s'. put xs s = Some s' \<and> inv s' \<and> cap s' = cap s \<and> headroom s \<le> headroom s' + length xs \<and>
        queue s' = (if length (queue s) + length xs \<le> cap s then queue s @ xs else queue s)"
    and take_ok: "inv s \<Longrightarrow>
      \<exists>s'. take_from n s = Some (take n (queue s), s') \<and> inv s' \<and> cap s' = cap s \<and> headroom s' = headroom s \<and>
        queue s' = drop n (queue s)"

datatype 'a qop = Put "'a list" | Take nat

fun run_ops :: "('a list \<Rightarrow> 's \<Rightarrow> 's option) \<Rightarrow> (nat \<Rightarrow> 's \<Rightarrow> ('a list \<times> 's) option) \<Rightarrow>
    'a qop list \<Rightarrow> 's \<Rightarrow> ('a list \<times> 's) option" where
  "run_ops p t [] s = Some ([], s)"
| "run_ops p t (Put xs # ops) s = (case p xs s of None \<Rightarrow> None | Some s' \<Rightarrow> run_ops p t ops s')"
| "run_ops p t (Take n # ops) s =
     (case t n s of None \<Rightarrow> None
      | Some (ys, s') \<Rightarrow> (case run_ops p t ops s' of None \<Rightarrow> None | Some (zs, s'') \<Rightarrow> Some (ys @ zs, s'')))"

text \<open>The same operations on a queue of at most \<open>n\<close> elements.\<close>

fun queue_ops :: "nat \<Rightarrow> 'a qop list \<Rightarrow> 'a list \<Rightarrow> 'a list \<times> 'a list" where
  "queue_ops n [] q = ([], q)"
| "queue_ops n (Put xs # ops) q = queue_ops n ops (if length q + length xs \<le> n then q @ xs else q)"
| "queue_ops n (Take k # ops) q = (let (out, q') = queue_ops n ops (drop k q) in (take k q @ out, q'))"

fun put_total :: "'a qop list \<Rightarrow> nat" where
  "put_total [] = 0"
| "put_total (Put xs # ops) = length xs + put_total ops"
| "put_total (Take n # ops) = put_total ops"

context bounded_fifo
begin

lemma run_refines:
  "inv s \<Longrightarrow> put_total ops < headroom s \<Longrightarrow>
   \<exists>s'. run_ops put take_from ops s = Some (fst (queue_ops (cap s) ops (queue s)), s') \<and>
     inv s' \<and> queue s' = snd (queue_ops (cap s) ops (queue s))"
proof (induction ops arbitrary: s)
  case (Cons a ops)
  show ?case
  proof (cases a)
    case (Put xs)
    with Cons.prems put_ok [of s xs] obtain s' where s': "put xs s = Some s'" "inv s'" "cap s' = cap s"
      "headroom s \<le> headroom s' + length xs"
      "queue s' = (if length (queue s) + length xs \<le> cap s then queue s @ xs else queue s)" by auto
    then have "put_total ops < headroom s'" using Cons.prems(2) Put by simp
    from Cons.IH [OF s'(2) this] show ?thesis using Put s' by simp
  next
    case (Take n)
    with take_ok [OF Cons.prems(1), of n] obtain s' where s': "take_from n s = Some (take n (queue s), s')" "inv s'"
      "cap s' = cap s" "headroom s' = headroom s" "queue s' = drop n (queue s)" by auto
    then have "put_total ops < headroom s'" using Cons.prems(2) Take by simp
    from Cons.IH [OF s'(2) this] show ?thesis using Take s' by (auto simp: split_beta)
  qed
qed simp

end

text \<open>One writer and one reader on a buffer, each operation a burst.\<close>

type_synonym 'a channel = "'a cbuffer \<times> writer \<times> reader"

definition channel_put :: "'a list \<Rightarrow> 'a channel \<Rightarrow> 'a channel option" where
  "channel_put xs s = (case s of (b, w, r) \<Rightarrow>
     map_option (\<lambda>(b', w'). (b', w', r)) (write_burst ProcessNone xs (Some (of_nat (length xs))) b w))"

definition channel_take :: "nat \<Rightarrow> 'a channel \<Rightarrow> ('a list \<times> 'a channel) option" where
  "channel_take n s = (case s of (b, w, r) \<Rightarrow>
     map_option (\<lambda>(vs, b', r'). (vs, b', w, r'))
       (read_burst ProcessAll (of_nat (min n (unat (r_available b r)))) None b r))"

definition channel_queue :: "'a channel \<Rightarrow> 'a list" where
  "channel_queue s = (case s of (b, w, r) \<Rightarrow>
     rs_read (RSpan (calculateIndex (cb_size b) (r_readIndexCached r)) (r_available b r)) b)"

definition channel_inv :: "'a channel \<Rightarrow> bool" where
  "channel_inv s \<longleftrightarrow> (case s of (b, w, r) \<Rightarrow>
     (\<exists>ps. cb_inv b ps) \<and> writer_ok b w \<and> reader_ok b r \<and> sp_readSequences (cb_claim b) = [r_readIndex r])"

definition channel_headroom :: "'a channel \<Rightarrow> nat" where
  "channel_headroom s = (case s of (b, w, r) \<Rightarrow>
     2 ^ 64 - unat (sp_publishCursor (cb_claim b)) - unat (cb_size b))"

abbreviation channel_cap :: "'a channel \<Rightarrow> nat" where
  "channel_cap s \<equiv> unat (cb_size (fst s))"


lemma channel_view:
  assumes "cb_inv b ps" "reader_ok b r"
  shows "channel_queue (b, w, r) = drop (unat (r_readIndexCached r)) ps"
  using rs_read_stream [OF assms, of "r_available b r"] available_eq [OF assms] by (simp add: channel_queue_def)

lemma channel_invE:
  assumes "channel_inv s"
  obtains b w r ps where "s = (b, w, r)" "cb_inv b ps" "writer_ok b w" "reader_ok b r"
    "sp_readSequences (cb_claim b) = [r_readIndex r]" "cb_gate b = r_readIndexCached r"
  using assms by (auto simp: channel_inv_def gate_def reader_ok_def)

lemma channel_put_ok:
  assumes "channel_inv s" "length xs < channel_headroom s"
  shows "\<exists>s'. channel_put xs s = Some s' \<and> channel_inv s' \<and> channel_cap s' = channel_cap s \<and>
    channel_headroom s \<le> channel_headroom s' + length xs \<and>
    channel_queue s' = (if length (channel_queue s) + length xs \<le> channel_cap s then channel_queue s @ xs else channel_queue s)"
proof -
  from assms(1) obtain b w r ps where s: "s = (b, w, r)" and i: "cb_inv b ps" "writer_ok b w" "reader_ok b r"
    and one: "sp_readSequences (cb_claim b) = [r_readIndex r]" "cb_gate b = r_readIndexCached r"
    by (rule channel_invE)
  note D = cb_invD [OF i(1)] and A = available_eq [OF i(1,3)]
  have fit: "length ps + length xs + unat (cb_size b) < 2 ^ 64"
    using assms(2) D(3) by (simp add: s channel_headroom_def)
  let ?m = "of_nat (length xs) :: usize"
  have m: "burst_count ProcessNone (Some ?m) (length xs) = length xs"
    using fit by (simp add: burst_count_def unat_usize_of_nat)
  obtain b' w' where b': "write_burst ProcessNone xs (Some ?m) b w = Some (b', w')"
    "cb_inv b' (if length ps + length xs \<le> unat (cb_gate b) + unat (cb_size b) then ps @ xs else ps)"
    "writer_ok b' w'" "cb_size b' = cb_size b" "cb_seqs b' = cb_seqs b"
    "sp_readSequences (cb_claim b') = sp_readSequences (cb_claim b)"
    using write_burst_lemma [OF i(1,2) _ fit, of ProcessNone "Some ?m"] by (auto simp: m cong: if_cong)
  define ps' where "ps' = (if length ps + length xs \<le> unat (cb_gate b) + unat (cb_size b) then ps @ xs else ps)"
  have i': "cb_inv b' ps'" using b'(2) by (simp add: ps'_def)
  have len: "length ps \<le> length ps'" "length ps' \<le> length ps + length xs" by (auto simp: ps'_def)
  have r': "reader_ok b' r"
    using reader_okD [OF i(3)] b'(5,6) cb_invD(3) [OF i'] D(3) len
    by (auto simp: reader_ok_def word_le_nat_alt)
  have v: "channel_queue s = drop (unat (r_readIndexCached r)) ps"
    "channel_queue (b', w', r) = drop (unat (r_readIndexCached r)) ps'"
    using channel_view [OF i(1,3)] channel_view [OF i' r'] by (simp_all add: s)
  have "length (channel_queue s) + length xs \<le> unat (cb_size b) \<longleftrightarrow>
      length ps + length xs \<le> unat (cb_gate b) + unat (cb_size b)" using A(2) by (auto simp: v one(2))
  then have "channel_queue (b', w', r) =
      (if length (channel_queue s) + length xs \<le> channel_cap s then channel_queue s @ xs else channel_queue s)"
    using A(2) v by (simp add: s ps'_def)
  moreover have "channel_inv (b', w', r)" using i' b'(3,6) r' one(1) by (auto simp: channel_inv_def)
  moreover have "channel_headroom s \<le> channel_headroom (b', w', r) + length xs"
    using cb_invD(3) [OF i'] D(3) len b'(4) by (simp add: channel_headroom_def s)
  ultimately show ?thesis using b'(1,4) by (intro exI [of _ "(b', w', r)"]) (simp add: channel_put_def s)
qed

lemma channel_take_ok:
  assumes "channel_inv s"
  shows "\<exists>s'. channel_take n s = Some (take n (channel_queue s), s') \<and> channel_inv s' \<and> channel_cap s' = channel_cap s \<and>
    channel_headroom s' = channel_headroom s \<and> channel_queue s' = drop n (channel_queue s)"
proof -
  from assms(1) obtain b w r ps where s: "s = (b, w, r)" and i: "cb_inv b ps" "writer_ok b w" "reader_ok b r"
    and one: "sp_readSequences (cb_claim b) = [r_readIndex r]" "cb_gate b = r_readIndexCached r"
    by (rule channel_invE)
  note D = cb_invD [OF i(1)] and S = cb_shapeD [OF cb_invD(1) [OF i(1)]] and A = available_eq [OF i(1,3)]
  define p where "p = unat (r_readIndexCached r)"
  define m where "m = min n (unat (r_available b r))"
  have m: "m \<le> length ps - p" "m = min n (length ps - p)" using A(1) by (auto simp: m_def p_def)
  have "length ps - p \<le> unat (cb_size b)" using D(8) by (simp add: one(2) p_def)
  then have small: "m < 2 ^ 64 - 1" using m S(2) by simp
  then have um: "unat (of_nat m :: usize) = m" by (simp add: unat_usize_of_nat)
  then have "(of_nat m :: usize) \<noteq> usize_max" using small by (auto simp: unsigned_minus_1_eq_mask mask_eq_exp_minus_1)
  then have h: "handed_out (of_nat m) (length ps - unat (r_readIndexCached r)) = m" by (simp add: handed_out_def um)
  obtain b' r' where b': "read_burst ProcessAll (of_nat m) None b r = Some (take m (drop p ps), b', r')"
    "cb_inv b' ps" "reader_ok b' r'" "r_readIndex r' = r_readIndex r"
    "unat (r_readIndexCached r') = p + m" "cb_claim b' = cb_claim b" "cb_size b' = cb_size b"
    using read_burst_lemma [OF i(1,3) h _ small, of ProcessAll None] m(1)
    by (auto simp: p_def [symmetric] consume_count_def)
  have v: "channel_queue s = drop p ps" "channel_queue (b', w, r') = drop (p + m) ps"
    using channel_view [OF i(1,3)] channel_view [OF b'(2,3)] b'(5) by (simp_all add: s p_def)
  have q: "take m (drop p ps) = take n (channel_queue s)" "drop (p + m) ps = drop n (channel_queue s)"
    by (simp_all add: v m(2) min_def add.commute)
  have "writer_ok b' w" using i(2) b'(6) by (simp add: writer_ok_def)
  then have inv: "channel_inv (b', w, r')" using b'(2,3,4,6) one(1) by (auto simp: channel_inv_def)
  have ct: "channel_take n s = Some (take n (channel_queue s), b', w, r')"
    using b'(1) q(1) by (simp add: channel_take_def s m_def)
  show ?thesis using ct inv b'(6,7) v(2) q(2)
    by (intro exI [of _ "(b', w, r')"]) (simp add: s channel_headroom_def)
qed

interpretation circular_channel: bounded_fifo channel_inv channel_queue channel_cap channel_headroom channel_put channel_take
  using channel_put_ok channel_take_ok by unfold_locales blast+

text \<open>
  C13. With one writer and one reader, the circular buffer is a bounded first-in first-out queue: any
  sequence of block writes and block reads returns the values the same operations return on a list of at
  most \<open>size\<close> elements, and ends in a buffer with the same unread samples.
\<close>

theorem channel_refines_queue:
  assumes "channel_inv s" "put_total ops < channel_headroom s"
  shows "\<exists>s'. run_ops channel_put channel_take ops s = Some (fst (queue_ops (channel_cap s) ops (channel_queue s)), s') \<and>
    channel_inv s' \<and> channel_queue s' = snd (queue_ops (channel_cap s) ops (channel_queue s))"
  using assms by (rule circular_channel.run_refines)


text \<open>A concrete buffer of two samples, both published and unread by its one reader.\<close>

definition full_buffer :: "nat cbuffer" where
  "full_buffer =
     \<lparr>cb_isMmap = True, cb_size = 2, cb_data = [5, 6],
      cb_claim = \<lparr>sp_size = 2, sp_publishCursor = 2, sp_reserveCursor = 2, sp_readSequences = [0],
        sp_readerGeneration = 1, sp_snapshotGeneration = usize_max, sp_snapshotReadSequences = [],
        sp_cachedSingleReader = None\<rparr>,
      cb_seqs = (\<lambda>_. 0), cb_reader_count = 1, cb_writer_count = 1\<rparr>"

definition idle_writer :: "usize \<Rightarrow> writer" where
  "idle_writer offset = \<lparr>w_requested = 0, w_index = 0, w_offset = offset, w_spanSize = 0, w_instanceCount = 0\<rparr>"

definition idle_reader :: "addr \<Rightarrow> usize \<Rightarrow> reader" where
  "idle_reader a pos = \<lparr>r_readIndex = a, r_readIndexCached = pos, r_nSamplesFirstGet = usize_max,
     r_instanceCount = 0, r_requested = usize_max, r_nSamplesConsumed = 0\<rparr>"

lemma full_buffer_inv: "cb_inv full_buffer [5, 6]"
proof -
  have "cb_holds full_buffer [5, 6] 0"
    unfolding cb_holds_def
  proof (intro allI impI)
    fix k i
    assume k: "k < length [5, 6 :: nat]" and i: "i mod unat (cb_size full_buffer) = k mod unat (cb_size full_buffer)"
    then have "k < 2" by simp
    moreover have "i mod 2 = k mod 2" using i by (simp add: full_buffer_def)
    ultimately have "i mod 2 = k" by simp
    then show "cb_cell full_buffer i = [5, 6] ! k" by (simp add: cb_cell_def full_buffer_def)
  qed
  then show ?thesis
    by (simp add: cb_inv_def cb_shape_def snapshot_ok_def gated_def gate_def buffer_size_def)
       (simp add: full_buffer_def)
qed

lemma full_buffer_channel:
  "reader_ok full_buffer (idle_reader 0 0)" "writer_ok full_buffer (idle_writer 2)"
  "channel_inv (full_buffer, idle_writer 2, idle_reader 0 0)"
proof -
  show r: "reader_ok full_buffer (idle_reader 0 0)" by (simp add: reader_ok_def idle_reader_def full_buffer_def)
  show w: "writer_ok full_buffer (idle_writer 2)" by (simp add: writer_ok_def idle_writer_def full_buffer_def)
  have "sp_readSequences (cb_claim full_buffer) = [r_readIndex (idle_reader 0 0)]"
    by (simp add: idle_reader_def full_buffer_def)
  then show "channel_inv (full_buffer, idle_writer 2, idle_reader 0 0)"
    using r w full_buffer_inv by (auto simp: channel_inv_def)
qed

lemma full_buffer_queue: "channel_queue (full_buffer, idle_writer 2, idle_reader 0 0) = [5, 6]"
  using channel_view [OF full_buffer_inv full_buffer_channel(1)] by (simp add: idle_reader_def)

lemma write_burst_publishes_witness:
  "\<exists>b' w'. write_burst ProcessNone [1, 2, 3 :: nat] (Some 2) (cb_new 4 False 0) (idle_writer 0) = Some (b', w') \<and>
     cb_inv b' [1, 2]"
proof -
  have i: "cb_inv (cb_new 4 False (0::nat)) []" by (rule cb_new_inv) simp_all
  have w: "writer_ok (cb_new 4 False (0::nat)) (idle_writer 0)"
    by (simp add: writer_ok_def idle_writer_def cb_new_def sp_new_def kInitialCursorValue_def)
  have "cb_size (cb_new 4 False (0::nat)) = 4" by (simp add: cb_new_def)
  moreover have "burst_count ProcessNone (Some 2) (length [1, 2, 3 :: nat]) = 2" by (simp add: burst_count_def)
  ultimately show ?thesis
    using write_burst_publishes [OF i w, of ProcessNone "Some 2" "[1, 2, 3]"] by (auto simp: burst_count_def)
qed

lemma read_burst_stream_witness:
  "\<exists>b' r'. read_burst ProcessNone usize_max (Some 1) full_buffer (idle_reader 0 0) = Some ([5, 6], b', r') \<and>
     unat (r_readIndexCached r') = 1 \<and> cb_inv b' [5, 6]"
proof -
  have "handed_out usize_max (length [5, 6 :: nat] - unat (r_readIndexCached (idle_reader 0 0))) = 2"
    by (simp add: handed_out_def idle_reader_def)
  from read_burst_stream [OF full_buffer_inv full_buffer_channel(1) this, of ProcessNone "Some 1"] show ?thesis
    by (auto simp: idle_reader_def consume_count_def)
qed

lemma channel_refines_queue_witness:
  "\<exists>s'. run_ops channel_put channel_take [Put [7], Take 1, Put [7], Take 5]
       (full_buffer, idle_writer 2, idle_reader 0 0) = Some ([5, 6, 7], s') \<and> channel_queue s' = []"
proof -
  have "put_total [Put [7], Take 1, Put [7 :: nat], Take 5] <
      channel_headroom (full_buffer, idle_writer 2, idle_reader 0 0)"
    by (simp add: channel_headroom_def full_buffer_def)
  moreover have "channel_cap (full_buffer, idle_writer 2, idle_reader 0 0) = 2" by (simp add: full_buffer_def)
  ultimately show ?thesis
    using channel_refines_queue [OF full_buffer_channel(3), of "[Put [7], Take 1, Put [7], Take 5]"]
    by (simp add: full_buffer_queue del: run_ops.simps) blast
qed

subsection \<open>A writer that joins late\<close>

text \<open>
  A writer starts with \<open>_offset\<close> 0. Its first reservation is published from there even when it was
  empty or could not be granted, so on a buffer that has already been written the release moves the publish cursor
  back to 0: the stream is lost. (The multi-producer \<open>publish\<close> ignores an empty publication.)
\<close>

theorem late_writer_rewinds:
  assumes "cb_inv b ps" "ps \<noteq> []"
  shows "\<exists>b' w'. write_burst ProcessNone [] None b (snd (new_writer b)) = Some (b', w') \<and>
    sp_publishCursor (cb_claim b') = 0 \<and> \<not> cb_inv b' ps"
proof -
  have e: "write_burst ProcessNone [] None b (snd (new_writer b)) =
      Some ((mirror_copy 0 0 b)\<lparr>cb_claim := sp_publish 0 0 (cb_claim b)\<rparr>, idle_writer 0)"
    by (simp add: write_burst_def tryReserve_def new_writer_def ws_size_def ws_release_def ws_publish_def
        w_isPublishRequested_def idle_writer_def)
  have "\<not> cb_inv ((mirror_copy 0 0 b)\<lparr>cb_claim := sp_publish 0 0 (cb_claim b)\<rparr>) ps"
    using assms(2) by (auto simp: cb_inv_def)
  then show ?thesis by (simp add: e)
qed

lemma late_writer_rewinds_witness:
  "\<exists>b' w'. write_burst ProcessNone [] None full_buffer (snd (new_writer full_buffer)) = Some (b', w') \<and>
    sp_publishCursor (cb_claim b') = 0"
  using late_writer_rewinds [OF full_buffer_inv] by auto


end
