(* ===== verification/PmtValue.thy ===== *)
theory PmtValue
  imports Prelude "HOL-Library.AList"
begin

text \<open>
  The polymorphic value of \<^verbatim>\<open>core/include/gnuradio-4.0/Value.hpp\<close> and \<^verbatim>\<open>core/src/Value.cpp\<close>:
  its type tags, the checked accesses, equality, ordering and hash, and the life of a value
  object with its memory resource. Floating-point numbers are their IEEE-754 bit patterns, of which the
  code compares and hashes only. Maps are association lists, whose order the code leaves unspecified.
\<close>

section \<open>Values and their types\<close>

datatype value_type =
  TMonostate | TBool | TInt8 | TInt16 | TInt32 | TInt64 | TUInt8 | TUInt16 | TUInt32 | TUInt64
| TFloat32 | TFloat64 | TComplexFloat32 | TComplexFloat64 | TString | TValue

datatype container_type = Scalar | Complex | Text | Tensor | Map

text \<open>The enumerators' numbers, which the ordering and the hash use.\<close>

definition value_tag :: "value_type \<Rightarrow> nat" where
  "value_tag t = (case t of TMonostate \<Rightarrow> 0 | TBool \<Rightarrow> 1 | TInt8 \<Rightarrow> 2 | TInt16 \<Rightarrow> 3 | TInt32 \<Rightarrow> 4 | TInt64 \<Rightarrow> 5
     | TUInt8 \<Rightarrow> 6 | TUInt16 \<Rightarrow> 7 | TUInt32 \<Rightarrow> 8 | TUInt64 \<Rightarrow> 9 | TFloat32 \<Rightarrow> 10 | TFloat64 \<Rightarrow> 11
     | TComplexFloat32 \<Rightarrow> 12 | TComplexFloat64 \<Rightarrow> 13 | TString \<Rightarrow> 14 | TValue \<Rightarrow> 15)"

definition container_tag :: "container_type \<Rightarrow> nat" where
  "container_tag c = (case c of Scalar \<Rightarrow> 0 | Complex \<Rightarrow> 1 | Text \<Rightarrow> 2 | Tensor \<Rightarrow> 3 | Map \<Rightarrow> 4)"

type_synonym float32 = "32 word"
type_synonym float64 = "64 word"

datatype pmt =
  VMonostate
| VBool bool
| VInt8 "8 word" | VInt16 "16 word" | VInt32 "32 word" | VInt64 "64 word"
| VUInt8 "8 word" | VUInt16 "16 word" | VUInt32 "32 word" | VUInt64 "64 word"
| VFloat32 float32 | VFloat64 float64
| VComplexFloat32 float32 float32 | VComplexFloat64 float64 float64
| VString string
| VTensor value_type "nat list" "pmt list"
| VMap "(string \<times> pmt) list"

type_synonym property_map = "(string \<times> pmt) list"

definition value_type_of :: "pmt \<Rightarrow> value_type" where
  "value_type_of v = (case v of VMonostate \<Rightarrow> TMonostate | VBool _ \<Rightarrow> TBool
     | VInt8 _ \<Rightarrow> TInt8 | VInt16 _ \<Rightarrow> TInt16 | VInt32 _ \<Rightarrow> TInt32 | VInt64 _ \<Rightarrow> TInt64
     | VUInt8 _ \<Rightarrow> TUInt8 | VUInt16 _ \<Rightarrow> TUInt16 | VUInt32 _ \<Rightarrow> TUInt32 | VUInt64 _ \<Rightarrow> TUInt64
     | VFloat32 _ \<Rightarrow> TFloat32 | VFloat64 _ \<Rightarrow> TFloat64
     | VComplexFloat32 _ _ \<Rightarrow> TComplexFloat32 | VComplexFloat64 _ _ \<Rightarrow> TComplexFloat64
     | VString _ \<Rightarrow> TString | VTensor t _ _ \<Rightarrow> t | VMap _ \<Rightarrow> TValue)"

definition container_type_of :: "pmt \<Rightarrow> container_type" where
  "container_type_of v = (case v of VComplexFloat32 _ _ \<Rightarrow> Complex | VComplexFloat64 _ _ \<Rightarrow> Complex
     | VString _ \<Rightarrow> Text | VTensor _ _ _ \<Rightarrow> Tensor | VMap _ \<Rightarrow> Map | _ \<Rightarrow> Scalar)"

definition is_monostate :: "pmt \<Rightarrow> bool" where
  "is_monostate v \<longleftrightarrow> value_type_of v = TMonostate"

definition is_integral :: "pmt \<Rightarrow> bool" where
  "is_integral v \<longleftrightarrow> container_type_of v = Scalar \<and>
     value_tag TInt8 \<le> value_tag (value_type_of v) \<and> value_tag (value_type_of v) \<le> value_tag TUInt64"

definition is_string :: "pmt \<Rightarrow> bool" where
  "is_string v \<longleftrightarrow> container_type_of v = Text"

definition is_tensor :: "pmt \<Rightarrow> bool" where
  "is_tensor v \<longleftrightarrow> container_type_of v = Tensor"

definition is_map :: "pmt \<Rightarrow> bool" where
  "is_map v \<longleftrightarrow> container_type_of v = Map"

text \<open>\<open>holds<T>\<close> and \<open>get_if<T>\<close>, by the kinds of \<open>T\<close> the code distinguishes.\<close>

datatype request = RMap | RString | RTensor value_type | RPlain value_type

definition plain_container :: "value_type \<Rightarrow> container_type" where
  "plain_container t = (if t = TComplexFloat32 \<or> t = TComplexFloat64 then Complex
     else if t = TString then Text else Scalar)"

definition holds :: "request \<Rightarrow> pmt \<Rightarrow> bool" where
  "holds r v = (case r of RMap \<Rightarrow> is_map v | RString \<Rightarrow> is_string v
     | RTensor t \<Rightarrow> is_tensor v \<and> value_type_of v = t
     | RPlain t \<Rightarrow> value_type_of v = t \<and> container_type_of v = plain_container t)"

definition get_if :: "request \<Rightarrow> pmt \<Rightarrow> pmt option" where
  "get_if r v = (if holds r v then Some v else None)"

definition get_if_map :: "pmt \<Rightarrow> property_map option" where
  "get_if_map v = (case v of VMap m \<Rightarrow> Some m | _ \<Rightarrow> None)"

definition get_if_bool :: "pmt \<Rightarrow> bool option" where
  "get_if_bool v = (case v of VBool b \<Rightarrow> Some b | _ \<Rightarrow> None)"

text \<open>\<open>value_or(std::string_view)\<close>.\<close>

definition string_or :: "string \<Rightarrow> pmt \<Rightarrow> string" where
  "string_or d v = (case v of VString s \<Rightarrow> s | _ \<Rightarrow> d)"

section \<open>IEEE-754 comparison\<close>

text \<open>
  The magnitude of a pattern orders the non-negative numbers; above the pattern of infinity it is a NaN.
  Both zeros have magnitude 0.
\<close>

definition f32_nan :: "float32 \<Rightarrow> bool" where
  "f32_nan w \<longleftrightarrow> unat w mod 2 ^ 31 > 255 * 2 ^ 23"

definition f32_rank :: "float32 \<Rightarrow> int" where
  "f32_rank w = (if unat w \<ge> 2 ^ 31 then - int (unat w mod 2 ^ 31) else int (unat w mod 2 ^ 31))"

definition f64_nan :: "float64 \<Rightarrow> bool" where
  "f64_nan w \<longleftrightarrow> unat w mod 2 ^ 63 > 2047 * 2 ^ 52"

definition f64_rank :: "float64 \<Rightarrow> int" where
  "f64_rank w = (if unat w \<ge> 2 ^ 63 then - int (unat w mod 2 ^ 63) else int (unat w mod 2 ^ 63))"

definition f32_eq :: "float32 \<Rightarrow> float32 \<Rightarrow> bool" where
  "f32_eq a b \<longleftrightarrow> \<not> f32_nan a \<and> \<not> f32_nan b \<and> f32_rank a = f32_rank b"

definition f64_eq :: "float64 \<Rightarrow> float64 \<Rightarrow> bool" where
  "f64_eq a b \<longleftrightarrow> \<not> f64_nan a \<and> \<not> f64_nan b \<and> f64_rank a = f64_rank b"

datatype ordering = Less | Equivalent | Greater | Unordered

definition int_order :: "int \<Rightarrow> int \<Rightarrow> ordering" where
  "int_order a b = (if a < b then Less else if a = b then Equivalent else Greater)"

definition f32_order :: "float32 \<Rightarrow> float32 \<Rightarrow> ordering" where
  "f32_order a b = (if f32_nan a \<or> f32_nan b then Unordered else int_order (f32_rank a) (f32_rank b))"

definition f64_order :: "float64 \<Rightarrow> float64 \<Rightarrow> ordering" where
  "f64_order a b = (if f64_nan a \<or> f64_nan b then Unordered else int_order (f64_rank a) (f64_rank b))"

text \<open>\<open>std::string_view\<close> comparison: characters as unsigned bytes, a prefix first.\<close>

fun string_order :: "string \<Rightarrow> string \<Rightarrow> ordering" where
  "string_order [] [] = Equivalent"
| "string_order [] (y # ys) = Less"
| "string_order (x # xs) [] = Greater"
| "string_order (x # xs) (y # ys) =
     (if (of_char x :: nat) < of_char y then Less else if (of_char y :: nat) < of_char x then Greater
      else string_order xs ys)"

section \<open>Equality and ordering\<close>

definition compare_scalar_eq :: "pmt \<Rightarrow> pmt \<Rightarrow> bool" where
  "compare_scalar_eq a b = (case a of
       VMonostate \<Rightarrow> True
     | VBool x \<Rightarrow> (case b of VBool y \<Rightarrow> x = y | _ \<Rightarrow> False)
     | VInt8 x \<Rightarrow> (case b of VInt8 y \<Rightarrow> x = y | _ \<Rightarrow> False)
     | VInt16 x \<Rightarrow> (case b of VInt16 y \<Rightarrow> x = y | _ \<Rightarrow> False)
     | VInt32 x \<Rightarrow> (case b of VInt32 y \<Rightarrow> x = y | _ \<Rightarrow> False)
     | VInt64 x \<Rightarrow> (case b of VInt64 y \<Rightarrow> x = y | _ \<Rightarrow> False)
     | VUInt8 x \<Rightarrow> (case b of VUInt8 y \<Rightarrow> x = y | _ \<Rightarrow> False)
     | VUInt16 x \<Rightarrow> (case b of VUInt16 y \<Rightarrow> x = y | _ \<Rightarrow> False)
     | VUInt32 x \<Rightarrow> (case b of VUInt32 y \<Rightarrow> x = y | _ \<Rightarrow> False)
     | VUInt64 x \<Rightarrow> (case b of VUInt64 y \<Rightarrow> x = y | _ \<Rightarrow> False)
     | VFloat32 x \<Rightarrow> (case b of VFloat32 y \<Rightarrow> f32_eq x y | _ \<Rightarrow> False)
     | VFloat64 x \<Rightarrow> (case b of VFloat64 y \<Rightarrow> f64_eq x y | _ \<Rightarrow> False)
     | _ \<Rightarrow> False)"

definition compare_scalar_order :: "pmt \<Rightarrow> pmt \<Rightarrow> ordering" where
  "compare_scalar_order a b = (case a of
       VMonostate \<Rightarrow> Equivalent
     | VBool x \<Rightarrow> (case b of VBool y \<Rightarrow> int_order (of_bool x) (of_bool y) | _ \<Rightarrow> Unordered)
     | VInt8 x \<Rightarrow> (case b of VInt8 y \<Rightarrow> int_order (sint x) (sint y) | _ \<Rightarrow> Unordered)
     | VInt16 x \<Rightarrow> (case b of VInt16 y \<Rightarrow> int_order (sint x) (sint y) | _ \<Rightarrow> Unordered)
     | VInt32 x \<Rightarrow> (case b of VInt32 y \<Rightarrow> int_order (sint x) (sint y) | _ \<Rightarrow> Unordered)
     | VInt64 x \<Rightarrow> (case b of VInt64 y \<Rightarrow> int_order (sint x) (sint y) | _ \<Rightarrow> Unordered)
     | VUInt8 x \<Rightarrow> (case b of VUInt8 y \<Rightarrow> int_order (uint x) (uint y) | _ \<Rightarrow> Unordered)
     | VUInt16 x \<Rightarrow> (case b of VUInt16 y \<Rightarrow> int_order (uint x) (uint y) | _ \<Rightarrow> Unordered)
     | VUInt32 x \<Rightarrow> (case b of VUInt32 y \<Rightarrow> int_order (uint x) (uint y) | _ \<Rightarrow> Unordered)
     | VUInt64 x \<Rightarrow> (case b of VUInt64 y \<Rightarrow> int_order (uint x) (uint y) | _ \<Rightarrow> Unordered)
     | VFloat32 x \<Rightarrow> (case b of VFloat32 y \<Rightarrow> f32_order x y | _ \<Rightarrow> Unordered)
     | VFloat64 x \<Rightarrow> (case b of VFloat64 y \<Rightarrow> f64_order x y | _ \<Rightarrow> Unordered)
     | _ \<Rightarrow> Unordered)"

definition same_type :: "pmt \<Rightarrow> pmt \<Rightarrow> bool" where
  "same_type a b \<longleftrightarrow> value_type_of a = value_type_of b \<and> container_type_of a = container_type_of b"

definition complex_eq :: "pmt \<Rightarrow> pmt \<Rightarrow> bool" where
  "complex_eq a b = (case a of
       VComplexFloat32 x y \<Rightarrow> (case b of VComplexFloat32 u v \<Rightarrow> f32_eq x u \<and> f32_eq y v | _ \<Rightarrow> False)
     | VComplexFloat64 x y \<Rightarrow> (case b of VComplexFloat64 u v \<Rightarrow> f64_eq x u \<and> f64_eq y v | _ \<Rightarrow> False)
     | _ \<Rightarrow> False)"

definition string_eq :: "pmt \<Rightarrow> pmt \<Rightarrow> bool" where
  "string_eq a b = (case a of VString x \<Rightarrow> (case b of VString y \<Rightarrow> x = y | _ \<Rightarrow> False) | _ \<Rightarrow> False)"

text \<open>
  \<open>operator==\<close>. Unordered maps are equal when they have as many entries and each entry of the first
  is found in the second; tensors when extents and elements are.
\<close>

fun pmt_eq :: "pmt \<Rightarrow> pmt \<Rightarrow> bool" where
  "pmt_eq (VTensor t ex es) b = (same_type (VTensor t ex es) b \<and>
     (case b of VTensor _ ex' es' \<Rightarrow> ex = ex' \<and> list_all2 pmt_eq es es' | _ \<Rightarrow> False))"
| "pmt_eq (VMap m) b = (same_type (VMap m) b \<and>
     (case b of VMap m' \<Rightarrow> length m = length m' \<and>
        list_all (\<lambda>e. case map_of m' (fst e) of None \<Rightarrow> False | Some w \<Rightarrow> pmt_eq (snd e) w) m
      | _ \<Rightarrow> False))"
| "pmt_eq a b = (same_type a b \<and>
     (case container_type_of a of Scalar \<Rightarrow> compare_scalar_eq a b | Complex \<Rightarrow> complex_eq a b
      | Text \<Rightarrow> string_eq a b | _ \<Rightarrow> False))"

text \<open>\<open>operator<=>\<close>.\<close>

definition pmt_order :: "pmt \<Rightarrow> pmt \<Rightarrow> ordering" where
  "pmt_order a b =
     (if \<not> same_type a b
      then int_order (int (value_tag (value_type_of a))) (int (value_tag (value_type_of b)))
      else case container_type_of a of
          Scalar \<Rightarrow> compare_scalar_order a b
        | Text \<Rightarrow> string_order (string_or [] a) (string_or [] b)
        | _ \<Rightarrow> Unordered)"

section \<open>Equality is an equivalence\<close>

text \<open>
  Well-formed values: a map holds a key once, a tensor as many elements as its extents say and
  only elements of its element type.
\<close>

fun wf_pmt :: "pmt \<Rightarrow> bool" where
  "wf_pmt (VTensor t ex es) = (prod_list ex = length es \<and> t \<noteq> TMonostate \<and>
     (\<forall>e \<in> set es. wf_pmt e \<and> (t \<noteq> TValue \<longrightarrow> value_type_of e = t \<and> container_type_of e = plain_container t)))"
| "wf_pmt (VMap m) = (distinct (map fst m) \<and> (\<forall>e \<in> set m. wf_pmt (snd e)))"
| "wf_pmt v = True"

fun nan_free :: "pmt \<Rightarrow> bool" where
  "nan_free (VFloat32 x) = (\<not> f32_nan x)"
| "nan_free (VFloat64 x) = (\<not> f64_nan x)"
| "nan_free (VComplexFloat32 x y) = (\<not> f32_nan x \<and> \<not> f32_nan y)"
| "nan_free (VComplexFloat64 x y) = (\<not> f64_nan x \<and> \<not> f64_nan y)"
| "nan_free (VTensor t ex es) = (\<forall>e \<in> set es. nan_free e)"
| "nan_free (VMap m) = (\<forall>e \<in> set m. nan_free (snd e))"
| "nan_free v = True"

named_theorems pmt_simps \<open>the case distinctions of values\<close>
named_theorems float_simps \<open>the comparison of floating-point numbers\<close>

lemmas [pmt_simps] = same_type_def value_type_of_def container_type_of_def compare_scalar_eq_def
  complex_eq_def string_eq_def

lemmas [float_simps] = f32_eq_def f64_eq_def

declare pmt_eq.simps(1,2) [simp del]

lemma pmt_eq_tensor [simp]:
  "pmt_eq (VTensor t ex es) (VTensor t' ex' es') \<longleftrightarrow> t = t' \<and> ex = ex' \<and> list_all2 pmt_eq es es'"
  by (auto simp: pmt_simps float_simps pmt_eq.simps)

lemma pmt_eq_map [simp]:
  "pmt_eq (VMap m) (VMap m') \<longleftrightarrow> length m = length m' \<and>
     (\<forall>e \<in> set m. \<exists>w. map_of m' (fst e) = Some w \<and> pmt_eq (snd e) w)"
  by (auto simp: pmt_simps float_simps pmt_eq.simps list_all_iff split: option.splits)

lemma pmt_eq_shape:
  "pmt_eq (VTensor t ex es) b \<Longrightarrow> \<exists>es'. b = VTensor t ex es' \<and> list_all2 pmt_eq es es'"
  "pmt_eq (VMap m) b \<Longrightarrow> \<exists>m'. b = VMap m'"
  "pmt_eq a (VTensor t ex es) \<Longrightarrow> \<exists>es'. a = VTensor t ex es'"
  "pmt_eq a (VMap m) \<Longrightarrow> \<exists>m'. a = VMap m'"
proof -
  show "pmt_eq (VTensor t ex es) b \<Longrightarrow> \<exists>es'. b = VTensor t ex es' \<and> list_all2 pmt_eq es es'"
    by (cases b) (auto simp: pmt_simps float_simps pmt_eq.simps)
  show "pmt_eq (VMap m) b \<Longrightarrow> \<exists>m'. b = VMap m'"
    by (cases b) (auto simp: pmt_simps float_simps pmt_eq.simps)
  show "pmt_eq a (VTensor t ex es) \<Longrightarrow> \<exists>es'. a = VTensor t ex es'"
    by (cases a) (auto simp: pmt_simps float_simps pmt_eq.simps)
  show "pmt_eq a (VMap m) \<Longrightarrow> \<exists>m'. a = VMap m'"
    by (cases a) (auto simp: pmt_simps float_simps pmt_eq.simps)
qed

lemma pmt_eq_refl_iff: "wf_pmt v \<Longrightarrow> pmt_eq v v \<longleftrightarrow> nan_free v"
proof (induction v rule: nan_free.induct)
  case (5 t ex es)
  then have ih: "\<forall>e \<in> set es. pmt_eq e e = nan_free e" by auto
  have "list_all2 pmt_eq es es \<longleftrightarrow> (\<forall>e \<in> set es. pmt_eq e e)"
    by (rule list_all2_same)
  then show ?case using ih by simp
next
  case (6 m)
  then have ih: "\<forall>e \<in> set m. pmt_eq (snd e) (snd e) = nan_free (snd e)" by auto
  have "\<forall>e \<in> set m. map_of m (fst e) = Some (snd e)" using 6 by auto
  then have "pmt_eq (VMap m) (VMap m) \<longleftrightarrow> (\<forall>e \<in> set m. pmt_eq (snd e) (snd e))"
    unfolding pmt_eq_map by (metis option.inject)
  then show ?case using ih by simp
qed (auto simp: pmt_simps float_simps)

lemma scalar_sym: "compare_scalar_eq a b \<Longrightarrow> same_type a b \<Longrightarrow> compare_scalar_eq b a"
  by (cases a; cases b; auto simp: pmt_simps float_simps)

lemma complex_sym: "complex_eq a b \<Longrightarrow> complex_eq b a"
  by (cases a; cases b; auto simp: pmt_simps float_simps)

lemma string_sym: "string_eq a b \<Longrightarrow> string_eq b a"
  by (cases a; cases b; auto simp: pmt_simps float_simps)

text \<open>Two maps of distinct keys that match entry by entry have the same keys.\<close>

lemma map_keys_eq:
  assumes "distinct (map fst m)" "distinct (map fst m')" "length m = length m'"
    "\<forall>e \<in> set m. \<exists>w. map_of m' (fst e) = Some w \<and> P (snd e) w"
  shows "fst ` set m = fst ` set m'"
proof (rule card_subset_eq)
  show "finite (fst ` set m')" by simp
  show "fst ` set m \<subseteq> fst ` set m'"
  proof
    fix k assume "k \<in> fst ` set m"
    then obtain e where "e \<in> set m" "k = fst e" by blast
    with assms(4) obtain w where "map_of m' k = Some w" by blast
    then show "k \<in> fst ` set m'" by (force dest: map_of_SomeD)
  qed
  show "card (fst ` set m) = card (fst ` set m')"
    using distinct_card [OF assms(1)] distinct_card [OF assms(2)] assms(3) by simp
qed

lemma map_match:
  assumes "distinct (map fst m)" "distinct (map fst m')" "length m = length m'"
    "\<forall>e \<in> set m. \<exists>w. map_of m' (fst e) = Some w \<and> P (snd e) w" "e' \<in> set m'"
  shows "\<exists>e \<in> set m. fst e = fst e' \<and> map_of m (fst e') = Some (snd e) \<and> P (snd e) (snd e')"
proof -
  have "fst e' \<in> fst ` set m" using map_keys_eq [OF assms(1-4)] assms(5) by auto
  then obtain e where e: "e \<in> set m" "fst e = fst e'" by force
  then have "map_of m (fst e') = Some (snd e)" using assms(1) by (metis map_of_is_SomeI prod.collapse)
  moreover have "map_of m' (fst e') = Some (snd e')" using assms(2,5) by (metis map_of_is_SomeI prod.collapse)
  moreover obtain w where "map_of m' (fst e) = Some w" "P (snd e) w" using assms(4) e(1) by blast
  ultimately show ?thesis using e by auto
qed

lemma pmt_eq_sym: "wf_pmt a \<Longrightarrow> wf_pmt b \<Longrightarrow> pmt_eq a b \<Longrightarrow> pmt_eq b a"
proof (induction a arbitrary: b)
  case (VTensor t ex es)
  from pmt_eq_shape(1) [OF VTensor.prems(3)] obtain es' where b: "b = VTensor t ex es'" "list_all2 pmt_eq es es'" by blast
  have "list_all2 pmt_eq es' es"
    unfolding list_all2_conv_all_nth
  proof (intro conjI allI impI)
    show "length es' = length es" using b(2) by (simp add: list_all2_lengthD)
    fix i assume i: "i < length es'"
    then have "es ! i \<in> set es" "es' ! i \<in> set es'" "pmt_eq (es ! i) (es' ! i)"
      using b(2) by (auto simp: list_all2_conv_all_nth)
    then show "pmt_eq (es' ! i) (es ! i)" using VTensor b(1) by auto
  qed
  then show ?case by (simp add: b(1))
next
  case (VMap m)
  from pmt_eq_shape(2) [OF VMap.prems(3)] obtain m' where b: "b = VMap m'" by blast
  note eq = VMap.prems(3) [unfolded b pmt_eq_map]
  have d: "distinct (map fst m)" "distinct (map fst m')" using VMap.prems b by simp_all
  have "\<exists>w. map_of m (fst e') = Some w \<and> pmt_eq (snd e') w" if e': "e' \<in> set m'" for e'
  proof -
    from map_match [OF d, of pmt_eq e'] eq e' obtain e where e: "e \<in> set m" "map_of m (fst e') = Some (snd e)"
      "pmt_eq (snd e) (snd e')" by blast
    have "wf_pmt (snd e)" "wf_pmt (snd e')" using VMap.prems b e(1) e' by auto
    moreover have "snd e \<in> Basic_BNFs.snds e" by (cases e) simp
    ultimately have "pmt_eq (snd e') (snd e)" using VMap.IH [OF e(1)] e(3) by blast
    with e(2) show ?thesis by blast
  qed
  then show ?case using eq by (simp add: b)
qed (auto simp: pmt_simps float_simps split: pmt.splits)


lemma scalar_trans: "compare_scalar_eq a b \<Longrightarrow> same_type a b \<Longrightarrow> compare_scalar_eq b c \<Longrightarrow> same_type b c \<Longrightarrow> compare_scalar_eq a c"
  by (cases a; cases b; auto simp: pmt_simps float_simps split: pmt.splits)

lemma complex_trans: "complex_eq a b \<Longrightarrow> complex_eq b c \<Longrightarrow> complex_eq a c"
  by (cases a; cases b; auto simp: pmt_simps float_simps split: pmt.splits)

lemma string_trans: "string_eq a b \<Longrightarrow> string_eq b c \<Longrightarrow> string_eq a c"
  by (cases a; cases b; auto simp: pmt_simps float_simps split: pmt.splits)

lemma pmt_eq_trans: "wf_pmt b \<Longrightarrow> pmt_eq a b \<Longrightarrow> pmt_eq b c \<Longrightarrow> pmt_eq a c"
proof (induction a arbitrary: b c)
  case (VTensor t ex es)
  from pmt_eq_shape(1) [OF VTensor.prems(2)] obtain es' where b: "b = VTensor t ex es'" "list_all2 pmt_eq es es'" by blast
  from pmt_eq_shape(1) [OF VTensor.prems(3) [unfolded b(1)]] obtain es'' where
    c: "c = VTensor t ex es''" "list_all2 pmt_eq es' es''" by blast
  have "list_all2 pmt_eq es es''"
    unfolding list_all2_conv_all_nth
  proof (intro conjI allI impI)
    show "length es = length es''" using b(2) c(2) by (simp add: list_all2_lengthD)
    fix i assume i: "i < length es"
    then have "es ! i \<in> set es" "es' ! i \<in> set es'" "pmt_eq (es ! i) (es' ! i)" "pmt_eq (es' ! i) (es'' ! i)"
      using b(2) c(2) by (auto simp: list_all2_conv_all_nth)
    then show "pmt_eq (es ! i) (es'' ! i)" using VTensor.IH VTensor.prems(1) b(1) by auto
  qed
  then show ?case by (simp add: c(1))
next
  case (VMap m)
  from pmt_eq_shape(2) [OF VMap.prems(2)] obtain m' where b: "b = VMap m'" by blast
  from pmt_eq_shape(2) [OF VMap.prems(3) [unfolded b(1)]] obtain m'' where c: "c = VMap m''" by blast
  note e1 = VMap.prems(2) [unfolded b pmt_eq_map] and e2 = VMap.prems(3) [unfolded b c pmt_eq_map]
  have "\<exists>w. map_of m'' (fst e) = Some w \<and> pmt_eq (snd e) w" if e: "e \<in> set m" for e
  proof -
    obtain w where w: "map_of m' (fst e) = Some w" "pmt_eq (snd e) w" using e1 e by blast
    then have in': "(fst e, w) \<in> set m'" by (simp add: map_of_SomeD)
    then obtain u where u: "map_of m'' (fst e) = Some u" "pmt_eq w u" using e2 by fastforce
    have "wf_pmt w" using VMap.prems(1) b in' by force
    moreover have "snd e \<in> Basic_BNFs.snds e" by (cases e) simp
    ultimately have "pmt_eq (snd e) u" using VMap.IH [OF e] w(2) u(2) by blast
    with u(1) show ?thesis by blast
  qed
  then show ?case using e1 e2 by (simp add: c)
qed (auto simp: pmt_simps float_simps split: pmt.splits)

text \<open>
  Equality of values is symmetric and transitive on well-formed values, and a value equals itself
  exactly when it holds no NaN; two values of different type tags are never equal.
\<close>

theorem value_equality:
  assumes "wf_pmt a" "wf_pmt b" "wf_pmt c"
  shows "(pmt_eq a a \<longleftrightarrow> nan_free a) \<and> (pmt_eq a b \<longleftrightarrow> pmt_eq b a) \<and>
    (pmt_eq a b \<and> pmt_eq b c \<longrightarrow> pmt_eq a c) \<and> (pmt_eq a b \<longrightarrow> same_type a b)"
proof -
  have "pmt_eq a b \<Longrightarrow> same_type a b" by (cases a) (auto simp: pmt_eq.simps)
  then show ?thesis using assms pmt_eq_refl_iff [of a] pmt_eq_sym [of a b] pmt_eq_sym [of b a] pmt_eq_trans [of b a c]
    by blast
qed

lemma value_equality_witness:
  "pmt_eq (VMap [(''a'', VFloat32 0), (''b'', VInt8 1)]) (VMap [(''b'', VInt8 1), (''a'', VFloat32 (2 ^ 31))]) \<and>
   \<not> pmt_eq (VFloat32 2143289344) (VFloat32 2143289344)"
proof -
  let ?a = "VMap [(''a'', VFloat32 0), (''b'', VInt8 1)]" and ?b = "VMap [(''b'', VInt8 1), (''a'', VFloat32 (2 ^ 31))]"
  have "wf_pmt ?a" "wf_pmt ?b" "wf_pmt (VFloat32 2143289344)" by simp_all
  note this = value_equality [OF this]
  moreover have "pmt_eq ?b ?a" by (simp add: pmt_simps float_simps f32_nan_def f32_rank_def)
  moreover have "\<not> nan_free (VFloat32 2143289344)" by (simp add: f32_nan_def)
  ultimately show ?thesis using value_equality [of "VFloat32 2143289344" "VFloat32 2143289344" "VFloat32 2143289344"] by simp
qed


section \<open>Hashing\<close>

text \<open>
  \<open>std::hash\<close> of the standard types is a parameter: \<open>hash_scalar\<close> of a real number, boolean or
  string (the real and imaginary parts of a complex number are hashed apart), \<open>hash_int\<close> of an \<open>int\<close>.
\<close>

record std_hash =
  hash_scalar :: "pmt \<Rightarrow> usize"
  hash_int :: "int \<Rightarrow> usize"

definition hashCombine :: "usize \<Rightarrow> usize \<Rightarrow> usize" where
  "hashCombine seed h = seed XOR (h + 0x9e3779b9 + push_bit 6 seed + drop_bit 2 seed)"

definition hashScalar :: "std_hash \<Rightarrow> pmt \<Rightarrow> usize" where
  "hashScalar H v = (case v of
       VComplexFloat32 x y \<Rightarrow> hashCombine (hash_scalar H (VFloat32 x)) (hash_scalar H (VFloat32 y))
     | VComplexFloat64 x y \<Rightarrow> hashCombine (hash_scalar H (VFloat64 x)) (hash_scalar H (VFloat64 y))
     | VMonostate \<Rightarrow> 0 | VTensor _ _ _ \<Rightarrow> 0 | VMap _ \<Rightarrow> 0
     | _ \<Rightarrow> hash_scalar H v)"

fun pmt_hash :: "std_hash \<Rightarrow> pmt \<Rightarrow> usize" where
  "pmt_hash H v =
     (let seed = hashCombine (hash_int H (int (container_tag (container_type_of v))))
                   (hash_int H (int (value_tag (value_type_of v)))) in
      if is_monostate v then seed
      else case v of
          VTensor t ex es \<Rightarrow>
            hashCombine seed
              (if t = TBool \<or> t = TString then 0
               else foldl (\<lambda>s e. hashCombine s (if t = TValue then pmt_hash H e else hashScalar H e))
                      (hash_scalar H (VUInt64 (of_nat (length es)))) es)
        | VMap m \<Rightarrow>
            hashCombine seed
              (sum_list (map (\<lambda>e. hashCombine (hash_scalar H (VString (fst e))) (pmt_hash H (snd e))) m))
        | _ \<Rightarrow> hashCombine seed (hashScalar H v))"

declare pmt_hash.simps [simp del]

text \<open>The contract of \<open>std::hash\<close>: equal scalars have equal hashes.\<close>

definition hash_respects :: "std_hash \<Rightarrow> bool" where
  "hash_respects H \<longleftrightarrow> (\<forall>a b. same_type a b \<longrightarrow> compare_scalar_eq a b \<longrightarrow> hash_scalar H a = hash_scalar H b)"

lemma same_type_seed:
  "same_type a b \<Longrightarrow> container_type_of a = container_type_of b \<and> value_type_of a = value_type_of b \<and> is_monostate a = is_monostate b"
  by (simp add: same_type_def is_monostate_def)

lemma hash_float:
  assumes "hash_respects H"
  shows "f32_eq x y \<Longrightarrow> hash_scalar H (VFloat32 x) = hash_scalar H (VFloat32 y)"
    "f64_eq u v \<Longrightarrow> hash_scalar H (VFloat64 u) = hash_scalar H (VFloat64 v)"
proof -
  have r: "same_type a b \<Longrightarrow> compare_scalar_eq a b \<Longrightarrow> hash_scalar H a = hash_scalar H b" for a b
    using assms by (simp add: hash_respects_def)
  show "f32_eq x y \<Longrightarrow> hash_scalar H (VFloat32 x) = hash_scalar H (VFloat32 y)"
    by (rule r) (simp_all add: same_type_def value_type_of_def container_type_of_def compare_scalar_eq_def)
  show "f64_eq u v \<Longrightarrow> hash_scalar H (VFloat64 u) = hash_scalar H (VFloat64 v)"
    by (rule r) (simp_all add: same_type_def value_type_of_def container_type_of_def compare_scalar_eq_def)
qed

lemma hashScalar_eq:
  assumes "hash_respects H" "pmt_eq a b" "container_type_of a \<noteq> Tensor" "container_type_of a \<noteq> Map"
  shows "hashScalar H a = hashScalar H b"
  using assms(2-)
  by (cases a) (auto simp: pmt_simps hashScalar_def dest: hash_float [OF assms(1)] intro!: arg_cong2 [where f = hashCombine] split: pmt.splits)

lemma foldl_combine:
  assumes "list_all2 R xs ys" "\<And>x y. x \<in> set xs \<Longrightarrow> y \<in> set ys \<Longrightarrow> R x y \<Longrightarrow> f x = g y"
  shows "foldl (\<lambda>s e. c s (f e)) s xs = foldl (\<lambda>s e. c s (g e)) s ys"
  using assms
proof (induction xs ys arbitrary: s rule: list_all2_induct)
  case (Cons x xs y ys)
  then have "f x = g y" by simp
  moreover have "foldl (\<lambda>s e. c s (f e)) (c s (f x)) xs = foldl (\<lambda>s e. c s (g e)) (c s (f x)) ys"
    using Cons by simp
  ultimately show ?case by simp
qed simp

text \<open>The order-independent sum over the entries of a map.\<close>

lemma sum_list_map_key:
  assumes "distinct (map fst m)"
  shows "sum_list (map f m) = (\<Sum>k \<in> fst ` set m. f (k, the (map_of m k)))"
proof -
  have "sum_list (map f m) = sum f (set m)" using assms by (simp add: sum_list_distinct_conv_sum_set distinct_map)
  also have "\<dots> = sum ((\<lambda>k. f (k, the (map_of m k))) \<circ> fst) (set m)"
    using assms by (intro sum.cong) (auto simp: split_beta)
  also have "\<dots> = (\<Sum>k \<in> fst ` set m. f (k, the (map_of m k)))"
    using assms by (intro sum.reindex [symmetric]) (simp add: distinct_map)
  finally show ?thesis .
qed

lemma hash_map_sum:
  assumes "distinct (map fst m)" "distinct (map fst m')" "length m = length m'"
    "\<forall>e \<in> set m. \<exists>w. map_of m' (fst e) = Some w \<and> P (snd e) w"
    "\<And>k v w. (k, v) \<in> set m \<Longrightarrow> (k, w) \<in> set m' \<Longrightarrow> P v w \<Longrightarrow> f (k, v) = (f (k, w) :: usize)"
  shows "sum_list (map f m) = sum_list (map f m')"
proof -
  have "(\<Sum>k \<in> fst ` set m. f (k, the (map_of m k))) = (\<Sum>k \<in> fst ` set m'. f (k, the (map_of m' k)))"
  proof (rule sum.cong)
    show "fst ` set m = fst ` set m'" by (rule map_keys_eq [OF assms(1-4)])
    fix k assume "k \<in> fst ` set m'"
    then obtain e' where "e' \<in> set m'" "k = fst e'" by blast
    from map_match [OF assms(1-4) this(1)] this obtain e where
      e: "e \<in> set m" "fst e = k" "map_of m k = Some (snd e)" "P (snd e) (snd e')" by blast
    have "map_of m' k = Some (snd e')" using assms(2) \<open>e' \<in> set m'\<close> \<open>k = fst e'\<close> by simp
    moreover have "f (k, snd e) = f (k, snd e')"
      using assms(5) e \<open>e' \<in> set m'\<close> \<open>k = fst e'\<close> by (metis prod.collapse)
    ultimately show "f (k, the (map_of m k)) = f (k, the (map_of m' k))" using e(3) by simp
  qed
  then show ?thesis by (simp add: sum_list_map_key [OF assms(1)] sum_list_map_key [OF assms(2)])
qed

text \<open>
  Equal values have equal hashes, as an unordered container needs: whatever the order in which the
  entries of a map are enumerated, for either zero of a floating-point number and through nested tensors
  and maps, provided the standard library's hash of scalars has that property.
\<close>

theorem hash_consistent:
  assumes "hash_respects H" "wf_pmt a" "wf_pmt b" "pmt_eq a b"
  shows "pmt_hash H a = pmt_hash H b"
  using assms(2-)
proof (induction a arbitrary: b)
  case (VTensor t ex es)
  from pmt_eq_shape(1) [OF VTensor.prems(3)] obtain es' where b: "b = VTensor t ex es'" "list_all2 pmt_eq es es'" by blast
  have len: "length es' = length es" using b(2) by (simp add: list_all2_lengthD)
  define g where "g e = (if t = TValue then pmt_hash H e else hashScalar H e)" for e
  have g: "g e = g e'" if "e \<in> set es" "e' \<in> set es'" "pmt_eq e e'" for e e'
  proof (cases "t = TValue")
    case True
    have "wf_pmt e" "wf_pmt e'" using VTensor.prems b(1) that by auto
    then show ?thesis using True VTensor.IH [OF that(1)] that(3) by (simp add: g_def)
  next
    case False
    then have "container_type_of e = plain_container t" using VTensor.prems that(1) by auto
    then have "container_type_of e \<noteq> Tensor" "container_type_of e \<noteq> Map" by (auto simp: plain_container_def)
    then show ?thesis using False hashScalar_eq [OF assms(1) that(3)] by (simp add: g_def)
  qed
  have "foldl (\<lambda>s e. hashCombine s (g e)) s es = foldl (\<lambda>s e. hashCombine s (g e)) s es'" for s
    by (rule foldl_combine [OF b(2) g])
  then show ?case
    by (simp add: b(1) pmt_hash.simps len is_monostate_def value_type_of_def container_type_of_def g_def Let_def)
next
  case (VMap m)
  from pmt_eq_shape(2) [OF VMap.prems(3)] obtain m' where b: "b = VMap m'" by blast
  note eq = VMap.prems(3) [unfolded b pmt_eq_map]
  have d: "distinct (map fst m)" "distinct (map fst m')" using VMap.prems b by simp_all
  let ?f = "\<lambda>e. hashCombine (hash_scalar H (VString (fst e))) (pmt_hash H (snd e))"
  have "?f (k, v) = ?f (k, w)" if "(k, v) \<in> set m" "(k, w) \<in> set m'" "pmt_eq v w" for k v w
  proof -
    have "wf_pmt v" "wf_pmt w" using VMap.prems b that by force+
    then show ?thesis using VMap.IH [OF that(1), of v w] that(3) by simp
  qed
  then have "sum_list (map ?f m) = sum_list (map ?f m')"
    using hash_map_sum [OF d, of pmt_eq ?f] eq by blast
  then show ?case by (simp add: b pmt_hash.simps is_monostate_def value_type_of_def container_type_of_def Let_def)
qed (auto simp: pmt_simps pmt_hash.simps hashScalar_def is_monostate_def Let_def dest: hash_float [OF assms(1)] intro!: arg_cong2 [where f = hashCombine] split: pmt.splits)

text \<open>A hash that respects equality: it forgets the scalars and keeps the lengths of strings.\<close>

definition coarse_hash :: std_hash where
  "coarse_hash = \<lparr>hash_scalar = (\<lambda>v. case v of VString s \<Rightarrow> of_nat (length s) | VInt8 x \<Rightarrow> of_nat (unat x) | _ \<Rightarrow> 7),
     hash_int = of_int\<rparr>"

lemma coarse_hash_respects: "hash_respects coarse_hash"
proof -
  have "hash_scalar coarse_hash a = hash_scalar coarse_hash b" if "same_type a b" "compare_scalar_eq a b" for a b
    using that by (cases a) (auto simp: pmt_simps coarse_hash_def split: pmt.splits)
  then show ?thesis by (simp add: hash_respects_def)
qed

lemma hash_consistent_witness:
  "pmt_hash coarse_hash (VMap [(''a'', VFloat32 0), (''b'', VInt8 1)]) =
   pmt_hash coarse_hash (VMap [(''b'', VInt8 1), (''a'', VFloat32 (2 ^ 31))])"
proof (rule hash_consistent [OF coarse_hash_respects])
  show "pmt_eq (VMap [(''a'', VFloat32 0), (''b'', VInt8 1)]) (VMap [(''b'', VInt8 1), (''a'', VFloat32 (2 ^ 31))])"
    by (simp add: pmt_simps float_simps f32_nan_def f32_rank_def)
qed simp_all


section \<open>Ordering\<close>

lemma int_order_simps [simp]:
  "int_order a b = Equivalent \<longleftrightarrow> a = b" "int_order a b = Less \<longleftrightarrow> a < b" "int_order a b = Greater \<longleftrightarrow> b < a"
  "int_order a b \<noteq> Unordered"
  by (auto simp: int_order_def)

lemma string_order_eq: "string_order a b = Equivalent \<longleftrightarrow> a = b"
  by (induction a b rule: string_order.induct) auto

lemma string_order_swap: "string_order a b = Less \<longleftrightarrow> string_order b a = Greater"
  by (induction a b rule: string_order.induct) auto

lemma string_order_total: "string_order a b \<noteq> Unordered"
  by (induction a b rule: string_order.induct) auto

lemma sint_eq_iff: "sint x = sint y \<longleftrightarrow> x = y" for x y :: "'a::len word"
  by (auto intro: signed_word_eqI)

lemma uint_eq_iff: "uint x = uint y \<longleftrightarrow> x = y" for x y :: "'a::len word"
  by (auto intro: unsigned_word_eqI)

lemma scalar_order_eq:
  "same_type a b \<Longrightarrow> container_type_of a = Scalar \<Longrightarrow> compare_scalar_order a b = Equivalent \<longleftrightarrow> compare_scalar_eq a b"
  by (cases a; cases b; simp add: pmt_simps compare_scalar_order_def f32_order_def f64_order_def float_simps
      sint_eq_iff uint_eq_iff)

lemma scalar_order_swap:
  "same_type a b \<Longrightarrow> container_type_of a = Scalar \<Longrightarrow> compare_scalar_order a b = Less \<longleftrightarrow> compare_scalar_order b a = Greater"
  by (cases a; cases b; simp add: pmt_simps compare_scalar_order_def f32_order_def f64_order_def float_simps)

lemma same_type_sym: "same_type a b \<longleftrightarrow> same_type b a"
  by (auto simp: same_type_def)

text \<open>
  The ordering of values: of two values one is less exactly when the other is greater, and for values of the same
  scalar or string type it is a total order up to NaN whose equivalence is equality; containers of the same type are unordered.
\<close>

theorem value_ordering:
  "(pmt_order a b = Less \<longleftrightarrow> pmt_order b a = Greater) \<and>
   (same_type a b \<and> container_type_of a \<in> {Scalar, Text} \<longrightarrow>
      (pmt_order a b = Equivalent \<longleftrightarrow> pmt_eq a b) \<and> (nan_free a \<and> nan_free b \<longrightarrow> pmt_order a b \<noteq> Unordered)) \<and>
   (same_type a b \<and> container_type_of a \<in> {Complex, Tensor, Map} \<longrightarrow> pmt_order a b = Unordered)"
proof (cases "same_type a b")
  case False
  then show ?thesis using same_type_sym [of a b] by (auto simp: pmt_order_def)
next
  case True
  then have t: "same_type b a" "container_type_of b = container_type_of a" by (auto simp: same_type_def)
  show ?thesis
  proof (cases "container_type_of a")
    case Scalar
    then have "pmt_eq a b \<longleftrightarrow> compare_scalar_eq a b" using True by (cases a) (auto simp: pmt_simps)
    moreover have "nan_free a \<and> nan_free b \<longrightarrow> compare_scalar_order a b \<noteq> Unordered"
      using True Scalar
      by (cases a; cases b; simp add: pmt_simps compare_scalar_order_def f32_order_def f64_order_def)
    ultimately show ?thesis using True t Scalar scalar_order_eq [OF True] scalar_order_swap [OF True]
      by (simp add: pmt_order_def)
  next
    case Text
    then obtain x y where "a = VString x" "b = VString y"
      using True by (cases a; cases b; simp add: pmt_simps)
    then show ?thesis using string_order_eq string_order_swap string_order_total
      by (simp add: pmt_order_def pmt_simps string_or_def)
  qed (use True t in \<open>simp_all add: pmt_order_def\<close>)
qed

lemma value_ordering_witness:
  "pmt_order (VInt8 (- 1)) (VInt8 1) = Less \<and> pmt_order (VInt8 1) (VInt8 (- 1)) = Greater"
  using value_ordering [of "VInt8 (- 1)" "VInt8 1"] by (simp add: pmt_order_def pmt_simps compare_scalar_order_def)

text \<open>
  Values of different types can be neither less nor greater than one another: the ordering of
  values of different types compares the element type only, so an integer and a tensor of such
  integers, or a map and a tensor of values, are ordered as equivalent though they are not equal.
\<close>

theorem ordering_ignores_container:
  "pmt_order (VInt32 x) (VTensor TInt32 ex es) = Equivalent \<and> \<not> pmt_eq (VInt32 x) (VTensor TInt32 ex es) \<and>
   pmt_order (VMap m) (VTensor TValue ex es) = Equivalent \<and> \<not> pmt_eq (VMap m) (VTensor TValue ex es)"
  by (simp add: pmt_order_def pmt_simps pmt_eq.simps)

section \<open>The life of a value object\<close>

text \<open>
  A value object holds a payload and the memory resource its strings, complex numbers, tensors and maps are
  allocated from; a moved-from object has no resource. \<open>NullResource\<close> is the dereference of that null pointer.
\<close>

record value_obj =
  vo_payload :: pmt
  vo_resource :: "nat option"

datatype value_error = NullResource

definition default_resource :: nat where
  "default_resource = 0"

definition ensure_resource :: "nat option \<Rightarrow> nat" where
  "ensure_resource r = (case r of None \<Rightarrow> default_resource | Some x \<Rightarrow> x)"

definition on_heap :: "pmt \<Rightarrow> bool" where
  "on_heap v \<longleftrightarrow> container_type_of v \<noteq> Scalar"

definition vo_new :: "pmt \<Rightarrow> nat option \<Rightarrow> value_obj" where
  "vo_new v r = \<lparr>vo_payload = v, vo_resource = Some (ensure_resource r)\<rparr>"

text \<open>The copy allocates from the given resource, else from the source's, else from the default.\<close>

definition vo_copy :: "value_obj \<Rightarrow> nat option \<Rightarrow> value_obj" where
  "vo_copy other r =
     \<lparr>vo_payload = vo_payload other,
      vo_resource = Some (ensure_resource (if r \<noteq> None then r else vo_resource other))\<rparr>"

text \<open>The move constructor: the new object and what is left of the source.\<close>

definition vo_move :: "value_obj \<Rightarrow> value_obj \<times> value_obj" where
  "vo_move other = (other, \<lparr>vo_payload = VMonostate, vo_resource = None\<rparr>)"

definition vo_swap :: "value_obj \<Rightarrow> value_obj \<Rightarrow> value_obj \<times> value_obj" where
  "vo_swap a b = (b, a)"

text \<open>Copy assignment of another object: a copy with the own resource is swapped in.\<close>

definition vo_copy_assign :: "value_obj \<Rightarrow> value_obj \<Rightarrow> value_obj" where
  "vo_copy_assign this other = (let tmp = vo_copy other (vo_resource this) in fst (vo_swap this tmp))"

definition vo_move_assign :: "value_obj \<Rightarrow> value_obj \<Rightarrow> value_obj \<times> value_obj" where
  "vo_move_assign this other =
     (this\<lparr>vo_payload := vo_payload other, vo_resource := vo_resource other\<rparr>, other\<lparr>vo_payload := VMonostate\<rparr>)"

text \<open>Assignment of a plain value: scalars are stored, everything else is allocated.\<close>

definition vo_assign :: "pmt \<Rightarrow> value_obj \<Rightarrow> value_error + value_obj" where
  "vo_assign v this =
     (if on_heap v \<and> vo_resource this = None then Inl NullResource else Inr (this\<lparr>vo_payload := v\<rparr>))"

definition vo_clear :: "value_obj \<Rightarrow> value_obj" where
  "vo_clear this = this\<lparr>vo_payload := VMonostate\<rparr>"

text \<open>\<open>value_or<T&&>\<close>: a matching payload is moved out and the object cleared.\<close>

definition vo_take :: "request \<Rightarrow> pmt \<Rightarrow> value_obj \<Rightarrow> pmt \<times> value_obj" where
  "vo_take r d this = (case get_if r (vo_payload this) of Some v \<Rightarrow> (v, vo_clear this) | None \<Rightarrow> (d, this))"

text \<open>What an object needs to be destroyed or copied: a payload on the heap has a resource.\<close>

definition vo_ok :: "value_obj \<Rightarrow> bool" where
  "vo_ok a \<longleftrightarrow> on_heap (vo_payload a) \<longrightarrow> vo_resource a \<noteq> None"

lemma not_on_heap_monostate [simp]: "\<not> on_heap VMonostate"
  by (simp add: on_heap_def container_type_of_def)

text \<open>
  Constructing, copying, moving, swapping, clearing and taking keep every payload on the heap
  paired with the resource it came from, and copies and moves hand on the exact value. A moved-from
  object takes scalars and copies, but assigning it a string, tensor or map dereferences its null
  resource, and move assignment hands the missing resource on to a live object.
\<close>

theorem value_object_life:
  assumes "vo_ok a" "vo_ok b"
  shows "vo_ok (vo_copy a r) \<and> vo_payload (vo_copy a r) = vo_payload a \<and>
    vo_ok (fst (vo_move a)) \<and> vo_ok (snd (vo_move a)) \<and> vo_payload (fst (vo_move a)) = vo_payload a \<and>
    vo_ok (vo_copy_assign b a) \<and> vo_payload (vo_copy_assign b a) = vo_payload a \<and>
    (vo_resource b \<noteq> None \<longrightarrow> vo_resource (vo_copy_assign b a) = vo_resource b) \<and>
    vo_ok (fst (vo_move_assign b a)) \<and> vo_ok (snd (vo_move_assign b a)) \<and>
    vo_payload (fst (vo_move_assign b a)) = vo_payload a \<and>
    vo_ok (vo_clear a) \<and> vo_ok (snd (vo_take q d a)) \<and>
    (\<forall>v. on_heap v \<longrightarrow> vo_assign v (snd (vo_move a)) = Inl NullResource) \<and>
    (\<forall>v. \<not> on_heap v \<longrightarrow> vo_assign v (snd (vo_move a)) = Inr ((snd (vo_move a))\<lparr>vo_payload := v\<rparr>)) \<and>
    vo_resource (fst (vo_move_assign b (snd (vo_move a)))) = None"
  using assms
  by (simp add: vo_ok_def vo_copy_def vo_move_def vo_copy_assign_def vo_swap_def vo_move_assign_def vo_clear_def
      vo_take_def vo_assign_def ensure_resource_def split: option.split)

lemma value_object_life_witness:
  "vo_assign (VString ''hello'') (snd (vo_move (vo_new (VString ''a'') None))) = Inl NullResource"
proof -
  have "vo_ok (vo_new (VString ''a'') None)" by (simp add: vo_ok_def vo_new_def)
  from value_object_life [OF this this] show ?thesis by (simp add: on_heap_def container_type_of_def)
qed


end
