(* ===== verification/TagMap.thy ===== *)
theory TagMap
  imports PmtValue
begin

text \<open>
  The tags of \<^verbatim>\<open>core/include/gnuradio-4.0/Tag.hpp\<close>: property maps and their recursive merge, the domain
  and name of a tag key with its canonical spelling, and the keys of the \<open>gr:\<close> domain. A lookup in a property
  map is \<open>map_of\<close>, \<open>map[key] = value\<close> is \<open>AList.update\<close>.
\<close>

section \<open>Tags\<close>

record gr_tag =
  tag_index :: nat
  tag_map :: property_map

definition tag_reset :: "gr_tag \<Rightarrow> gr_tag" where
  "tag_reset t = t\<lparr>tag_index := 0, tag_map := []\<rparr>"

text \<open>\<open>at\<close> throws \<open>std::out_of_range\<close> where this is \<open>None\<close>; \<open>get\<close> returns the option.\<close>

definition tag_get :: "string \<Rightarrow> gr_tag \<Rightarrow> pmt option" where
  "tag_get k t = map_of (tag_map t) k"

definition tag_insert_or_assign :: "string \<Rightarrow> pmt \<Rightarrow> gr_tag \<Rightarrow> gr_tag" where
  "tag_insert_or_assign k v t = t\<lparr>tag_map := AList.update k v (tag_map t)\<rparr>"

definition tag_put :: "property_map \<Rightarrow> string \<Rightarrow> pmt \<Rightarrow> property_map" where
  "tag_put m k v = AList.update k v m"

section \<open>Merging maps\<close>

text \<open>\<open>updateMaps\<close>, in the order in which the entries of the source are enumerated.\<close>

function updateMaps :: "property_map \<Rightarrow> property_map \<Rightarrow> property_map" where
  "updateMaps [] dest = dest"
| "updateMaps ((key, v) # src) dest =
     updateMaps src
       (case v of
          VMap nested \<Rightarrow>
            (case map_of dest key of
               Some (VMap dest_nested) \<Rightarrow> AList.update key (VMap (updateMaps nested dest_nested)) dest
             | Some _ \<Rightarrow> AList.update key v dest
             | None \<Rightarrow> AList.update key v dest)
        | _ \<Rightarrow> AList.update key v dest)"
  by pat_completeness auto
termination
  by (relation "measure (\<lambda>(s, d). size_list (size_prod (\<lambda>_. 0) size) s)") auto

text \<open>The value a key has after the merge.\<close>

definition merged :: "pmt option \<Rightarrow> pmt option \<Rightarrow> pmt option" where
  "merged s d = (case s of None \<Rightarrow> d
     | Some (VMap n) \<Rightarrow> (case d of Some (VMap dn) \<Rightarrow> Some (VMap (updateMaps n dn)) | _ \<Rightarrow> s)
     | Some v \<Rightarrow> s)"

lemma update_merged:
  "(case v of
      VMap nested \<Rightarrow>
        (case map_of dest key of
           Some (VMap dest_nested) \<Rightarrow> AList.update key (VMap (updateMaps nested dest_nested)) dest
         | Some _ \<Rightarrow> AList.update key v dest
         | None \<Rightarrow> AList.update key v dest)
    | _ \<Rightarrow> AList.update key v dest) = AList.update key (the (merged (Some v) (map_of dest key))) dest"
  by (auto simp: merged_def split: pmt.splits option.splits)

lemma merged_some: "merged (Some v) d = Some (the (merged (Some v) d))"
  by (auto simp: merged_def split: pmt.splits option.splits)

lemma updateMaps_Cons:
  "updateMaps ((k, v) # src) dest = updateMaps src (AList.update k (the (merged (Some v) (map_of dest k))) dest)"
  by (simp only: updateMaps.simps update_merged)

declare updateMaps.simps(2) [simp del]

lemma updateMaps_lookup:
  "distinct (map fst src) \<Longrightarrow> map_of (updateMaps src dest) k = merged (map_of src k) (map_of dest k)"
proof (induction src arbitrary: dest)
  case Nil
  then show ?case by (simp add: merged_def)
next
  case (Cons e src)
  obtain key v where e: "e = (key, v)" by (cases e)
  have none: "map_of src key = None" using Cons.prems e by (simp add: map_of_eq_None_iff)
  show ?case
  proof (cases "k = key")
    case True
    have "map_of (updateMaps (e # src) dest) k = merged None (Some (the (merged (Some v) (map_of dest key))))"
      using Cons True none by (simp add: e updateMaps_Cons update_conv)
    also have "\<dots> = merged (Some v) (map_of dest key)" using merged_some [of v "map_of dest key"] by (simp add: merged_def)
    finally show ?thesis using True by (simp add: e)
  next
    case False
    then show ?thesis using Cons by (simp add: e updateMaps_Cons update_conv)
  qed
qed

lemma updateMaps_distinct: "distinct (map fst dest) \<Longrightarrow> distinct (map fst (updateMaps src dest))"
  by (induction src arbitrary: dest) (auto simp: updateMaps_Cons distinct_update)

text \<open>Well-formed maps, whose values are well formed: the merge keeps them so.\<close>

definition wf_map :: "property_map \<Rightarrow> bool" where
  "wf_map m \<longleftrightarrow> wf_pmt (VMap m)"

lemma wf_map_Nil [simp]: "wf_map []"
  by (simp add: wf_map_def)

lemma wf_map_Cons: "wf_map ((k, v) # m) \<longleftrightarrow> k \<notin> fst ` set m \<and> wf_pmt v \<and> wf_map m"
  by (auto simp: wf_map_def)

lemma wf_map_distinct: "wf_map m \<Longrightarrow> distinct (map fst m)"
  by (simp add: wf_map_def)

lemma wf_map_update: "wf_map m \<Longrightarrow> wf_pmt v \<Longrightarrow> wf_map (AList.update k v m)"
proof (induction m)
  case (Cons e m)
  then show ?case by (cases e) (auto simp: wf_map_Cons dom_update image_iff)
qed (simp add: wf_map_Cons)

lemma updateMaps_stays:
  "(\<And>k v. (k, v) \<in> set src \<Longrightarrow> \<exists>w. map_of dest k = Some w \<and> merged (Some v) (Some w) = Some w) \<Longrightarrow>
   updateMaps src dest = dest"
proof (induction src)
  case (Cons e src)
  obtain k v where e: "e = (k, v)" by (cases e)
  obtain w where "map_of dest k = Some w" "merged (Some v) (Some w) = Some w" using Cons.prems e by force
  then have "AList.update k (the (merged (Some v) (map_of dest k))) dest = dest" by (simp add: update_triv)
  then show ?case using Cons by (simp add: e updateMaps_Cons)
qed simp

lemma merge_again:
  "wf_pmt v \<Longrightarrow> merged (Some v) (Some v) = Some v \<and> (\<forall>d w. merged (Some v) d = Some w \<longrightarrow> merged (Some v) (Some w) = Some w)"
proof (induction v)
  case (VMap n)
  have d: "distinct (map fst n)" using VMap.prems by simp
  have ih: "merged (Some v) (Some v) = Some v" "merged (Some v) d = Some w \<Longrightarrow> merged (Some v) (Some w) = Some w"
    if "(k, v) \<in> set n" for k v d w
    using VMap.IH [OF that, of v] VMap.prems that by auto
  have self: "updateMaps n n = n" using d ih(1) by (intro updateMaps_stays) auto
  have again: "updateMaps n (updateMaps n x) = updateMaps n x" for x
  proof (rule updateMaps_stays)
    fix k v assume kv: "(k, v) \<in> set n"
    then have "map_of (updateMaps n x) k = merged (Some v) (map_of x k)"
      using updateMaps_lookup [OF d, of x k] d by simp
    then show "\<exists>w. map_of (updateMaps n x) k = Some w \<and> merged (Some v) (Some w) = Some w"
      using merged_some [of v "map_of x k"] ih(2) [OF kv, of "map_of x k"] by metis
  qed
  show ?case using self again by (auto simp: merged_def split: option.splits pmt.splits)
qed (auto simp: merged_def)

text \<open>
  Merging property maps: after the merge a key of the source has the source's value, or the
  recursive merge when both sides hold a map there, every other key keeps its value; the result does
  not depend on the order in which the entries of the source are enumerated, stays well keyed, and
  merging the same source again changes nothing.
\<close>

theorem updateMaps_merges:
  assumes "wf_map src" "distinct (map fst dest)"
  shows "map_of (updateMaps src dest) k = merged (map_of src k) (map_of dest k) \<and>
    distinct (map fst (updateMaps src dest)) \<and>
    (\<forall>src'. distinct (map fst src') \<and> set src' = set src \<longrightarrow> map_of (updateMaps src' dest) = map_of (updateMaps src dest)) \<and>
    updateMaps src (updateMaps src dest) = updateMaps src dest"
proof -
  have d: "distinct (map fst src)" by (rule wf_map_distinct [OF assms(1)])
  have "map_of (updateMaps src' dest) = map_of (updateMaps src dest)"
    if "distinct (map fst src')" "set src' = set src" for src'
  proof
    fix x
    have "map_of src' x = map_of src x" using map_of_eqI [of src' src] that d by (metis map_of_inject_set)
    then show "map_of (updateMaps src' dest) x = map_of (updateMaps src dest) x"
      by (simp add: updateMaps_lookup that(1) d)
  qed
  moreover have "updateMaps src (updateMaps src dest) = updateMaps src dest"
  proof -
    have "wf_pmt (VMap src)" using assms(1) by (simp add: wf_map_def)
    from merge_again [OF this] have "merged (Some (VMap src)) (Some w) = Some w"
      if "merged (Some (VMap src)) d = Some w" for d w using that by blast
    from this [of "Some (VMap dest)" "VMap (updateMaps src dest)"] show ?thesis by (simp add: merged_def)
  qed
  ultimately show ?thesis using updateMaps_lookup [OF d] updateMaps_distinct [OF assms(2)] by blast
qed

lemma updateMaps_merges_witness:
  "map_of (updateMaps [(''m'', VMap [(''x'', VInt8 1)]), (''a'', VBool True)]
     [(''m'', VMap [(''x'', VInt8 0), (''y'', VInt8 2)])]) ''m'' = Some (VMap [(''x'', VInt8 1), (''y'', VInt8 2)])"
proof -
  have "wf_map [(''m'', VMap [(''x'', VInt8 1)]), (''a'', VBool True)]" by (simp add: wf_map_def)
  from updateMaps_merges [OF this, of "[(''m'', VMap [(''x'', VInt8 0), (''y'', VInt8 2)])]" "''m''"]
  show ?thesis by (simp add: merged_def updateMaps_Cons)
qed

section \<open>Tag keys\<close>

text \<open>The text before the first colon and the text after it.\<close>

definition domainOf :: "string \<Rightarrow> string" where
  "domainOf key = (if CHR '':'' \<in> set key then takeWhile (\<lambda>c. c \<noteq> CHR '':'') key else [])"

definition nameOf :: "string \<Rightarrow> string" where
  "nameOf key = (if CHR '':'' \<in> set key then tl (dropWhile (\<lambda>c. c \<noteq> CHR '':'') key) else key)"

fun canonicalKey :: "string \<Rightarrow> string" where
  "canonicalKey (c # key) = (if c = CHR '':'' then key else c # key)"
| "canonicalKey [] = []"

definition starts_with_colon :: "string \<Rightarrow> bool" where
  "starts_with_colon key \<longleftrightarrow> (case key of c # _ \<Rightarrow> c = CHR '':'' | [] \<Rightarrow> False)"

text \<open>\<open>try_emplace\<close> keeps the value of a key that is present.\<close>

definition try_emplace :: "string \<Rightarrow> pmt \<Rightarrow> property_map \<Rightarrow> property_map" where
  "try_emplace k v m = (if map_of m k = None then AList.update k v m else m)"

definition canonicalizeKeys :: "property_map \<Rightarrow> property_map" where
  "canonicalizeKeys m =
     (if list_all (\<lambda>e. \<not> starts_with_colon (fst e)) m then m
      else let moved = map (\<lambda>e. (canonicalKey (fst e), snd e)) (filter (\<lambda>e. starts_with_colon (fst e)) m);
               kept = filter (\<lambda>e. \<not> starts_with_colon (fst e)) m
           in foldl (\<lambda>acc e. try_emplace (fst e) (snd e) acc) kept moved)"

text \<open>\<open>DefaultTag == string\<close>.\<close>

definition default_tag_is :: "string \<Rightarrow> string \<Rightarrow> bool" where
  "default_tag_is key str \<longleftrightarrow> canonicalKey str = ''gr:'' @ key"

lemma try_emplace_lookup: "map_of (try_emplace k v m) x = (case map_of m x of Some w \<Rightarrow> Some w | None \<Rightarrow> if x = k then Some v else None)"
  by (auto simp: try_emplace_def update_conv split: option.split)

lemma foldl_emplace_lookup:
  "distinct (map fst moved) \<Longrightarrow>
   map_of (foldl (\<lambda>acc e. try_emplace (fst e) (snd e) acc) kept moved) x =
   (case map_of kept x of Some w \<Rightarrow> Some w | None \<Rightarrow> map_of moved x)"
proof (induction moved arbitrary: kept)
  case (Cons e moved)
  have none: "map_of moved (fst e) = None" using Cons.prems by (simp add: map_of_eq_None_iff)
  show ?case using Cons none by (cases e) (auto simp: try_emplace_lookup split: option.split)
qed (simp split: option.split)

lemma starts_with_colon_iff: "starts_with_colon k \<longleftrightarrow> (\<exists>r. k = CHR '':'' # r)"
  by (auto simp: starts_with_colon_def split: list.split)

lemma map_of_kept:
  "map_of (filter (\<lambda>e. \<not> starts_with_colon (fst e)) m) x = (if starts_with_colon x then None else map_of m x)"
  by (induction m) auto

lemma map_of_moved:
  "map_of (map (\<lambda>e. (canonicalKey (fst e), snd e)) (filter (\<lambda>e. starts_with_colon (fst e)) m)) x = map_of m (CHR '':'' # x)"
proof (induction m)
  case (Cons e m)
  show ?case
  proof (cases "starts_with_colon (fst e)")
    case True
    then obtain r where "fst e = CHR '':'' # r" by (auto simp: starts_with_colon_iff)
    with Cons True show ?thesis by (cases e) simp
  next
    case False
    then have "fst e \<noteq> CHR '':'' # x" by (auto simp: starts_with_colon_iff)
    with Cons False show ?thesis by (cases e) simp
  qed
qed simp

lemma distinct_moved:
  "distinct (map fst m) \<Longrightarrow>
   distinct (map fst (map (\<lambda>e. (canonicalKey (fst e), snd e)) (filter (\<lambda>e. starts_with_colon (fst e)) m)))"
proof (induction m)
  case (Cons e m)
  have "canonicalKey (fst e) \<noteq> canonicalKey (fst e')"
    if "starts_with_colon (fst e)" "e' \<in> set m" "starts_with_colon (fst e')" for e'
  proof
    assume "canonicalKey (fst e) = canonicalKey (fst e')"
    then have "fst e = fst e'" using that by (auto simp: starts_with_colon_iff)
    then show False using Cons.prems that(2) by auto
  qed
  then show ?case using Cons by auto
qed simp

lemma key_parts:
  assumes "CHR '':'' \<notin> set d"
  shows "domainOf (d @ CHR '':'' # n) = d" "nameOf (d @ CHR '':'' # n) = n"
  using assms by (induction d) (auto simp: domainOf_def nameOf_def split: if_splits)

lemma key_split: "CHR '':'' \<in> set k \<Longrightarrow> k = domainOf k @ CHR '':'' # nameOf k"
proof -
  assume "CHR '':'' \<in> set k"
  then obtain d n where k: "k = d @ CHR '':'' # n" and "CHR '':'' \<notin> set d" by (auto dest: split_list_first)
  then show ?thesis by (simp add: key_parts)
qed

lemma canonicalKey_parts:
  assumes "CHR '':'' \<notin> set (nameOf k)"
  shows "domainOf (canonicalKey k) = domainOf k \<and> nameOf (canonicalKey k) = nameOf k"
proof (cases "starts_with_colon k")
  case True
  then obtain r where k: "k = CHR '':'' # r" by (auto simp: starts_with_colon_iff)
  have p: "domainOf k = []" "nameOf k = r" using key_parts [of "[]" r] by (simp_all add: k)
  with assms have "CHR '':'' \<notin> set r" by simp
  then show ?thesis using p by (simp add: k domainOf_def nameOf_def)
next
  case False
  then have "canonicalKey k = k" by (cases k) (auto simp: starts_with_colon_iff)
  then show ?thesis by simp
qed

lemma canonicalizeKeys_map:
  assumes "distinct (map fst m)"
  shows "map_of (canonicalizeKeys m) k =
      (case (if starts_with_colon k then None else map_of m k) of Some v \<Rightarrow> Some v | None \<Rightarrow> map_of m (CHR '':'' # k))"
proof (cases "list_all (\<lambda>e. \<not> starts_with_colon (fst e)) m")
  case True
  then have none: "map_of m x = None" if "starts_with_colon x" for x
    using that by (auto simp: map_of_eq_None_iff list_all_iff)
  have "starts_with_colon (CHR '':'' # k)" by (simp add: starts_with_colon_iff)
  then show ?thesis using True none [of k] none [of "CHR '':'' # k"]
    by (simp add: canonicalizeKeys_def split: option.split)
next
  case False
  then show ?thesis
    by (simp add: canonicalizeKeys_def foldl_emplace_lookup [OF distinct_moved [OF assms]] map_of_kept map_of_moved
        split: option.split)
qed

text \<open>
  Canonical keys: a key without a leading colon keeps its value, and takes the value of its spelling with a
  leading colon only when it has none of its own; no spelling with exactly one leading colon remains. A key
  is the domain, a colon and the name, and its canonical spelling has the same domain and name unless
  the name itself holds a colon.
\<close>

theorem canonicalizeKeys_lookup:
  assumes "distinct (map fst m)"
  shows "map_of (canonicalizeKeys m) k =
      (case (if starts_with_colon k then None else map_of m k) of Some v \<Rightarrow> Some v | None \<Rightarrow> map_of m (CHR '':'' # k)) \<and>
    (CHR '':'' \<in> set k \<longrightarrow> k = domainOf k @ CHR '':'' # nameOf k) \<and>
    (CHR '':'' \<notin> set (nameOf k) \<longrightarrow> domainOf (canonicalKey k) = domainOf k \<and> nameOf (canonicalKey k) = nameOf k)"
  using canonicalizeKeys_map [OF assms] key_split canonicalKey_parts by blast

lemma canonicalizeKeys_lookup_witness:
  "map_of (canonicalizeKeys [('':a'', VInt8 1), (''a'', VInt8 2), ('':b'', VInt8 3)]) ''b'' = Some (VInt8 3) \<and>
   nameOf (canonicalKey '':b'') = ''b''"
proof -
  have "distinct (map fst [('':a'', VInt8 1), (''a'', VInt8 2), ('':b'', VInt8 3)])" by simp
  from canonicalizeKeys_lookup [OF this, of "''b''"] canonicalizeKeys_lookup [of "[]" "'':b''"] show ?thesis
    by (simp add: starts_with_colon_def nameOf_def)
qed


end
