(* ===== verification/TriggerMatcher.thy ===== *)
theory TriggerMatcher
  imports TagMap
begin

text \<open>
  The trigger filter of \<^verbatim>\<open>core/include/gnuradio-4.0/TriggerMatcher.hpp\<close>: parsing of a filter such as
  \<open>[name/context, name/context]\<close> into the state map that belongs to the caller, and the matching of
  tags with that state. The state is a property map as in the code, so that it can hold anything: every
  access is the checked one of the code, with the entry that \<open>map[key]\<close> inserts for a missing key.
\<close>

section \<open>Parsing a filter\<close>

datatype match_result = Matching | NotMatching | Ignore

definition is_blank :: "char \<Rightarrow> bool" where
  "is_blank c \<longleftrightarrow> of_char c \<in> {9, 10, 11, 12, 13, 32 :: nat}"

definition trim :: "string \<Rightarrow> string" where
  "trim str = rev (dropWhile is_blank (rev (dropWhile is_blank str)))"

definition caret :: "string \<Rightarrow> bool" where
  "caret s \<longleftrightarrow> (case s of c # _ \<Rightarrow> c = CHR ''^'' | [] \<Rightarrow> False)"

text \<open>The text before the first occurrence of a character and the text behind it.\<close>

fun split_first :: "char \<Rightarrow> string \<Rightarrow> (string \<times> string) option" where
  "split_first c [] = None"
| "split_first c (x # xs) = (if x = c then Some ([], xs)
     else case split_first c xs of None \<Rightarrow> None | Some (a, b) \<Rightarrow> Some (x # a, b))"

text \<open>
  A parsed trigger: name, whether the end of its match counts, and the same for the context. \<open>None\<close>
  stands for the exception on a second separator. Without a separator the context flag keeps its value.
\<close>

record trigger =
  trig_name :: string
  trig_nameEnds :: bool
  trig_ctx :: string
  trig_ctxEnds :: bool

definition strip_caret :: "string \<Rightarrow> string" where
  "strip_caret s = (if caret s then trim (tl s) else s)"

definition parse :: "string \<Rightarrow> bool \<Rightarrow> trigger option" where
  "parse trigger ctxEnds =
     (case split_first CHR ''/'' trigger of
        Some (a, b) \<Rightarrow>
          if split_first CHR ''/'' b \<noteq> None then None
          else let name = trim a; ctx = trim b
               in Some \<lparr>trig_name = strip_caret name, trig_nameEnds = caret name,
                        trig_ctx = strip_caret ctx, trig_ctxEnds = caret ctx\<rparr>
      | None \<Rightarrow>
          let name = trim trigger
          in Some \<lparr>trig_name = strip_caret name, trig_nameEnds = caret name, trig_ctx = [], trig_ctxEnds = ctxEnds\<rparr>)"

section \<open>The filter state\<close>

text \<open>\<open>state[key]\<close>: the entry and the map with a monostate inserted for a missing key.\<close>

definition st_sub :: "string \<Rightarrow> property_map \<Rightarrow> property_map" where
  "st_sub k st = (if map_of st k = None then AList.update k VMonostate st else st)"

definition st_bool :: "property_map \<Rightarrow> string \<Rightarrow> bool option" where
  "st_bool st k = (case map_of st k of Some (VBool b) \<Rightarrow> Some b | _ \<Rightarrow> None)"

text \<open>\<open>value_or(std::string_view{})\<close>, whose null data marks a value that is not a string.\<close>

definition st_string :: "property_map \<Rightarrow> string \<Rightarrow> string option" where
  "st_string st k = (case map_of st k of Some (VString s) \<Rightarrow> Some s | _ \<Rightarrow> None)"

definition st_set :: "string \<Rightarrow> pmt \<Rightarrow> property_map \<Rightarrow> property_map" where
  "st_set k v st = AList.update k v st"

definition st_reset :: "property_map \<Rightarrow> property_map" where
  "st_reset st =
     st_set ''waitingForStopNonMatch'' (VBool False)
       (st_set ''waitingForStartNonMatch'' (VBool False)
         (st_set ''triggerActive'' (VBool False) st))"

definition isSingleTrigger :: "property_map \<Rightarrow> bool" where
  "isSingleTrigger st =
     (case st_bool st ''startDefined'' of None \<Rightarrow> False
      | Some a \<Rightarrow> (case st_bool st ''stopDefined'' of None \<Rightarrow> False | Some b \<Rightarrow> a \<noteq> b))"

definition default_config :: "string \<Rightarrow> property_map \<Rightarrow> property_map" where
  "default_config criteria st =
     fold (\<lambda>(k, v). st_set k v)
       [(''filter'', VString criteria),
        (''startDefined'', VBool False), (''stopDefined'', VBool False),
        (''startTriggerName'', VString []), (''startCtx'', VString []),
        (''stopTriggerName'', VString []), (''stopCtx'', VString []),
        (''startTriggerNameEnds'', VBool False), (''startCtxEnds'', VBool False),
        (''stopTriggerNameEnds'', VBool False), (''stopCtxEnds'', VBool False)] st"

text \<open>The criteria without surrounding brackets; \<open>None\<close> is the exception on an unmatched one.\<close>

definition strip_brackets :: "string \<Rightarrow> string option" where
  "strip_brackets s =
     (if hd s = CHR ''['' \<and> last s = CHR '']'' then Some (take (length s - 2) (tl s))
      else if (hd s = CHR ''['') \<noteq> (last s = CHR '']'') then None
      else Some s)"

definition split_range :: "string \<Rightarrow> string \<times> string" where
  "split_range s = (case split_first CHR '','' s of Some (a, b) \<Rightarrow> (trim a, trim b) | None \<Rightarrow> (s, []))"

text \<open>One half of a filter stored under its four keys; \<open>None\<close> is the exception of \<open>parse\<close>.\<close>

definition store_part :: "string \<Rightarrow> string \<Rightarrow> property_map \<Rightarrow> property_map option" where
  "store_part prefix part st =
     (if part = [] then
        Some (st_set (prefix @ ''Ctx'') (VString []) (st_set (prefix @ ''TriggerName'') (VString []) st))
      else case parse part False of
          None \<Rightarrow> None
        | Some t \<Rightarrow> Some (
            st_set (prefix @ ''Defined'') (VBool True)
              (st_set (prefix @ ''Ctx'') (VString (trig_ctx t))
                (st_set (prefix @ ''TriggerName'') (VString (trig_name t))
                  (st_set (prefix @ ''CtxEnds'') (VBool (trig_ctxEnds t))
                    (st_set (prefix @ ''TriggerNameEnds'') (VBool (trig_nameEnds t)) st))))))"

definition swap_keys :: "string \<Rightarrow> string \<Rightarrow> property_map \<Rightarrow> property_map" where
  "swap_keys a b st =
     (case (map_of st a, map_of st b) of
        (Some x, Some y) \<Rightarrow> st_set b x (st_set a y st)
      | _ \<Rightarrow> st)"

text \<open>
  The steps behind the parsed halves: a filter with only a stop trigger is turned into one with only a
  start trigger, and so is one whose halves are the same.
\<close>

definition normalise :: "property_map \<Rightarrow> property_map" where
  "normalise st =
     (let st1 = (if isSingleTrigger st \<and> st_bool st ''stopDefined'' = Some True
                 then st_set ''stopCtx'' (VString []) (st_set ''stopTriggerName'' (VString [])
                        (swap_keys ''startCtx'' ''stopCtx'' (swap_keys ''startTriggerName'' ''stopTriggerName'' st)))
                 else st);
          st2 = (if st_string st1 ''startTriggerName'' = st_string st1 ''stopTriggerName'' \<and>
                    st_string st1 ''startCtx'' = st_string st1 ''stopCtx''
                 then st_set ''stopCtx'' (VString []) (st_set ''stopTriggerName'' (VString [])
                        (st_set ''stopDefined'' (VBool False) (st_set ''startDefined'' (VBool True) st1)))
                 else st1)
      in st_set ''isSingleTrigger'' (VBool (isSingleTrigger st2)) st2)"

text \<open>\<open>verifyFilterState\<close>: the state it leaves and whether it threw.\<close>

definition verifyFilterState :: "string \<Rightarrow> property_map \<Rightarrow> property_map \<times> bool" where
  "verifyFilterState criteria st =
     (if map_of st ''filter'' \<noteq> None \<and> (case st_string st ''filter'' of Some s \<Rightarrow> s | None \<Rightarrow> []) = criteria
      then (st, False)
      else
        let st0 = st_reset (default_config criteria st) in
        if criteria = [] then (st0, False)
        else case strip_brackets criteria of
            None \<Rightarrow> (st0, True)
          | Some c \<Rightarrow>
              (let (startPart, stopPart) = split_range c in
               case store_part ''start'' startPart st0 of
                 None \<Rightarrow> (st0, True)
               | Some st1 \<Rightarrow>
                   (case store_part ''stop'' stopPart st1 of
                      None \<Rightarrow> (st1, True)
                    | Some st2 \<Rightarrow> (normalise st2, False))))"

section \<open>Matching a tag\<close>

text \<open>\<open>hay.contains(needle)\<close>.\<close>

fun starts_with :: "string \<Rightarrow> string \<Rightarrow> bool" where
  "starts_with s [] = True"
| "starts_with [] (y # ys) = False"
| "starts_with (x # xs) (y # ys) = (x = y \<and> starts_with xs ys)"

fun contains :: "string \<Rightarrow> string \<Rightarrow> bool" where
  "contains [] needle = (needle = [])"
| "contains (x # xs) needle = (starts_with (x # xs) needle \<or> contains xs needle)"

definition tag_string :: "string \<Rightarrow> gr_tag \<Rightarrow> string" where
  "tag_string k t = (case map_of (tag_map t) k of Some (VString s) \<Rightarrow> s | _ \<Rightarrow> [])"

definition st_flag :: "property_map \<Rightarrow> string \<Rightarrow> bool" where
  "st_flag st k = (st_bool st k = Some True)"

text \<open>\<open>startTriggerNameEnds || startCtxEnds\<close>, false unless both are booleans.\<close>

definition ends_flag :: "string \<Rightarrow> property_map \<Rightarrow> bool" where
  "ends_flag prefix st =
     (case st_bool st (prefix @ ''TriggerNameEnds'') of None \<Rightarrow> False
      | Some a \<Rightarrow> (case st_bool st (prefix @ ''CtxEnds'') of None \<Rightarrow> False | Some b \<Rightarrow> a \<or> b))"

text \<open>The match of a verified state, once its values have the types the matcher expects.\<close>

definition match_single :: "string \<Rightarrow> string \<Rightarrow> string \<Rightarrow> string \<Rightarrow> bool" where
  "match_single startName startCtx name ctx \<longleftrightarrow>
     (startName = [] \<or> name = startName) \<and> (startCtx = [] \<or> contains startCtx ctx)"

definition match_pair :: "string \<Rightarrow> string \<Rightarrow> string \<Rightarrow> string \<Rightarrow> bool" where
  "match_pair wantName wantCtx name ctx \<longleftrightarrow>
     (wantName = [] \<or> name = wantName) \<and> (wantCtx = [] \<or> contains ctx wantCtx)"

definition sub_ends :: "string \<Rightarrow> property_map \<Rightarrow> property_map" where
  "sub_ends prefix st = st_sub (prefix @ ''CtxEnds'') (st_sub (prefix @ ''TriggerNameEnds'') st)"

definition match_range :: "bool \<Rightarrow> string \<Rightarrow> string \<Rightarrow> string \<Rightarrow> string \<Rightarrow> string \<Rightarrow> string \<Rightarrow>
    property_map \<Rightarrow> property_map \<times> match_result" where
  "match_range active startName startCtx stopName stopCtx name ctx st =
     (let sta = (if active then st_sub ''waitingForStartNonMatch'' st else st) in
      if \<not> active \<or> st_flag sta ''waitingForStartNonMatch''
      then if match_pair startName startCtx name ctx
           then let st1 = sub_ends ''start'' (st_set ''triggerActive'' (VBool True) sta);
                    st2 = st_set ''waitingForStartNonMatch'' (VBool (ends_flag ''start'' st1)) st1
                in (st2, if st_flag st2 ''waitingForStartNonMatch'' then Ignore else Matching)
           else let stb = st_sub ''waitingForStartNonMatch'' sta in
                if st_flag stb ''waitingForStartNonMatch''
                then (st_set ''waitingForStartNonMatch'' (VBool False) stb, Matching)
                else (stb, Ignore)
      else let stop = match_pair stopName stopCtx name ctx;
               stb = (if stop then sta else st_sub ''waitingForStopNonMatch'' sta) in
           if stop \<or> st_flag stb ''waitingForStopNonMatch''
           then let st1 = sub_ends ''stop'' stb;
                    st2 = st_set ''waitingForStopNonMatch'' (VBool (ends_flag ''stop'' st1)) st1
                in if \<not> st_flag st2 ''waitingForStopNonMatch'' then (st_reset st2, NotMatching)
                   else if \<not> stop then (st_reset st2, NotMatching)
                   else (st2, Ignore)
           else (stb, Ignore))"

text \<open>\<open>filter\<close>: the new state and the result; \<open>None\<close> is an exception.\<close>

definition trigger_filter :: "string \<Rightarrow> gr_tag \<Rightarrow> property_map \<Rightarrow> property_map \<times> match_result option" where
  "trigger_filter criteria t st =
     (let (st0, threw) = verifyFilterState criteria st in
      if threw then (st0, None)
      else
        let st1 = st_sub ''stopDefined'' (st_sub ''startDefined'' st0) in
        case (st_bool st1 ''startDefined'', st_bool st1 ''stopDefined'') of
          (Some startDefined, Some stopDefined) \<Rightarrow>
            if \<not> startDefined \<and> \<not> stopDefined \<or> tag_map t = [] then (st1, Some Ignore)
            else
              let st2 = fold st_sub [''triggerActive'', ''startTriggerName'', ''startCtx'', ''stopTriggerName'', ''stopCtx''] st1 in
              (case (st_bool st2 ''triggerActive'', st_string st2 ''startTriggerName'', st_string st2 ''startCtx'',
                     st_string st2 ''stopTriggerName'', st_string st2 ''stopCtx'') of
                 (Some active, Some startName, Some startCtx, Some stopName, Some stopCtx) \<Rightarrow>
                   (let name = tag_string ''gr:trigger_name'' t; ctx = tag_string ''gr:context'' t in
                    if isSingleTrigger st2 \<and> match_single startName startCtx name ctx
                    then (let st3 = sub_ends ''start'' st2
                          in (st_set ''waitingForStartNonMatch'' (VBool (ends_flag ''start'' st3)) st3, Some Matching))
                    else if startDefined \<and> stopDefined
                    then (let (st3, r) = match_range active startName startCtx stopName stopCtx name ctx st2
                          in (st3, Some r))
                    else (st2, Some Ignore))
               | _ \<Rightarrow> (st2, Some Ignore))
        | _ \<Rightarrow> (st1, Some Ignore))"

section \<open>What a verified state represents\<close>

text \<open>
  The filter a verified state holds, and its three flags. \<open>represents\<close> lists the entries of the
  state; from a state that represents a filter the matcher depends on nothing else.
\<close>

record config =
  c_start :: trigger
  c_stop :: trigger
  c_startDefined :: bool
  c_stopDefined :: bool

record phase =
  p_active :: bool
  p_waitStart :: bool
  p_waitStop :: bool

definition represents :: "string \<Rightarrow> config \<Rightarrow> phase \<Rightarrow> property_map \<Rightarrow> bool" where
  "represents criteria c p st \<longleftrightarrow>
     map_of st ''filter'' = Some (VString criteria) \<and>
     map_of st ''startDefined'' = Some (VBool (c_startDefined c)) \<and>
     map_of st ''stopDefined'' = Some (VBool (c_stopDefined c)) \<and>
     map_of st ''startTriggerName'' = Some (VString (trig_name (c_start c))) \<and>
     map_of st ''startCtx'' = Some (VString (trig_ctx (c_start c))) \<and>
     map_of st ''stopTriggerName'' = Some (VString (trig_name (c_stop c))) \<and>
     map_of st ''stopCtx'' = Some (VString (trig_ctx (c_stop c))) \<and>
     map_of st ''startTriggerNameEnds'' = Some (VBool (trig_nameEnds (c_start c))) \<and>
     map_of st ''startCtxEnds'' = Some (VBool (trig_ctxEnds (c_start c))) \<and>
     map_of st ''stopTriggerNameEnds'' = Some (VBool (trig_nameEnds (c_stop c))) \<and>
     map_of st ''stopCtxEnds'' = Some (VBool (trig_ctxEnds (c_stop c))) \<and>
     map_of st ''triggerActive'' = Some (VBool (p_active p)) \<and>
     map_of st ''waitingForStartNonMatch'' = Some (VBool (p_waitStart p)) \<and>
     map_of st ''waitingForStopNonMatch'' = Some (VBool (p_waitStop p))"

definition ends :: "trigger \<Rightarrow> bool" where
  "ends t \<longleftrightarrow> trig_nameEnds t \<or> trig_ctxEnds t"

text \<open>The matcher as a machine over the three flags.\<close>

definition machine :: "config \<Rightarrow> string \<Rightarrow> string \<Rightarrow> phase \<Rightarrow> phase \<times> match_result" where
  "machine c name ctx p =
     (let start = c_start c; stop = c_stop c in
      if c_startDefined c \<noteq> c_stopDefined c
      then if match_single (trig_name start) (trig_ctx start) name ctx
           then (p\<lparr>p_waitStart := ends start\<rparr>, Matching) else (p, Ignore)
      else if \<not> c_startDefined c then (p, Ignore)
      else if \<not> p_active p \<or> p_waitStart p
      then if match_pair (trig_name start) (trig_ctx start) name ctx
           then (p\<lparr>p_active := True, p_waitStart := ends start\<rparr>, if ends start then Ignore else Matching)
           else if p_waitStart p then (p\<lparr>p_waitStart := False\<rparr>, Matching) else (p, Ignore)
      else if match_pair (trig_name stop) (trig_ctx stop) name ctx
      then if ends stop then (p\<lparr>p_waitStop := True\<rparr>, Ignore)
           else (\<lparr>p_active = False, p_waitStart = False, p_waitStop = False\<rparr>, NotMatching)
      else if p_waitStop p then (\<lparr>p_active = False, p_waitStart = False, p_waitStop = False\<rparr>, NotMatching)
      else (p, Ignore))"

named_theorems state_simps \<open>reading and writing a filter state\<close>

lemma set_lookup [state_simps]: "map_of (st_set k v st) x = (if x = k then Some v else map_of st x)"
  by (simp add: st_set_def update_conv)

lemma sub_present [state_simps]: "map_of st k = Some v \<Longrightarrow> st_sub k st = st"
  by (simp add: st_sub_def)

lemma reset_lookup [state_simps]:
  "map_of (st_reset st) k =
     (if k \<in> {''triggerActive'', ''waitingForStartNonMatch'', ''waitingForStopNonMatch''} then Some (VBool False) else map_of st k)"
  by (simp add: st_reset_def state_simps)

lemmas [state_simps] = st_bool_def st_string_def st_flag_def isSingleTrigger_def ends_flag_def sub_ends_def

lemma representsD:
  assumes "represents criteria c p st"
  shows "map_of st ''filter'' = Some (VString criteria)"
    "map_of st ''startDefined'' = Some (VBool (c_startDefined c))" "map_of st ''stopDefined'' = Some (VBool (c_stopDefined c))"
    "map_of st ''startTriggerName'' = Some (VString (trig_name (c_start c)))" "map_of st ''startCtx'' = Some (VString (trig_ctx (c_start c)))"
    "map_of st ''stopTriggerName'' = Some (VString (trig_name (c_stop c)))" "map_of st ''stopCtx'' = Some (VString (trig_ctx (c_stop c)))"
    "map_of st ''startTriggerNameEnds'' = Some (VBool (trig_nameEnds (c_start c)))" "map_of st ''startCtxEnds'' = Some (VBool (trig_ctxEnds (c_start c)))"
    "map_of st ''stopTriggerNameEnds'' = Some (VBool (trig_nameEnds (c_stop c)))" "map_of st ''stopCtxEnds'' = Some (VBool (trig_ctxEnds (c_stop c)))"
    "map_of st ''triggerActive'' = Some (VBool (p_active p))"
    "map_of st ''waitingForStartNonMatch'' = Some (VBool (p_waitStart p))" "map_of st ''waitingForStopNonMatch'' = Some (VBool (p_waitStop p))"
  using assms by (simp_all add: represents_def)

text \<open>Writing the flags of a represented state.\<close>

lemma represents_flags [state_simps]:
  assumes "represents criteria c p st"
  shows "represents criteria c (p\<lparr>p_active := b\<rparr>) (st_set ''triggerActive'' (VBool b) st)"
    "represents criteria c (p\<lparr>p_waitStart := b\<rparr>) (st_set ''waitingForStartNonMatch'' (VBool b) st)"
    "represents criteria c (p\<lparr>p_waitStop := b\<rparr>) (st_set ''waitingForStopNonMatch'' (VBool b) st)"
    "represents criteria c \<lparr>p_active = False, p_waitStart = False, p_waitStop = False\<rparr> (st_reset st)"
  using assms by (simp_all add: represents_def state_simps)

lemma verified_again: "represents criteria c p st \<Longrightarrow> verifyFilterState criteria st = (st, False)"
  by (simp add: verifyFilterState_def state_simps represents_def)


lemma st_flag_set: "st_flag (st_set k (VBool b) st) x = (if x = k then b else st_flag st x)"
  by (simp add: st_flag_def st_bool_def set_lookup)

lemma match_range_machine:
  assumes r: "represents criteria c p st" and d: "c_startDefined c" "c_stopDefined c"
  shows "represents criteria c (fst (machine c name ctx p))
      (fst (match_range (p_active p) (trig_name (c_start c)) (trig_ctx (c_start c)) (trig_name (c_stop c)) (trig_ctx (c_stop c)) name ctx st)) \<and>
    snd (match_range (p_active p) (trig_name (c_start c)) (trig_ctx (c_start c)) (trig_name (c_stop c)) (trig_ctx (c_stop c)) name ctx st) =
      snd (machine c name ctx p)"
proof -
  note D = representsD [OF r]
  have sub: "st_sub ''waitingForStartNonMatch'' st = st" "st_sub ''waitingForStopNonMatch'' st = st"
    using sub_present [OF D(13)] sub_present [OF D(14)] .
  have flag: "st_flag st ''waitingForStartNonMatch'' = p_waitStart p" "st_flag st ''waitingForStopNonMatch'' = p_waitStop p"
    by (simp_all add: st_flag_def st_bool_def D(13,14))
  have e: "ends_flag ''stop'' st = ends (c_stop c)" "sub_ends ''stop'' st = st"
    by (simp_all add: ends_flag_def sub_ends_def st_bool_def ends_def sub_present [OF D(10)] sub_present [OF D(11)] D(10,11))
  note act = represents_flags(1) [OF r, of True]
  note Da = representsD [OF act]
  have a: "ends_flag ''start'' (st_set ''triggerActive'' (VBool True) st) = ends (c_start c)"
    "sub_ends ''start'' (st_set ''triggerActive'' (VBool True) st) = st_set ''triggerActive'' (VBool True) st"
    by (simp_all add: ends_flag_def sub_ends_def st_bool_def ends_def sub_present [OF Da(8)] sub_present [OF Da(9)] Da(8,9))
  note waitS = represents_flags(2) [OF act, of "ends (c_start c)"] and waitN = represents_flags(2) [OF r, of False]
    and waitE = represents_flags(3) [OF r, of True] and waitF = represents_flags(3) [OF r, of False]
  note res = represents_flags(4) [OF waitE] represents_flags(4) [OF waitF]
  show ?thesis
  proof (cases "\<not> p_active p \<or> p_waitStart p")
    case True
    then show ?thesis using waitS waitN r
      by (simp add: match_range_def machine_def Let_def sub flag a d st_flag_set if_distrib [of fst] cong: if_cong)
  next
    case False
    then show ?thesis using waitE res r
      by (simp add: match_range_def machine_def Let_def sub flag e d st_flag_set split: if_splits)
  qed
qed

lemma filter_refines_machine:
  assumes r: "represents criteria c p st" and t: "tag_map t \<noteq> []"
  shows "\<exists>st'. trigger_filter criteria t st = (st', Some (snd (machine c (tag_string ''gr:trigger_name'' t) (tag_string ''gr:context'' t) p))) \<and>
    represents criteria c (fst (machine c (tag_string ''gr:trigger_name'' t) (tag_string ''gr:context'' t) p)) st'"
proof -
  note D = representsD [OF r]
  let ?name = "tag_string ''gr:trigger_name'' t" and ?ctx = "tag_string ''gr:context'' t"
  have e: "sub_ends ''start'' st = st" "ends_flag ''start'' st = ends (c_start c)"
    using D by (simp_all add: state_simps ends_def)
  have single: "isSingleTrigger st \<longleftrightarrow> c_startDefined c \<noteq> c_stopDefined c" using D by (simp add: state_simps)
  have b: "st_bool st ''startDefined'' = Some (c_startDefined c)" "st_bool st ''stopDefined'' = Some (c_stopDefined c)"
    "st_bool st ''triggerActive'' = Some (p_active p)" using D by (simp_all add: st_bool_def)
  have s: "st_string st ''startTriggerName'' = Some (trig_name (c_start c))" "st_string st ''startCtx'' = Some (trig_ctx (c_start c))"
    "st_string st ''stopTriggerName'' = Some (trig_name (c_stop c))" "st_string st ''stopCtx'' = Some (trig_ctx (c_stop c))"
    using D by (simp_all add: st_string_def)
  have sub: "st_sub ''startDefined'' st = st" "st_sub ''stopDefined'' st = st" "st_sub ''triggerActive'' st = st"
    "st_sub ''startTriggerName'' st = st" "st_sub ''startCtx'' st = st" "st_sub ''stopTriggerName'' st = st" "st_sub ''stopCtx'' st = st"
    using D by (simp_all add: sub_present)
  note base = trigger_filter_def verified_again [OF r] Let_def sub b s single
  show ?thesis
  proof (cases "c_startDefined c \<noteq> c_stopDefined c")
    case True
    then show ?thesis
      using t r represents_flags(2) [OF r, of "ends (c_start c)"] by (auto simp: base e machine_def)
  next
    case False
    show ?thesis
    proof (cases "c_startDefined c")
      case True
      with False have d: "c_startDefined c" "c_stopDefined c" by auto
      show ?thesis using match_range_machine [OF r d, of ?name ?ctx] t d
        by (auto simp: base split: prod.split)
    next
      case False
      with \<open>\<not> (c_startDefined c \<noteq> c_stopDefined c)\<close> show ?thesis using r by (auto simp: base machine_def)
    qed
  qed
qed


section \<open>The filter a text stands for\<close>

definition no_trigger :: trigger where
  "no_trigger = \<lparr>trig_name = [], trig_nameEnds = False, trig_ctx = [], trig_ctxEnds = False\<rparr>"

definition part_trigger :: "string \<Rightarrow> trigger option" where
  "part_trigger part = (if part = [] then Some no_trigger else parse part False)"

text \<open>
  A lone stop trigger becomes the start trigger (its flags stay behind), and a pair of equal triggers a
  single one.
\<close>

definition norm_config :: "trigger \<Rightarrow> trigger \<Rightarrow> bool \<Rightarrow> bool \<Rightarrow> config" where
  "norm_config s e sd ed =
     (let (s1, e1) = (if \<not> sd \<and> ed then (s\<lparr>trig_name := trig_name e, trig_ctx := trig_ctx e\<rparr>, e\<lparr>trig_name := [], trig_ctx := []\<rparr>)
                      else (s, e))
      in if trig_name s1 = trig_name e1 \<and> trig_ctx s1 = trig_ctx e1
         then \<lparr>c_start = s1, c_stop = e1\<lparr>trig_name := [], trig_ctx := []\<rparr>, c_startDefined = True, c_stopDefined = False\<rparr>
         else \<lparr>c_start = s1, c_stop = e1, c_startDefined = sd, c_stopDefined = ed\<rparr>)"

definition config_of :: "string \<Rightarrow> config option" where
  "config_of criteria =
     (if criteria = [] then Some \<lparr>c_start = no_trigger, c_stop = no_trigger, c_startDefined = False, c_stopDefined = False\<rparr>
      else case strip_brackets criteria of None \<Rightarrow> None
      | Some cr \<Rightarrow>
          (case part_trigger (fst (split_range cr)) of None \<Rightarrow> None
           | Some s \<Rightarrow> (case part_trigger (snd (split_range cr)) of None \<Rightarrow> None
              | Some e \<Rightarrow> Some (norm_config s e (fst (split_range cr) \<noteq> []) (snd (split_range cr) \<noteq> [])))))"

definition fresh_phase :: phase where
  "fresh_phase = \<lparr>p_active = False, p_waitStart = False, p_waitStop = False\<rparr>"

definition config_pair :: "trigger \<Rightarrow> trigger \<Rightarrow> bool \<Rightarrow> bool \<Rightarrow> config" where
  "config_pair s e sd ed = \<lparr>c_start = s, c_stop = e, c_startDefined = sd, c_stopDefined = ed\<rparr>"

lemma represents_default:
  "represents criteria (config_pair no_trigger no_trigger False False) fresh_phase (st_reset (default_config criteria st))"
  by (simp add: represents_def config_pair_def no_trigger_def fresh_phase_def default_config_def state_simps)

lemma represents_start:
  assumes "represents criteria (config_pair no_trigger no_trigger False False) p st"
  shows "(case part_trigger part of
      None \<Rightarrow> store_part ''start'' part st = None
    | Some s \<Rightarrow> (\<exists>st'. store_part ''start'' part st = Some st' \<and>
        represents criteria (config_pair s no_trigger (part \<noteq> []) False) p st'))"
  using representsD [OF assms]
  by (auto simp: store_part_def part_trigger_def represents_def config_pair_def no_trigger_def set_lookup split: option.split)

lemma represents_stop:
  assumes "represents criteria (config_pair s no_trigger sd False) p st"
  shows "(case part_trigger part of
      None \<Rightarrow> store_part ''stop'' part st = None
    | Some e \<Rightarrow> (\<exists>st'. store_part ''stop'' part st = Some st' \<and>
        represents criteria (config_pair s e sd (part \<noteq> [])) p st'))"
  using representsD [OF assms]
  by (auto simp: store_part_def part_trigger_def represents_def config_pair_def no_trigger_def set_lookup split: option.split)

lemma represents_swap:
  assumes "represents criteria (config_pair s e sd ed) p st"
  shows "represents criteria (config_pair (s\<lparr>trig_name := trig_name e, trig_ctx := trig_ctx e\<rparr>) (e\<lparr>trig_name := [], trig_ctx := []\<rparr>) sd ed) p
    (st_set ''stopCtx'' (VString []) (st_set ''stopTriggerName'' (VString [])
      (swap_keys ''startCtx'' ''stopCtx'' (swap_keys ''startTriggerName'' ''stopTriggerName'' st))))"
  using representsD [OF assms] by (simp add: represents_def config_pair_def swap_keys_def set_lookup)

lemma represents_unify:
  assumes "represents criteria (config_pair s e sd ed) p st"
  shows "represents criteria (config_pair s (e\<lparr>trig_name := [], trig_ctx := []\<rparr>) True False) p
    (st_set ''stopCtx'' (VString []) (st_set ''stopTriggerName'' (VString [])
      (st_set ''stopDefined'' (VBool False) (st_set ''startDefined'' (VBool True) st))))"
  using representsD [OF assms] by (simp add: represents_def config_pair_def set_lookup)

lemma represents_extra:
  "represents criteria c p st \<Longrightarrow> represents criteria c p (st_set ''isSingleTrigger'' v st)"
  by (simp add: represents_def set_lookup)

lemma config_pair_sel [simp]:
  "c_start (config_pair s e sd ed) = s" "c_stop (config_pair s e sd ed) = e"
  "c_startDefined (config_pair s e sd ed) = sd" "c_stopDefined (config_pair s e sd ed) = ed"
  by (simp_all add: config_pair_def)

lemma represents_strings:
  assumes "represents criteria (config_pair s e sd ed) p st"
  shows "st_string st ''startTriggerName'' = st_string st ''stopTriggerName'' \<and> st_string st ''startCtx'' = st_string st ''stopCtx'' \<longleftrightarrow>
      trig_name s = trig_name e \<and> trig_ctx s = trig_ctx e"
    "isSingleTrigger st \<and> st_bool st ''stopDefined'' = Some True \<longleftrightarrow> \<not> sd \<and> ed"
  using representsD [OF assms] by (auto simp: st_string_def st_bool_def isSingleTrigger_def)

lemma represents_normalise:
  assumes "represents criteria (config_pair s e sd ed) p st"
  shows "represents criteria (norm_config s e sd ed) p (normalise st)"
proof -
  define s1 e1 where "s1 = (if \<not> sd \<and> ed then s\<lparr>trig_name := trig_name e, trig_ctx := trig_ctx e\<rparr> else s)"
    and "e1 = (if \<not> sd \<and> ed then e\<lparr>trig_name := [], trig_ctx := []\<rparr> else e)"
  define st1 where "st1 = (if \<not> sd \<and> ed
    then st_set ''stopCtx'' (VString []) (st_set ''stopTriggerName'' (VString [])
           (swap_keys ''startCtx'' ''stopCtx'' (swap_keys ''startTriggerName'' ''stopTriggerName'' st)))
    else st)"
  have r1: "represents criteria (config_pair s1 e1 sd ed) p st1"
    using assms represents_swap [OF assms] by (cases "\<not> sd \<and> ed") (auto simp: s1_def e1_def st1_def)
  define st2 where "st2 = (if trig_name s1 = trig_name e1 \<and> trig_ctx s1 = trig_ctx e1
    then st_set ''stopCtx'' (VString []) (st_set ''stopTriggerName'' (VString [])
           (st_set ''stopDefined'' (VBool False) (st_set ''startDefined'' (VBool True) st1)))
    else st1)"
  have r2: "represents criteria (norm_config s e sd ed) p st2"
  proof -
    have "norm_config s e sd ed = (if trig_name s1 = trig_name e1 \<and> trig_ctx s1 = trig_ctx e1
        then config_pair s1 (e1\<lparr>trig_name := [], trig_ctx := []\<rparr>) True False else config_pair s1 e1 sd ed)"
      by (simp add: norm_config_def config_pair_def s1_def e1_def)
    then show ?thesis using r1 represents_unify [OF r1] by (simp add: st2_def)
  qed
  have "normalise st = st_set ''isSingleTrigger'' (VBool (isSingleTrigger st2)) st2"
    using represents_strings(2) [OF assms] represents_strings(1) [OF r1]
    unfolding normalise_def by (simp only: Let_def st1_def [symmetric] st2_def [symmetric])
  then show ?thesis using represents_extra [OF r2] by simp
qed

lemma verify_represents:
  assumes "\<not> (map_of st ''filter'' \<noteq> None \<and> (case st_string st ''filter'' of Some s \<Rightarrow> s | None \<Rightarrow> []) = criteria)"
  shows "case config_of criteria of
      None \<Rightarrow> snd (verifyFilterState criteria st)
    | Some c \<Rightarrow> \<not> snd (verifyFilterState criteria st) \<and> represents criteria c fresh_phase (fst (verifyFilterState criteria st))"
proof (cases "criteria = []")
  case True
  then show ?thesis using assms represents_default [of "[]" st]
    by (auto simp: verifyFilterState_def config_of_def config_pair_def Let_def)
next
  case ne: False
  note r0 = represents_default [of criteria st]
  define st0 where "st0 = st_reset (default_config criteria st)"
  have v: "verifyFilterState criteria st =
      (case strip_brackets criteria of
            None \<Rightarrow> (st0, True)
          | Some c \<Rightarrow>
              (case store_part ''start'' (fst (split_range c)) st0 of
                 None \<Rightarrow> (st0, True)
               | Some st1 \<Rightarrow>
                   (case store_part ''stop'' (snd (split_range c)) st1 of
                      None \<Rightarrow> (st1, True)
                    | Some st2 \<Rightarrow> (normalise st2, False))))"
    using assms ne unfolding verifyFilterState_def st0_def
    by (auto simp: Let_def split_beta split: option.split)
  show ?thesis
  proof (cases "strip_brackets criteria")
    case None
    then show ?thesis using ne by (simp add: v config_of_def)
  next
    case (Some cr)
    note rs = represents_start [OF r0 [folded st0_def], of "fst (split_range cr)"]
    show ?thesis
    proof (cases "part_trigger (fst (split_range cr))")
      case None
      then show ?thesis using rs Some ne by (simp add: v config_of_def)
    next
      case ps: (Some s)
      then obtain st1 where st1: "store_part ''start'' (fst (split_range cr)) st0 = Some st1"
        "represents criteria (config_pair s no_trigger (fst (split_range cr) \<noteq> []) False) fresh_phase st1" using rs by auto
      note re = represents_stop [OF st1(2), of "snd (split_range cr)"]
      show ?thesis
      proof (cases "part_trigger (snd (split_range cr))")
        case None
        then show ?thesis using re Some ps st1 ne by (simp add: v config_of_def)
      next
        case pe: (Some e)
        then obtain st2 where st2: "store_part ''stop'' (snd (split_range cr)) st1 = Some st2"
          "represents criteria (config_pair s e (fst (split_range cr) \<noteq> []) (snd (split_range cr) \<noteq> [])) fresh_phase st2"
          using re by auto
        then show ?thesis using represents_normalise [OF st2(2)] Some ps pe st1 ne by (simp add: v config_of_def)
      qed
    qed
  qed
qed


section \<open>Runs over a stream of tags\<close>

definition machine_tag :: "config \<Rightarrow> gr_tag \<Rightarrow> phase \<Rightarrow> phase \<times> match_result" where
  "machine_tag c t p =
     (if tag_map t = [] then (p, Ignore)
      else machine c (tag_string ''gr:trigger_name'' t) (tag_string ''gr:context'' t) p)"

fun machine_run :: "config \<Rightarrow> gr_tag list \<Rightarrow> phase \<Rightarrow> match_result list" where
  "machine_run c [] p = []"
| "machine_run c (t # ts) p = (let (p', r) = machine_tag c t p in r # machine_run c ts p')"

text \<open>The filter over a stream of tags; \<open>None\<close> as soon as one call throws.\<close>

fun filter_run :: "string \<Rightarrow> gr_tag list \<Rightarrow> property_map \<Rightarrow> match_result list option" where
  "filter_run criteria [] st = Some []"
| "filter_run criteria (t # ts) st =
     (case trigger_filter criteria t st of
        (st', None) \<Rightarrow> None
      | (st', Some r) \<Rightarrow> (case filter_run criteria ts st' of None \<Rightarrow> None | Some rs \<Rightarrow> Some (r # rs)))"

lemma filter_tag:
  assumes r: "represents criteria c p st"
  shows "\<exists>st'. trigger_filter criteria t st = (st', Some (snd (machine_tag c t p))) \<and>
    represents criteria c (fst (machine_tag c t p)) st'"
proof (cases "tag_map t = []")
  case True
  have sub: "st_sub ''startDefined'' st = st" "st_sub ''stopDefined'' st = st"
    using representsD(2,3) [OF r] by (simp_all add: sub_present)
  have b: "st_bool st ''startDefined'' = Some (c_startDefined c)" "st_bool st ''stopDefined'' = Some (c_stopDefined c)"
    using representsD(2,3) [OF r] by (simp_all add: st_bool_def)
  have "trigger_filter criteria t st = (st, Some Ignore)"
    using True by (simp add: trigger_filter_def verified_again [OF r] sub b Let_def)
  then show ?thesis using True r by (simp add: machine_tag_def)
next
  case False
  then show ?thesis using filter_refines_machine [OF r False] by (simp add: machine_tag_def)
qed

lemma filter_run_represented:
  "represents criteria c p st \<Longrightarrow> filter_run criteria ts st = Some (machine_run c ts p)"
proof (induction ts arbitrary: p st)
  case (Cons t ts)
  from filter_tag [OF Cons.prems, of t] obtain st' where st': "trigger_filter criteria t st = (st', Some (snd (machine_tag c t p)))"
    "represents criteria c (fst (machine_tag c t p)) st'" by blast
  show ?case using Cons.IH [OF st'(2)] st'(1) by (simp add: split_beta)
qed simp

lemma filter_verified:
  assumes "verifyFilterState criteria st = (st', False)" "verifyFilterState criteria st' = (st', False)"
  shows "trigger_filter criteria t st = trigger_filter criteria t st'"
  unfolding trigger_filter_def assms ..

lemma filter_run_fresh:
  assumes "\<not> (map_of st ''filter'' \<noteq> None \<and> (case st_string st ''filter'' of Some s \<Rightarrow> s | None \<Rightarrow> []) = criteria)"
    "config_of criteria = Some c"
  shows "filter_run criteria ts st = Some (machine_run c ts fresh_phase)"
proof (cases ts)
  case (Cons t rest)
  define st' where "st' = fst (verifyFilterState criteria st)"
  have r: "represents criteria c fresh_phase st'" and v: "verifyFilterState criteria st = (st', False)"
    using verify_represents [OF assms(1)] assms(2) by (auto simp: st'_def prod_eq_iff)
  have "filter_run criteria ts st = filter_run criteria ts st'"
    using filter_verified [OF v verified_again [OF r]] Cons by simp
  then show ?thesis using filter_run_represented [OF r] by simp
qed simp

text \<open>
  C28. From any state that does not already hold the filter, whatever it holds instead, a well-formed filter matches a
  stream of tags as the machine over its two triggers does: the state map is initialised
  completely, its entries never take a value the matcher does not expect, and no call throws.
\<close>

theorem filter_refines:
  assumes "map_of st ''filter'' \<noteq> Some (VString criteria)" "criteria \<noteq> []" "config_of criteria = Some c"
  shows "filter_run criteria ts st = Some (machine_run c ts fresh_phase)"
proof -
  have "\<not> (map_of st ''filter'' \<noteq> None \<and> (case st_string st ''filter'' of Some s \<Rightarrow> s | None \<Rightarrow> []) = criteria)"
    using assms(1,2) by (auto simp: st_string_def split: pmt.splits option.splits)
  then show ?thesis using assms(3) by (rule filter_run_fresh)
qed

text \<open>Matches and non-matches of a range filter alternate, beginning with a match.\<close>

fun alternates :: "bool \<Rightarrow> match_result list \<Rightarrow> bool" where
  "alternates opened [] = True"
| "alternates opened (r # rs) =
     (case r of Matching \<Rightarrow> \<not> opened \<and> alternates True rs
      | NotMatching \<Rightarrow> opened \<and> alternates False rs
      | Ignore \<Rightarrow> alternates opened rs)"

definition opened :: "phase \<Rightarrow> bool" where
  "opened p \<longleftrightarrow> p_active p \<and> \<not> p_waitStart p"

lemma machine_alternates:
  assumes "c_startDefined c" "c_stopDefined c" "p_waitStart p \<longrightarrow> p_active p"
  shows "alternates (opened p) (machine_run c ts p)"
  using assms(3)
proof (induction ts arbitrary: p)
  case (Cons t ts)
  obtain p' r where m: "machine_tag c t p = (p', r)" by (cases "machine_tag c t p")
  have "(p_waitStart p' \<longrightarrow> p_active p') \<and>
      (case r of Matching \<Rightarrow> \<not> opened p \<and> opened p' | NotMatching \<Rightarrow> opened p \<and> \<not> opened p' | Ignore \<Rightarrow> opened p' = opened p)"
    using Cons.prems m assms(1,2)
    by (auto simp: machine_tag_def machine_def Let_def opened_def split: if_splits)
  then show ?case using Cons.IH [of p'] m by (auto split: match_result.splits)
qed simp

text \<open>
  A filter with a start and a stop trigger cuts a stream of tags into windows: whatever tags arrive, matching and
  non-matching results alternate and begin with a match, so that every window that is opened
  is closed before the next one opens, also when \<open>^\<close> delays them to the end of a run of tags.
\<close>

theorem windows_alternate:
  assumes "map_of st ''filter'' \<noteq> Some (VString criteria)" "criteria \<noteq> []"
    "config_of criteria = Some c" "c_startDefined c" "c_stopDefined c"
  shows "\<exists>rs. filter_run criteria ts st = Some rs \<and> length rs = length ts \<and> alternates False rs"
proof -
  have "\<not> (map_of st ''filter'' \<noteq> None \<and> (case st_string st ''filter'' of Some s \<Rightarrow> s | None \<Rightarrow> []) = criteria)"
    using assms(1,2) by (auto simp: st_string_def split: pmt.splits option.splits)
  then have "filter_run criteria ts st = Some (machine_run c ts fresh_phase)" using assms(3) by (rule filter_run_fresh)
  moreover have "alternates False (machine_run c ts fresh_phase)"
    using machine_alternates [OF assms(4,5), of fresh_phase ts] by (simp add: fresh_phase_def opened_def)
  moreover have "length (machine_run c ts p) = length ts" for p
    by (induction ts arbitrary: p) (simp_all add: split_beta)
  ultimately show ?thesis by blast
qed

text \<open>
  The context of a tag is compared in opposite directions: a range filter asks that the tag's
  context contains the wanted one, a single-trigger filter that the wanted context contains the tag's. So a tag
  without any context matches every single-trigger filter on its name, whatever context that asks for.
\<close>

theorem single_trigger_context_reversed:
  assumes "map_of st ''filter'' \<noteq> Some (VString criteria)" "criteria \<noteq> []" "config_of criteria = Some c"
    "c_startDefined c \<noteq> c_stopDefined c" "tag_map t \<noteq> []" "tag_string ''gr:context'' t = []"
    "tag_string ''gr:trigger_name'' t = trig_name (c_start c)"
  shows "filter_run criteria [t] st = Some [Matching]"
proof -
  have "\<not> (map_of st ''filter'' \<noteq> None \<and> (case st_string st ''filter'' of Some s \<Rightarrow> s | None \<Rightarrow> []) = criteria)"
    using assms(1,2) by (auto simp: st_string_def split: pmt.splits option.splits)
  then have run: "filter_run criteria [t] st = Some (machine_run c [t] fresh_phase)" using assms(3) by (rule filter_run_fresh)
  have "contains x []" for x by (cases x) simp_all
  then show ?thesis using assms(4-) by (simp add: run machine_tag_def machine_def match_single_def del: filter_run.simps)
qed

text \<open>Concrete filters and tags.\<close>

definition trigger_tag :: "string \<Rightarrow> string \<Rightarrow> gr_tag" where
  "trigger_tag name ctx = \<lparr>tag_index = 0, tag_map =
     (''gr:trigger_name'', VString name) # (if ctx = [] then [] else [(''gr:context'', VString ctx)])\<rparr>"

lemma config_range:
  "config_of ''[go/a, ^end]'' = Some \<lparr>c_start = \<lparr>trig_name = ''go'', trig_nameEnds = False, trig_ctx = ''a'', trig_ctxEnds = False\<rparr>,
     c_stop = \<lparr>trig_name = ''end'', trig_nameEnds = True, trig_ctx = [], trig_ctxEnds = False\<rparr>,
     c_startDefined = True, c_stopDefined = True\<rparr>"
  by code_simp

lemma config_single:
  "config_of ''go/a'' = Some \<lparr>c_start = \<lparr>trig_name = ''go'', trig_nameEnds = False, trig_ctx = ''a'', trig_ctxEnds = False\<rparr>,
     c_stop = no_trigger, c_startDefined = True, c_stopDefined = False\<rparr>"
  by code_simp

lemma filter_refines_witness:
  "filter_run ''[go/a, ^end]'' [trigger_tag ''go'' ''ab'', trigger_tag ''end'' [], trigger_tag ''x'' []] [] =
     Some [Matching, Ignore, NotMatching]"
proof -
  have "map_of ([] :: property_map) ''filter'' \<noteq> Some (VString ''[go/a, ^end]'')" "''[go/a, ^end]'' \<noteq> []" by simp_all
  from filter_refines [OF this config_range] show ?thesis
    by (simp add: machine_tag_def machine_def match_pair_def trigger_tag_def tag_string_def fresh_phase_def ends_def
        del: filter_run.simps)
qed

lemma windows_alternate_witness:
  "\<exists>rs. filter_run ''[go/a, ^end]'' [trigger_tag ''go'' ''ab'', trigger_tag ''end'' [], trigger_tag ''x'' []] [] = Some rs \<and>
     alternates False rs"
proof -
  have "map_of ([] :: property_map) ''filter'' \<noteq> Some (VString ''[go/a, ^end]'')" "''[go/a, ^end]'' \<noteq> []" by simp_all
  from windows_alternate [OF this config_range] show ?thesis by (auto simp del: filter_run.simps)
qed

lemma single_trigger_context_reversed_witness:
  "filter_run ''go/a'' [trigger_tag ''go'' []] [] = Some [Matching]"
proof -
  have "map_of ([] :: property_map) ''filter'' \<noteq> Some (VString ''go/a'')" "''go/a'' \<noteq> []" by simp_all
  from single_trigger_context_reversed [OF this config_single, of "trigger_tag ''go'' []"] show ?thesis
    by (simp add: trigger_tag_def tag_string_def)
qed


end
