(* ===== verification/AtomicBitset.thy ===== *)
theory AtomicBitset
  imports Prelude
begin

text \<open>
  The bit set of \<^verbatim>\<open>core/include/gnuradio-4.0/AtomicBitset.hpp\<close>: an array of 64-bit words that are
  updated by compare-and-swap loops. The first part is the effect of each call, with the range split into
  leading, whole and trailing words as the code does; the second the interleaving of the loops of any
  number of threads on one word.
\<close>

section \<open>The operations\<close>

abbreviation bitsPerWord :: nat where
  "bitsPerWord \<equiv> 64"

record bitset =
  bs_size :: nat
  bs_words :: "usize list"

definition bs_new :: "nat \<Rightarrow> bitset" where
  "bs_new sz = \<lparr>bs_size = sz, bs_words = replicate ((sz + bitsPerWord - 1) div bitsPerWord) 0\<rparr>"

definition apply_mask :: "bool \<Rightarrow> usize \<Rightarrow> usize \<Rightarrow> usize" where
  "apply_mask value bits old = (if value then old OR bits else old AND NOT bits)"

definition update_word :: "nat \<Rightarrow> (usize \<Rightarrow> usize) \<Rightarrow> bitset \<Rightarrow> bitset" where
  "update_word i f b = b\<lparr>bs_words := (bs_words b)[i := f (bs_words b ! i)]\<rparr>"

definition bs_set :: "nat \<Rightarrow> bool \<Rightarrow> bitset \<Rightarrow> bitset" where
  "bs_set p value b =
     update_word (p div bitsPerWord) (apply_mask value (push_bit (p mod bitsPerWord) 1)) b"

definition bs_test :: "nat \<Rightarrow> bitset \<Rightarrow> bool" where
  "bs_test p b = (bs_words b ! (p div bitsPerWord) AND push_bit (p mod bitsPerWord) 1 \<noteq> 0)"

definition range_mask :: "nat \<Rightarrow> nat \<Rightarrow> usize" where
  "range_mask begin_bit end_bit =
     (if end_bit = bitsPerWord then NOT (push_bit begin_bit 1 - 1)
      else (push_bit end_bit 1 - 1) AND NOT (push_bit begin_bit 1 - 1))"

definition setBitsInWord :: "nat \<Rightarrow> nat \<Rightarrow> nat \<Rightarrow> bool \<Rightarrow> bitset \<Rightarrow> bitset" where
  "setBitsInWord i begin_bit end_bit value b = update_word i (apply_mask value (range_mask begin_bit end_bit)) b"

definition setFullWord :: "nat \<Rightarrow> bool \<Rightarrow> bitset \<Rightarrow> bitset" where
  "setFullWord i value b = update_word i (\<lambda>_. if value then usize_max else 0) b"

definition bs_set_range :: "nat \<Rightarrow> nat \<Rightarrow> bool \<Rightarrow> bitset \<Rightarrow> bitset" where
  "bs_set_range begin_pos end_pos value b =
     (let beginWord = begin_pos div bitsPerWord; endWord = end_pos div bitsPerWord;
          beginOffset = begin_pos mod bitsPerWord; endOffset = end_pos mod bitsPerWord
      in if begin_pos = end_pos then b
         else if beginWord = endWord then setBitsInWord beginWord beginOffset endOffset value b
         else
           let (from_word, b1) = (if beginOffset \<noteq> 0
                              then (beginWord + 1, setBitsInWord beginWord beginOffset bitsPerWord value b)
                              else (beginWord, b));
               b2 = (if endOffset \<noteq> 0 then setBitsInWord endWord 0 endOffset value b1 else b1);
               to_word = endWord - 1
           in fold (\<lambda>i. setFullWord i value) [from_word..<to_word + 1] b2)"

section \<open>What they set\<close>

definition bs_ok :: "bitset \<Rightarrow> bool" where
  "bs_ok b \<longleftrightarrow> length (bs_words b) = (bs_size b + bitsPerWord - 1) div bitsPerWord"

lemma bs_ok_update [simp]: "bs_ok (update_word i f b) = bs_ok b" "bs_size (update_word i f b) = bs_size b"
  "length (bs_words (update_word i f b)) = length (bs_words b)"
  by (simp_all add: bs_ok_def update_word_def)

lemma bit_one_shifted: "n < 64 \<Longrightarrow> bit (2 ^ k :: usize) n \<longleftrightarrow> n = k"
  by (auto simp: bit_exp_iff)

lemma bs_test_bit: "bs_test p b = bit (bs_words b ! (p div 64)) (p mod 64)"
proof -
  have "bs_words b ! (p div 64) AND push_bit (p mod 64) 1 = (if bit (bs_words b ! (p div 64)) (p mod 64) then push_bit (p mod 64) 1 else 0)"
    by (rule bit_eqI) (auto simp: bit_and_iff bit_one_shifted)
  moreover have "push_bit (p mod 64) (1 :: usize) \<noteq> 0"
  proof
    assume z: "push_bit (p mod 64) (1 :: usize) = 0"
    have "bit (push_bit (p mod 64) (1 :: usize)) (p mod 64)" by (simp add: bit_one_shifted)
    then show False by (simp add: z del: push_bit_of_1)
  qed
  ultimately show ?thesis by (simp add: bs_test_def)
qed

lemma bit_apply_mask: "bit (apply_mask value m old) n \<longleftrightarrow> (if bit m n then value else bit old n)" if "n < 64" for m :: usize
  using that by (auto simp: apply_mask_def bit_or_iff bit_and_iff bit_not_iff)

lemma bit_pow_minus_1: "n < 64 \<Longrightarrow> bit (2 ^ k - 1 :: usize) n \<longleftrightarrow> n < k"
  by (simp add: mask_eq_exp_minus_1 [symmetric] bit_mask_iff)

lemma bit_range_mask:
  assumes "n < 64" "e \<le> 64"
  shows "bit (range_mask s e) n \<longleftrightarrow> s \<le> n \<and> n < e"
  using assms by (auto simp: range_mask_def bit_and_iff bit_not_iff bit_pow_minus_1)

lemma test_update:
  assumes "p div 64 < length (bs_words b)"
  shows "bs_test p (update_word i f b) = (if i = p div 64 then bit (f (bs_words b ! i)) (p mod 64) else bs_test p b)"
  using assms by (simp add: bs_test_bit update_word_def)

lemma test_setBits:
  assumes "p div 64 < length (bs_words b)" "e \<le> 64"
  shows "bs_test p (setBitsInWord i s e value b) =
    (if i = p div 64 \<and> s \<le> p mod 64 \<and> p mod 64 < e then value else bs_test p b)"
  using assms by (auto simp: setBitsInWord_def test_update bit_apply_mask bit_range_mask bs_test_bit [symmetric])

lemma test_full:
  assumes "p div 64 < length (bs_words b)"
  shows "bs_test p (setFullWord i value b) = (if i = p div 64 then value else bs_test p b)"
  using assms by (auto simp: setFullWord_def test_update)

lemma set_words [simp]:
  "length (bs_words (setBitsInWord i s e value b)) = length (bs_words b)"
  "length (bs_words (setFullWord i value b)) = length (bs_words b)"
  "bs_size (setBitsInWord i s e value b) = bs_size b" "bs_size (setFullWord i value b) = bs_size b"
  by (simp_all add: setBitsInWord_def setFullWord_def)

lemma full_words:
  assumes "p div 64 < length (bs_words b)"
  shows "bs_test p (fold (\<lambda>i. setFullWord i value) ws b) = (if p div 64 \<in> set ws then value else bs_test p b)"
    "length (bs_words (fold (\<lambda>i. setFullWord i value) ws b)) = length (bs_words b)"
    "bs_size (fold (\<lambda>i. setFullWord i value) ws b) = bs_size b"
  using assms by (induction ws arbitrary: b) (auto simp: test_full)

lemma div_mod_order: "p < q \<longleftrightarrow> p div 64 < q div 64 \<or> p div 64 = q div 64 \<and> p mod 64 < q mod (64::nat)"
proof -
  have split: "p = 64 * (p div 64) + p mod 64" "q = 64 * (q div 64) + q mod 64" by simp_all
  have "p mod 64 < 64" "q mod 64 < 64" by simp_all
  then show ?thesis using split by (cases "p div 64" "q div 64" rule: linorder_cases) (linarith | simp)+
qed

lemma word_index: "p < n \<Longrightarrow> p div 64 < (n + 64 - 1) div (64::nat)"
  by (simp add: less_eq_div_iff_mult_less_eq Suc_le_eq [symmetric])

lemma same_position: "p div 64 = q div 64 \<and> p mod 64 = q mod 64 \<longleftrightarrow> p = (q::nat)"
  by (metis div_mult_mod_eq)

text \<open>The words of a range that ends in a later word than it begins.\<close>

lemma range_parts:
  fixes a c x :: nat
  assumes "a < c"
  shows "((if b \<noteq> 0 then a + 1 else a) \<le> x \<and> x < c) \<or> (d \<noteq> 0 \<and> c = x \<and> y < d) \<or> (b \<noteq> 0 \<and> a = x \<and> b \<le> y)
    \<longleftrightarrow> \<not> (x < a \<or> x = a \<and> y < b) \<and> (x < c \<or> x = c \<and> y < (d::nat))"
  using assms by (cases "b = 0"; cases "d = 0") auto

lemma range_words:
  assumes "s div 64 < e div (64::nat)"
  shows "(if s mod 64 \<noteq> 0 then s div 64 + 1 else s div 64) \<le> p div 64 \<and> p div 64 < e div 64 \<or>
      e mod 64 \<noteq> 0 \<and> e div 64 = p div 64 \<and> p mod 64 < e mod 64 \<or>
      s mod 64 \<noteq> 0 \<and> s div 64 = p div 64 \<and> s mod 64 \<le> p mod 64 \<longleftrightarrow> s \<le> p \<and> p < e"
  unfolding range_parts [OF assms] div_mod_order [of p e] not_less [symmetric, of s p] div_mod_order [of p s] ..

lemma one_word_parts:
  fixes a x b y d :: nat
  shows "a = x \<and> b \<le> y \<and> y < d \<longleftrightarrow> \<not> (x < a \<or> x = a \<and> y < b) \<and> (x < a \<or> x = a \<and> y < d)"
  by auto

lemma range_one_word:
  assumes "s div 64 = e div (64::nat)"
  shows "s div 64 = p div 64 \<and> s mod 64 \<le> p mod 64 \<and> p mod 64 < e mod 64 \<longleftrightarrow> s \<le> p \<and> p < e"
  unfolding one_word_parts [of "s div 64"] div_mod_order [of p e] not_less [symmetric, of s p] div_mod_order [of p s]
  by (simp only: assms)

lemma set_single_bit:
  assumes "p div 64 < length (bs_words b)"
  shows "bs_test p (bs_set q value b) = (if p = q then value else bs_test p b)"
proof -
  have "bs_test p (bs_set q value b) =
      (if q div 64 = p div 64 then bit (apply_mask value (push_bit (q mod 64) 1) (bs_words b ! (q div 64))) (p mod 64)
       else bs_test p b)"
    unfolding bs_set_def using test_update [OF assms] .
  also have "\<dots> = (if q div 64 = p div 64 \<and> p mod 64 = q mod 64 then value else bs_test p b)"
    by (simp add: bit_apply_mask bit_one_shifted bs_test_bit)
  finally show ?thesis using same_position [of p q] by auto
qed

lemma set_range_test:
  assumes "s \<le> e" "p div 64 < length (bs_words b)"
  shows "bs_test p (bs_set_range s e value b) = (if s \<le> p \<and> p < e then value else bs_test p b) \<and>
    length (bs_words (bs_set_range s e value b)) = length (bs_words b) \<and> bs_size (bs_set_range s e value b) = bs_size b"
proof -
  let ?sw = "s div 64" and ?ew = "e div 64" and ?so = "s mod 64" and ?eo = "e mod 64"
  define b1 where "b1 = (if ?so \<noteq> 0 then setBitsInWord ?sw ?so 64 value b else b)"
  define b2 where "b2 = (if ?eo \<noteq> 0 then setBitsInWord ?ew 0 ?eo value b1 else b1)"
  define lo where "lo = (if ?so \<noteq> 0 then ?sw + 1 else ?sw)"
  have r: "bs_set_range s e value b =
      (if s = e then b else if ?sw = ?ew then setBitsInWord ?sw ?so ?eo value b
       else fold (\<lambda>i. setFullWord i value) [lo..<?ew - 1 + 1] b2)"
    by (simp add: bs_set_range_def Let_def b1_def b2_def lo_def)
  have w: "length (bs_words b1) = length (bs_words b)" "length (bs_words b2) = length (bs_words b)"
    "bs_size b2 = bs_size b" by (simp_all add: b1_def b2_def)
  have eo: "?eo \<le> 64" by simp
  consider "s = e" | "s \<noteq> e" "?sw = ?ew" | "s \<noteq> e" "?sw < ?ew"
    using assms(1) by (meson div_le_mono le_neq_implies_less)
  then show ?thesis
  proof cases
    case 1
    then show ?thesis unfolding r by auto
  next
    case 2
    then have rr: "bs_set_range s e value b = setBitsInWord ?sw ?so ?eo value b" by (simp add: r)
    show ?thesis unfolding rr test_setBits [OF assms(2) eo] range_one_word [OF 2(2)] by simp
  next
    case 3
    have p2: "p div 64 < length (bs_words b2)" using assms(2) w by simp
    have t1: "bs_test p b1 = (if ?so \<noteq> 0 \<and> ?sw = p div 64 \<and> ?so \<le> p mod 64 then value else bs_test p b)"
      unfolding b1_def using test_setBits [OF assms(2) order_refl, of ?sw ?so "value"] by (cases "?so = 0") (simp_all only: mod_less_divisor zero_less_numeral if_True if_False simp_thms)
    have t2: "bs_test p b2 = (if ?eo \<noteq> 0 \<and> ?ew = p div 64 \<and> p mod 64 < ?eo then value else bs_test p b1)"
      unfolding b2_def using test_setBits [of p b1 ?eo ?ew 0 "value"] assms(2) w(1) eo by (cases "?eo = 0") (simp_all only: le0 if_True if_False simp_thms)
    have rr: "bs_set_range s e value b = fold (\<lambda>i. setFullWord i value) [lo..<?ew - 1 + 1] b2" using 3 by (simp add: r)
    note fw = full_words [OF p2, of "value" "[lo..<?ew - 1 + 1]", folded rr]
    have "?ew - 1 + 1 = ?ew" using 3(2) by simp
    then have "p div 64 \<in> set [lo..<?ew - 1 + 1] \<longleftrightarrow> lo \<le> p div 64 \<and> p div 64 < ?ew" by simp
    with range_words [OF 3(2), of p, folded lo_def] fw t1 t2 w show ?thesis by argo
  qed
qed

text \<open>
  Setting a range of bits, however it falls on the words, changes exactly the bits of the range:
  every position in \<open>[begin, end)\<close> gets the value, every other bit of the set keeps its own, and setting
  a single bit changes that bit alone.
\<close>

theorem set_range_bits:
  assumes "bs_ok b" "s \<le> e" "e \<le> bs_size b" "p < bs_size b" "q < bs_size b"
  shows "bs_test p (bs_set_range s e value b) = (if s \<le> p \<and> p < e then value else bs_test p b) \<and>
    bs_ok (bs_set_range s e value b) \<and> bs_size (bs_set_range s e value b) = bs_size b \<and>
    bs_test p (bs_set q value b) = (if p = q then value else bs_test p b)"
proof -
  have pw: "p div 64 < length (bs_words b)" using assms(1,4) word_index [of p] by (simp add: bs_ok_def)
  then show ?thesis using set_range_test [OF assms(2) pw, of "value"] set_single_bit [OF pw, of q "value"] assms(1)
    by (simp add: bs_ok_def)
qed

lemma set_range_bits_witness:
  "bs_test 127 (bs_set_range 60 130 True (bs_new 200)) \<and> \<not> bs_test 130 (bs_set_range 60 130 True (bs_new 200))"
proof -
  have ok: "bs_ok (bs_new 200)" "(60 :: nat) \<le> 130" "130 \<le> bs_size (bs_new 200)" by (simp_all add: bs_ok_def bs_new_def)
  have "127 < bs_size (bs_new 200)" "130 < bs_size (bs_new 200)" by (simp_all add: bs_new_def)
  note t = set_range_bits [OF ok this(1) this(1), of True] set_range_bits [OF ok this(2) this(2), of True]
  have "\<not> bs_test 130 (bs_new 200)" by (simp add: bs_test_bit bs_new_def nth_replicate)
  with t show ?thesis by simp
qed

section \<open>Concurrent updates of one word\<close>

text \<open>
  Any number of threads update one word. A masked update is the loop of \<^verbatim>\<open>set\<close> and \<^verbatim>\<open>setBitsInWord\<close>:
  load the word, compute the new one, exchange it if the word is unchanged, else load again; a full word is
  one store. \<open>done\<close> records the order in which the updates took effect and is not part of the program.
\<close>

datatype word_update = Masked bool usize | Full bool

datatype update_pc = Load | Exchange usize | Finished

record word_state =
  ws_word :: usize
  ws_pc :: "nat \<Rightarrow> update_pc"
  ws_done :: "nat list"

fun effect :: "word_update \<Rightarrow> usize \<Rightarrow> usize" where
  "effect (Masked v m) w = apply_mask v m w"
| "effect (Full v) w = (if v then usize_max else 0)"

definition update_start :: "usize \<Rightarrow> word_state" where
  "update_start w = \<lparr>ws_word = w, ws_pc = \<lambda>_. Load, ws_done = []\<rparr>"

inductive update_step :: "(nat \<Rightarrow> word_update) \<Rightarrow> word_state \<Rightarrow> word_state \<Rightarrow> bool" for ops where
  load: "ws_pc s t = Load \<Longrightarrow> ops t = Masked v m \<Longrightarrow> update_step ops s (s\<lparr>ws_pc := (ws_pc s)(t := Exchange (ws_word s))\<rparr>)"
| exchanged: "ws_pc s t = Exchange old \<Longrightarrow> ops t = Masked v m \<Longrightarrow> ws_word s = old \<Longrightarrow>
    update_step ops s (s\<lparr>ws_word := apply_mask v m old, ws_pc := (ws_pc s)(t := Finished), ws_done := ws_done s @ [t]\<rparr>)"
| retry: "ws_pc s t = Exchange old \<Longrightarrow> ws_word s \<noteq> old \<Longrightarrow> update_step ops s (s\<lparr>ws_pc := (ws_pc s)(t := Load)\<rparr>)"
| store: "ws_pc s t = Load \<Longrightarrow> ops t = Full v \<Longrightarrow>
    update_step ops s (s\<lparr>ws_word := (if v then usize_max else 0), ws_pc := (ws_pc s)(t := Finished), ws_done := ws_done s @ [t]\<rparr>)"

inductive_cases update_stepE: "update_step ops s s'"

definition update_inv :: "(nat \<Rightarrow> word_update) \<Rightarrow> usize \<Rightarrow> word_state \<Rightarrow> bool" where
  "update_inv ops w s \<longleftrightarrow> ws_word s = fold (\<lambda>t. effect (ops t)) (ws_done s) w \<and> distinct (ws_done s) \<and>
    set (ws_done s) = {t. ws_pc s t = Finished}"

lemma update_inv_step: "update_step ops s s' \<Longrightarrow> update_inv ops w s \<Longrightarrow> update_inv ops w s'"
  by (erule update_stepE) (auto simp: update_inv_def)

lemma update_inv_reachable: "(update_step ops)\<^sup>*\<^sup>* (update_start w) s \<Longrightarrow> update_inv ops w s"
  by (induction rule: rtranclp_induct) (simp add: update_inv_def update_start_def, blast intro: update_inv_step)

fun touches :: "word_update \<Rightarrow> nat \<Rightarrow> bool" where
  "touches (Masked v m) n = bit m n"
| "touches (Full v) n = True"

fun written :: "word_update \<Rightarrow> bool" where
  "written (Masked v m) = v"
| "written (Full v) = v"

lemma bit_effect: "n < 64 \<Longrightarrow> bit (effect u w) n = (if touches u n then written u else bit w n)"
  by (cases u) (auto simp: bit_apply_mask bit_minus_1_iff)

lemma fold_effect:
  assumes "n < 64" "\<forall>t \<in> set ts. touches (ops t) n \<longrightarrow> written (ops t) = v"
  shows "bit (fold (\<lambda>t. effect (ops t)) ts w) n = (if \<exists>t \<in> set ts. touches (ops t) n then v else bit w n)"
  using assms by (induction ts arbitrary: w) (auto simp: bit_effect)

lemma concurrent_updates_lemma:
  assumes "(update_step ops)\<^sup>*\<^sup>* (update_start w) s" "n < 64"
    "\<forall>t. ws_pc s t = Finished \<and> touches (ops t) n \<longrightarrow> written (ops t) = v"
  shows "bit (ws_word s) n = (if \<exists>t. ws_pc s t = Finished \<and> touches (ops t) n then v else bit w n)"
proof -
  have inv: "ws_word s = fold (\<lambda>t. effect (ops t)) (ws_done s) w" "set (ws_done s) = {t. ws_pc s t = Finished}"
    using update_inv_reachable [OF assms(1)] by (simp_all add: update_inv_def)
  show ?thesis unfolding inv(1) by (subst fold_effect [OF assms(2), where v = v]) (use assms(3) inv(2) in auto)
qed

text \<open>
  C29. No update is lost: however the loops of the threads interleave on one word, at every moment a bit
  that only finished updates with the same value touch has that value, and a bit that no finished update
  touches is as it was at the start (updates still in their loop have no effect yet).
\<close>

theorem concurrent_updates_kept:
  assumes "(update_step ops)\<^sup>*\<^sup>* (update_start w) s" "n < 64"
    "\<forall>t. ws_pc s t = Finished \<and> touches (ops t) n \<longrightarrow> written (ops t) = v"
  shows "bit (ws_word s) n = (if \<exists>t. ws_pc s t = Finished \<and> touches (ops t) n then v else bit w n)"
  by (rule concurrent_updates_lemma [OF assms])

lemma concurrent_updates_kept_witness:
  "\<exists>s. (update_step (\<lambda>t. if t = 0 then Masked True 1 else Masked True 2))\<^sup>*\<^sup>* (update_start 0) s \<and> bit (ws_word s) 0 \<and> bit (ws_word s) 1"
proof -
  let ?ops = "\<lambda>t :: nat. if t = 0 then Masked True 1 else Masked True 2"
  let ?p1 = "(\<lambda>_. Load)(0 := Exchange 0)" let ?p2 = "?p1(1 := Exchange 0)" let ?p3 = "?p2(1 := Finished)"
  let ?p4 = "?p3(0 := Load)" let ?p5 = "?p4(0 := Exchange 2)" let ?p6 = "?p5(0 := Finished)"
  let ?s = "\<lambda>w p d. \<lparr>ws_word = w, ws_pc = p, ws_done = d\<rparr>"
  have 1: "update_step ?ops (update_start 0) (?s 0 ?p1 [])"
    using update_step.load [of "update_start 0" 0 ?ops True 1] by (simp add: update_start_def)
  have 2: "update_step ?ops (?s 0 ?p1 []) (?s 0 ?p2 [])"
    using update_step.load [of "?s 0 ?p1 []" 1 ?ops True 2] by simp
  have 3: "update_step ?ops (?s 0 ?p2 []) (?s 2 ?p3 [1])"
    using update_step.exchanged [of "?s 0 ?p2 []" 1 0 ?ops True 2] by (simp add: apply_mask_def)
  have 4: "update_step ?ops (?s 2 ?p3 [1]) (?s 2 ?p4 [1])"
    using update_step.retry [of "?s 2 ?p3 [1]" 0 0 ?ops] by simp
  have 5: "update_step ?ops (?s 2 ?p4 [1]) (?s 2 ?p5 [1])"
    using update_step.load [of "?s 2 ?p4 [1]" 0 ?ops True 1] by simp
  have 6: "update_step ?ops (?s 2 ?p5 [1]) (?s 3 ?p6 [1, 0])"
    using update_step.exchanged [of "?s 2 ?p5 [1]" 0 2 ?ops True 1] by (simp add: apply_mask_def)
  note into = rtranclp.rtrancl_into_rtrancl [where r = "update_step ?ops"]
  have r: "(update_step ?ops)\<^sup>*\<^sup>* (update_start 0) (?s 3 ?p6 [1, 0])"
    by (rule into [OF into [OF into [OF into [OF into [OF into [OF rtranclp.rtrancl_refl 1] 2] 3] 4] 5] 6])
  have "bit (ws_word (?s 3 ?p6 [1, 0])) 0" "bit (ws_word (?s 3 ?p6 [1, 0])) 1"
    by (subst concurrent_updates_kept [OF r, where v = True]; auto simp: bit_1_iff)+
  with r show ?thesis by blast
qed

end
