(* ===== verification/ReaderWriterLock.thy ===== *)
theory ReaderWriterLock
  imports Prelude
begin

text \<open>
  The lock of \<^verbatim>\<open>core/include/gnuradio-4.0/reader_writer_lock.hpp\<close>: a signed counter, positive while
  readers hold the lock and negative while writers do, changed by compare-and-swap loops. First the
  functions on the counter, then the loops of any number of threads, interleaved at every access to it.
  The 64-bit counter is an \<^typ>\<open>int\<close>: it is the number of threads that hold the lock at one time.
\<close>

section \<open>The operations on the counter\<close>

datatype lock_type = READ | WRITE

fun amount :: "lock_type \<Rightarrow> int" where
  "amount READ = 1"
| "amount WRITE = -1"

fun expected :: "lock_type \<Rightarrow> int \<Rightarrow> int" where
  "expected READ v = (if v < 0 then 0 else v)"
| "expected WRITE v = (if v > 0 then 0 else v)"

definition compare_exchange :: "int \<Rightarrow> int \<Rightarrow> int \<Rightarrow> bool \<times> int \<times> int" where
  "compare_exchange e desired count = (if count = e then (True, e, desired) else (False, count, count))"

definition tryLock :: "lock_type \<Rightarrow> int \<Rightarrow> int \<Rightarrow> bool \<times> int" where
  "tryLock ty loaded count =
     (let (ok, _, count') = compare_exchange (expected ty loaded) (expected ty loaded + amount ty) count in (ok, count'))"

definition lock_iteration :: "lock_type \<Rightarrow> int \<Rightarrow> int \<Rightarrow> bool \<times> int \<times> int" where
  "lock_iteration ty e count = compare_exchange (expected ty e) (expected ty e + amount ty) count"

definition unlock :: "lock_type \<Rightarrow> int \<Rightarrow> int \<times> int" where
  "unlock ty count = (case ty of READ \<Rightarrow> (count - 1, count - 1) | WRITE \<Rightarrow> (count + 1, count + 1))"

text \<open>
  The loop of \<^verbatim>\<open>lock\<close> on its own, with the values the counter has at its successive accesses:
  the value it returns and the counter it leaves, or nothing while it still spins.
\<close>

fun lock_loop :: "lock_type \<Rightarrow> int \<Rightarrow> int list \<Rightarrow> int option" where
  "lock_loop ty e [] = None"
| "lock_loop ty e (count # counts) =
     (let (ok, e', _) = lock_iteration ty e count in if ok then Some (e' + amount ty) else lock_loop ty e' counts)"

lemma expected_idem [simp]: "expected ty (expected ty v) = expected ty v"
  by (cases ty) auto

lemma expected_self: "expected ty v = v \<longleftrightarrow> 0 \<le> amount ty * v"
  by (cases ty) auto

lemma lock_iteration_result:
  "lock_iteration ty e count =
    (if count = expected ty e then (True, count, count + amount ty) else (False, count, count))"
  by (simp add: lock_iteration_def compare_exchange_def)

lemma unlock_result: "unlock ty count = (count - amount ty, count - amount ty)"
  by (cases ty) (simp_all add: unlock_def)

section \<open>The threads\<close>

datatype lock_pc = Outside | Trying lock_type int | Waiting lock_type int | Holding lock_type

record lock_state =
  lk_count :: int
  lk_pc :: "nat \<Rightarrow> lock_pc"

definition lock_start :: lock_state where
  "lock_start = \<lparr>lk_count = 0, lk_pc = \<lambda>_. Outside\<rparr>"

definition at_pc :: "nat \<Rightarrow> lock_pc \<Rightarrow> int \<Rightarrow> lock_state \<Rightarrow> lock_state" where
  "at_pc t pc count s = \<lparr>lk_count = count, lk_pc = (lk_pc s)(t := pc)\<rparr>"

inductive lock_step :: "nat \<Rightarrow> lock_state \<Rightarrow> lock_state \<Rightarrow> bool" where
  try_load: "lk_pc s t = Outside \<Longrightarrow> lock_step t s (at_pc t (Trying ty (lk_count s)) (lk_count s) s)"
| try_exchange: "lk_pc s t = Trying ty loaded \<Longrightarrow> tryLock ty loaded (lk_count s) = (ok, count) \<Longrightarrow>
    lock_step t s (at_pc t (if ok then Holding ty else Outside) count s)"
| lock_load: "lk_pc s t = Outside \<Longrightarrow> lock_step t s (at_pc t (Waiting ty (lk_count s)) (lk_count s) s)"
| lock_exchange: "lk_pc s t = Waiting ty e \<Longrightarrow> lock_iteration ty e (lk_count s) = (ok, e', count) \<Longrightarrow>
    lock_step t s (at_pc t (if ok then Holding ty else Waiting ty e') count s)"
| release: "lk_pc s t = Holding ty \<Longrightarrow> unlock ty (lk_count s) = (v, count) \<Longrightarrow> lock_step t s (at_pc t Outside count s)"

inductive_cases lock_stepE: "lock_step t s s'"
inductive_simps waiting_step: "lock_step t \<lparr>lk_count = c, lk_pc = (p(t := Waiting ty e))\<rparr> s'"

definition any_step :: "lock_state \<Rightarrow> lock_state \<Rightarrow> bool" where
  "any_step s s' \<longleftrightarrow> (\<exists>t. lock_step t s s')"

section \<open>Readers and writers exclude each other\<close>

definition holders :: "lock_type \<Rightarrow> lock_state \<Rightarrow> nat set" where
  "holders ty s = {t. lk_pc s t = Holding ty}"

definition opposite :: "lock_type \<Rightarrow> lock_type" where
  "opposite ty = (case ty of READ \<Rightarrow> WRITE | WRITE \<Rightarrow> READ)"

definition lock_inv :: "lock_state \<Rightarrow> bool" where
  "lock_inv s \<longleftrightarrow> finite (holders READ s) \<and> finite (holders WRITE s) \<and>
    lk_count s = int (card (holders READ s)) - int (card (holders WRITE s)) \<and>
    (holders READ s = {} \<or> holders WRITE s = {})"

text \<open>A thread that changes its place in the code enters or leaves the holders of one kind.\<close>

lemma holders_at_pc:
  "holders ty (at_pc t pc c s) = (if pc = Holding ty then insert t (holders ty s) else holders ty s - {t})"
  by (auto simp: holders_def at_pc_def)

lemma count_at_pc [simp]: "lk_count (at_pc t pc c s) = c"
  by (simp add: at_pc_def)

lemma not_holding: "lk_pc s t \<noteq> Holding ty \<Longrightarrow> t \<notin> holders ty s" "lk_pc s t = Holding ty \<Longrightarrow> t \<in> holders ty s"
  by (simp_all add: holders_def)

lemma inv_same:
  assumes "lock_inv s" "\<And>ty. lk_pc s t \<noteq> Holding ty" "\<And>ty. pc \<noteq> Holding ty" "c = lk_count s"
  shows "lock_inv (at_pc t pc c s)"
proof -
  have "holders ty (at_pc t pc c s) = holders ty s" for ty
    using assms(2,3) not_holding(1) [of s t ty] by (simp add: holders_at_pc)
  moreover have "lk_count (at_pc t pc c s) = lk_count s" by (simp add: at_pc_def assms(4))
  ultimately show ?thesis using assms(1) by (simp add: lock_inv_def)
qed

lemma count_sign:
  assumes "lock_inv s"
  shows "lk_count s \<ge> 0 \<longleftrightarrow> holders WRITE s = {}" "lk_count s \<le> 0 \<longleftrightarrow> holders READ s = {}"
  using assms by (auto simp: lock_inv_def card_gt_0_iff)

lemma inv_acquire:
  assumes "lock_inv s" "\<And>ty. lk_pc s t \<noteq> Holding ty" "lk_count s = expected ty e" "c = lk_count s + amount ty"
  shows "lock_inv (at_pc t (Holding ty) c s)"
proof -
  have out: "t \<notin> holders READ s" "t \<notin> holders WRITE s" using assms(2) not_holding(1) by auto
  have "0 \<le> amount ty * lk_count s" using assms(3) by (simp add: expected_self [symmetric])
  then show ?thesis
    using assms(1,4) out count_sign [OF assms(1)] by (cases ty) (auto simp: lock_inv_def holders_at_pc)
qed

lemma inv_release:
  assumes "lock_inv s" "lk_pc s t = Holding ty" "c = lk_count s - amount ty"
  shows "lock_inv (at_pc t Outside c s)"
proof -
  have "t \<in> holders ty s" using assms(2) by (rule not_holding(2))
  moreover from this have "0 < card (holders ty s)" using assms(1) by (cases ty) (auto simp: lock_inv_def card_gt_0_iff)
  moreover have "t \<notin> holders (opposite ty) s" using assms(2) by (cases ty) (auto simp: holders_def opposite_def)
  ultimately show ?thesis
    using assms(1,3) by (cases ty)
      (auto simp: lock_inv_def holders_at_pc opposite_def card_Diff_singleton_if of_nat_diff Suc_le_eq card_gt_0_iff)
qed

lemma lock_inv_step: "lock_step t s s' \<Longrightarrow> lock_inv s \<Longrightarrow> lock_inv s'"
  by (erule lock_stepE)
    (auto simp: tryLock_def compare_exchange_def lock_iteration_result unlock_result
      intro: inv_same inv_acquire [OF _ _ sym] inv_release split: if_splits)

lemma lock_inv_reachable: "any_step\<^sup>*\<^sup>* lock_start s \<Longrightarrow> lock_inv s"
proof (induction rule: rtranclp_induct)
  case base
  show ?case by (simp add: lock_inv_def lock_start_def holders_def)
next
  case (step y z)
  then show ?case unfolding any_step_def by (blast intro: lock_inv_step)
qed

text \<open>
  C30. In every state the threads can reach, readers and writers never hold the lock together, the counter
  is the number of readers that hold it less the number of writers, and so it is 0 exactly when the lock
  is free. Several threads may hold it for writing at one time.
\<close>

theorem readers_exclude_writers:
  assumes "any_step\<^sup>*\<^sup>* lock_start s"
  shows "(holders READ s = {} \<or> holders WRITE s = {}) \<and>
    lk_count s = int (card (holders READ s)) - int (card (holders WRITE s)) \<and>
    (lk_count s = 0 \<longleftrightarrow> holders READ s = {} \<and> holders WRITE s = {})"
  using lock_inv_reachable [OF assms] count_sign [OF lock_inv_reachable [OF assms]] by (auto simp: lock_inv_def)

lemma readers_exclude_writers_witness:
  "\<exists>s. any_step\<^sup>*\<^sup>* lock_start s \<and> holders WRITE s = {0, 1} \<and> lk_count s = -2"
proof -
  let ?p1 = "(\<lambda>_. Outside)(0 := Waiting WRITE 0)" let ?p2 = "?p1(1 := Trying WRITE 0)"
  let ?p3 = "?p2(1 := Holding WRITE)" let ?p4 = "?p3(0 := Waiting WRITE (-1))" let ?p5 = "?p4(0 := Holding WRITE)"
  let ?s = "\<lambda>c p. \<lparr>lk_count = c, lk_pc = p\<rparr>"
  have 1: "any_step lock_start (?s 0 ?p1)"
    unfolding any_step_def using lock_load [of lock_start 0 WRITE] by (auto simp: lock_start_def at_pc_def)
  have 2: "any_step (?s 0 ?p1) (?s 0 ?p2)"
    unfolding any_step_def using try_load [of "?s 0 ?p1" 1 WRITE] by (auto simp: at_pc_def)
  have 3: "any_step (?s 0 ?p2) (?s (-1) ?p3)"
    unfolding any_step_def using try_exchange [of "?s 0 ?p2" 1 WRITE 0 True "-1"]
    by (auto simp: at_pc_def tryLock_def compare_exchange_def)
  have 4: "any_step (?s (-1) ?p3) (?s (-1) ?p4)"
    unfolding any_step_def using lock_exchange [of "?s (-1) ?p3" 0 WRITE 0 False "-1" "-1"]
    by (auto simp: at_pc_def lock_iteration_result)
  have 5: "any_step (?s (-1) ?p4) (?s (-2) ?p5)"
    unfolding any_step_def using lock_exchange [of "?s (-1) ?p4" 0 WRITE "-1" True "-1" "-2"]
    by (auto simp: at_pc_def lock_iteration_result)
  note into = rtranclp.rtrancl_into_rtrancl [where r = any_step]
  have r: "any_step\<^sup>*\<^sup>* lock_start (?s (-2) ?p5)"
    by (rule into [OF into [OF into [OF into [OF into [OF rtranclp.rtrancl_refl 1] 2] 3] 4] 5])
  have h: "holders WRITE (?s (-2) ?p5) = {0, 1}" by (auto simp: holders_def split: if_splits)
  have "holders READ (?s (-2) ?p5) = {} \<or> holders WRITE (?s (-2) ?p5) = {}" by (rule conjunct1 [OF readers_exclude_writers [OF r]])
  with r h show ?thesis by (intro exI [of _ "?s (-2) ?p5"]) simp
qed

section \<open>A thread that is not disturbed gets the lock\<close>

lemma undisturbed_lemma:
  assumes "lock_inv s" "lk_pc s t = Waiting ty e" "holders (opposite ty) s = {}"
  shows "\<exists>s'. (lock_step t s s' \<or> (\<exists>s1. lock_step t s s1 \<and> lock_step t s1 s')) \<and> lk_pc s' t = Holding ty \<and>
    lk_count s' = lk_count s + amount ty"
proof -
  have free: "expected ty (lk_count s) = lk_count s"
    using count_sign [OF assms(1)] assms(3) by (cases ty) (auto simp: opposite_def)
  show ?thesis
  proof (cases "lk_count s = expected ty e")
    case True
    then show ?thesis
      using lock_exchange [OF assms(2), of True "lk_count s" "lk_count s + amount ty"]
      by (intro exI [of _ "at_pc t (Holding ty) (lk_count s + amount ty) s"]) (auto simp: at_pc_def lock_iteration_result)
  next
    case False
    let ?s1 = "at_pc t (Waiting ty (lk_count s)) (lk_count s) s"
    have 1: "lock_step t s ?s1"
      using lock_exchange [OF assms(2), of False "lk_count s" "lk_count s"] False by (simp add: lock_iteration_result)
    have 2: "lock_step t ?s1 (at_pc t (Holding ty) (lk_count s + amount ty) ?s1)"
      using lock_exchange [of ?s1 t ty "lk_count s" True "lk_count s" "lk_count s + amount ty"] free
      by (simp add: lock_iteration_result at_pc_def)
    show ?thesis using 1 2 by (intro exI [of _ "at_pc t (Holding ty) (lk_count s + amount ty) ?s1"]) (auto simp: at_pc_def)
  qed
qed

lemma lock_loop_returns: "0 \<le> amount ty * c \<Longrightarrow> lock_loop ty e (c # c # counts) = Some (c + amount ty)"
  by (auto simp: lock_iteration_result expected_self [symmetric])

lemma lock_loop_blocked: "\<forall>c \<in> set counts. amount ty * c < 0 \<Longrightarrow> lock_loop ty e counts = None"
proof (induction counts arbitrary: e)
  case (Cons c cs)
  have "c \<noteq> expected ty e" using Cons.prems expected_self [of ty "expected ty e"] by auto
  then show ?case using Cons by (simp add: lock_iteration_result)
qed simp



end
