(* ===== verification/SettingsStore.thy ===== *)
theory SettingsStore
  imports TagMap "HOL-Library.Multiset"
begin

text \<open>
  The settings of a block (\<^verbatim>\<open>core/include/gnuradio-4.0/SettingsCtx.hpp\<close>, \<^verbatim>\<open>Settings.hpp\<close> and
  \<^verbatim>\<open>core/src/Settings.cpp\<close>), first part: the stored sets of every context with their times, the search for the
  set that is valid at a time, and the operations that store, activate, remove and prune sets. A call reads
  the system clock through \<open>clk\<close>, whose \<open>n\<close>th value is its \<open>n\<close>th reading. The block is a value of type
  \<open>'b\<close> that the member descriptors and the hooks of the block type read and change.
\<close>

section \<open>Contexts\<close>

record settings_ctx =
  cx_time :: usize
  cx_context :: pmt

definition no_context :: settings_ctx where
  "no_context = \<lparr>cx_time = 0, cx_context = VString []\<rparr>"

definition comparePmt :: "pmt \<Rightarrow> pmt \<Rightarrow> ordering option" where
  "comparePmt l r =
     (if container_type_of l \<noteq> container_type_of r
      then Some (int_order (int (container_tag (container_type_of l))) (int (container_tag (container_type_of r))))
      else if value_type_of l \<noteq> value_type_of r
      then Some (int_order (int (value_tag (value_type_of l))) (int (value_tag (value_type_of r))))
      else (case (l, r) of
          (VString a, VString b) \<Rightarrow> Some (string_order a b)
        | (VInt32 a, VInt32 b) \<Rightarrow> Some (int_order (sint a) (sint b))
        | _ \<Rightarrow> None))"

definition pmt_less :: "pmt \<Rightarrow> pmt \<Rightarrow> bool" where
  "pmt_less l r \<longleftrightarrow> comparePmt l r = Some Less"

definition compare_ctx :: "settings_ctx \<Rightarrow> settings_ctx \<Rightarrow> ordering option" where
  "compare_ctx a b =
     (if cx_time a \<noteq> cx_time b then Some (int_order (uint (cx_time a)) (uint (cx_time b)))
      else comparePmt (cx_context a) (cx_context b))"

text \<open>The contexts \<^const>\<open>comparePmt\<close> orders; another one makes it throw once it meets its own type.\<close>

fun ctx_ok :: "pmt \<Rightarrow> bool" where
  "ctx_ok (VString _) = True"
| "ctx_ok (VInt32 _) = True"
| "ctx_ok _ = False"

section \<open>The stored sets\<close>

type_synonym ctx_pair = "settings_ctx \<times> property_map"
type_synonym stored = "(pmt \<times> ctx_pair list) list"

definition pair_time :: "ctx_pair \<Rightarrow> usize" where
  "pair_time p = cx_time (fst p)"

definition stored_at :: "pmt \<Rightarrow> stored \<Rightarrow> ctx_pair list" where
  "stored_at c st = (case map_of st c of None \<Rightarrow> [] | Some v \<Rightarrow> v)"

definition stored_put :: "pmt \<Rightarrow> ctx_pair list \<Rightarrow> stored \<Rightarrow> stored" where
  "stored_put c v st =
     (if map_of st c \<noteq> None then AList.update c v st
      else takeWhile (\<lambda>e. \<not> pmt_less c (fst e)) st @ (c, v) # dropWhile (\<lambda>e. \<not> pmt_less c (fst e)) st)"

definition lower_bound :: "usize \<Rightarrow> ctx_pair list \<Rightarrow> nat" where
  "lower_bound t vec = length (takeWhile (\<lambda>p. pair_time p < t) vec)"

definition upper_bound :: "usize \<Rightarrow> ctx_pair list \<Rightarrow> nat" where
  "upper_bound t vec = length (takeWhile (\<lambda>p. pair_time p \<le> t) vec)"

section \<open>Searching\<close>

type_synonym match_predicate = "pmt \<Rightarrow> pmt \<Rightarrow> nat \<Rightarrow> bool option"

definition kMaxMatchAttempts :: nat where
  "kMaxMatchAttempts = 64"

text \<open>One pass over the contexts: nothing to go on, or the result of the search.\<close>

fun match_pass :: "match_predicate \<Rightarrow> pmt \<Rightarrow> nat \<Rightarrow> stored \<Rightarrow> pmt option option" where
  "match_pass P c attempt [] = None"
| "match_pass P c attempt ((k, _) # st) =
     (case P k c attempt of
        None \<Rightarrow> Some None
      | Some True \<Rightarrow> Some (Some k)
      | Some False \<Rightarrow> match_pass P c attempt st)"

fun match_attempts :: "match_predicate \<Rightarrow> pmt \<Rightarrow> stored \<Rightarrow> nat \<Rightarrow> nat \<Rightarrow> pmt option" where
  "match_attempts P c st attempt 0 = None"
| "match_attempts P c st attempt (Suc n) =
     (case match_pass P c attempt st of
        Some r \<Rightarrow> r
      | None \<Rightarrow> match_attempts P c st (attempt + 1) n)"

definition findBestMatchCtx :: "match_predicate \<Rightarrow> pmt \<Rightarrow> stored \<Rightarrow> pmt option" where
  "findBestMatchCtx P c st =
     (if st = [] then None
      else if map_of st c \<noteq> None then Some c
      else match_attempts P c st 0 kMaxMatchAttempts)"

definition best_in :: "usize \<Rightarrow> ctx_pair list \<Rightarrow> settings_ctx option" where
  "best_in t vec =
     (if vec = [] then None
      else if t = 0 \<or> pair_time (last vec) \<le> t then Some (fst (last vec))
      else (let lower = lower_bound t vec
            in if lower = length vec then Some (fst (last vec))
               else if pair_time (vec ! lower) = t then Some (fst (vec ! lower))
               else if lower \<noteq> 0 then Some (fst (vec ! (lower - 1)))
               else None))"

definition findBestMatchSettingsCtx :: "match_predicate \<Rightarrow> settings_ctx \<Rightarrow> stored \<Rightarrow> settings_ctx option" where
  "findBestMatchSettingsCtx P ctx st =
     (case findBestMatchCtx P (cx_context ctx) st of
        None \<Rightarrow> None
      | Some c \<Rightarrow> best_in (cx_time ctx) (stored_at c st))"

definition findCurrentDefaultCtx :: "match_predicate \<Rightarrow> usize \<Rightarrow> stored \<Rightarrow> settings_ctx option" where
  "findCurrentDefaultCtx P now st = findBestMatchSettingsCtx P (no_context\<lparr>cx_time := now\<rparr>) st"

definition getBestMatchStoredParameters :: "match_predicate \<Rightarrow> settings_ctx \<Rightarrow> stored \<Rightarrow> property_map option" where
  "getBestMatchStoredParameters P ctx st =
     (case findBestMatchSettingsCtx P ctx st of
        None \<Rightarrow> None
      | Some best \<Rightarrow> map_of (stored_at (cx_context best) st) best)"

type_synonym auto_update = "settings_ctx \<rightharpoonup> string set"

definition getBestMatchAutoUpdateParameters :: "match_predicate \<Rightarrow> settings_ctx \<Rightarrow> stored \<Rightarrow> auto_update \<Rightarrow> string set option" where
  "getBestMatchAutoUpdateParameters P ctx st au =
     (case findBestMatchSettingsCtx P ctx st of
        None \<Rightarrow> None
      | Some best \<Rightarrow> au best)"

definition resolveDuplicateTimestamp :: "settings_ctx \<Rightarrow> stored \<Rightarrow> settings_ctx" where
  "resolveDuplicateTimestamp ctx st =
     (let vec = stored_at (cx_context ctx) st; tolerance = 1000;
          lower = lower_bound (cx_time ctx) vec; upper = upper_bound (cx_time ctx + tolerance) vec
      in if vec = [] then ctx
         else if lower \<noteq> upper \<and> lower \<noteq> length vec then ctx\<lparr>cx_time := pair_time (vec ! (upper - 1)) + 1\<rparr>
         else ctx)"

section \<open>Storing and pruning\<close>

definition value_or :: "'a option \<Rightarrow> 'a \<Rightarrow> 'a" where
  "value_or x d = (case x of None \<Rightarrow> d | Some v \<Rightarrow> v)"

definition insert_sorted :: "ctx_pair \<Rightarrow> ctx_pair list \<Rightarrow> ctx_pair list" where
  "insert_sorted p vec = (let i = lower_bound (pair_time p) vec in take i vec @ p # drop i vec)"

definition addStoredParameters ::
  "match_predicate \<Rightarrow> string set \<Rightarrow> property_map \<Rightarrow> settings_ctx \<Rightarrow> stored \<times> auto_update \<Rightarrow> stored \<times> auto_update" where
  "addStoredParameters P writable new ctx = (\<lambda>(st, au).
     (stored_put (cx_context ctx) (insert_sorted (ctx, new) (stored_at (cx_context ctx) st)) st,
      if au ctx = None then au(ctx \<mapsto> value_or (getBestMatchAutoUpdateParameters P ctx st au) writable) else au))"

definition isExpired :: "usize \<Rightarrow> usize \<Rightarrow> ctx_pair \<Rightarrow> bool" where
  "isExpired expiry now p \<longleftrightarrow> pair_time p + expiry \<le> now"

definition drop_expired :: "usize \<Rightarrow> usize \<Rightarrow> ctx_pair list \<Rightarrow> ctx_pair list" where
  "drop_expired expiry now vec = (if expiry \<noteq> usize_max then [p \<leftarrow> vec. \<not> isExpired expiry now p] else vec)"

text \<open>The number of sets before the past set that is kept.\<close>

definition past_sets :: "usize \<Rightarrow> ctx_pair list \<Rightarrow> nat" where
  "past_sets now vec =
     (let lower = lower_bound now vec
      in if vec = [] then 0
         else if lower = length vec then length vec - 1
         else if pair_time (vec ! lower) = now then lower
         else if lower \<noteq> 0 \<and> lower - 1 \<noteq> 0 then lower - 1
         else 0)"

definition prune :: "usize \<Rightarrow> usize \<Rightarrow> ctx_pair list \<Rightarrow> ctx_pair list" where
  "prune expiry now vec = (let v = drop_expired expiry now vec in drop (past_sets now v) v)"

definition pruned :: "usize \<Rightarrow> usize \<Rightarrow> ctx_pair list \<Rightarrow> settings_ctx list" where
  "pruned expiry now vec =
     (let v = drop_expired expiry now vec
      in (if expiry \<noteq> usize_max then map fst [p \<leftarrow> vec. isExpired expiry now p] else []) @ map fst (take (past_sets now v) v))"

definition erase_auto :: "settings_ctx list \<Rightarrow> auto_update \<Rightarrow> auto_update" where
  "erase_auto cs au = (\<lambda>c. if c \<in> set cs then None else au c)"

definition removeExpiredStoredParameters :: "usize \<Rightarrow> usize \<Rightarrow> stored \<times> auto_update \<Rightarrow> stored \<times> auto_update" where
  "removeExpiredStoredParameters expiry now = (\<lambda>(st, au).
     (map (\<lambda>(c, vec). (c, prune expiry now vec)) st,
      erase_auto (concat (map (\<lambda>(c, vec). pruned expiry now vec) st)) au))"

definition kMaxContexts :: nat where "kMaxContexts = 256"
definition kMaxPendingSets :: nat where "kMaxPendingSets = 16"

datatype refusal = TooManyContexts | TooManyPendingSets

definition n_contexts :: "stored \<Rightarrow> nat" where
  "n_contexts st = length [e \<leftarrow> st. snd e \<noteq> []]"

definition n_pending :: "usize \<Rightarrow> ctx_pair list \<Rightarrow> nat" where
  "n_pending now vec = length [p \<leftarrow> vec. now < pair_time p]"

definition refuseStoredSet :: "stored \<Rightarrow> settings_ctx \<Rightarrow> bool \<Rightarrow> usize \<Rightarrow> refusal option" where
  "refuseStoredSet st ctx forLaterTime now =
     (let vec = stored_at (cx_context ctx) st
      in if vec = [] then (if kMaxContexts \<le> n_contexts st then Some TooManyContexts else None)
         else if \<not> forLaterTime then None
         else if kMaxPendingSets \<le> n_pending now vec then Some TooManyPendingSets
         else None)"

section \<open>Descriptors and state\<close>

text \<open>
  A member as \<^verbatim>\<open>MemberDescriptor\<close> describes it. \<open>mb_set\<close> converts a value to the one that is stored, or gives the
  conversion's error; \<open>mb_auto\<close> gives the value a tag stages, if the member takes it; \<open>mb_apply\<close> writes the
  member unless it rejects the value; a null accessor is \<open>None\<close>. A writable member has all three.
\<close>

record 'b member =
  mb_name :: string
  mb_set :: "(string \<Rightarrow> pmt \<Rightarrow> string + pmt) option"
  mb_auto :: "pmt \<Rightarrow> pmt option"
  mb_apply :: "string \<Rightarrow> pmt \<Rightarrow> 'b \<Rightarrow> 'b option"
  mb_read :: "('b \<Rightarrow> pmt) option"
  mb_limits :: "(string \<Rightarrow> pmt \<Rightarrow> string option) option"

record 'b meta_hook =
  mt_read :: "'b \<Rightarrow> property_map"
  mt_write :: "property_map \<Rightarrow> 'b \<Rightarrow> 'b"

record 'b descriptor =
  ds_members :: "'b member list"
  ds_reflectable :: bool
  ds_meta :: "'b meta_hook option"

definition writableByName :: "'b descriptor \<Rightarrow> string \<Rightarrow> 'b member option" where
  "writableByName D k = find (\<lambda>m. mb_name m = k \<and> mb_set m \<noteq> None) (ds_members D)"

definition writableMembers :: "'b descriptor \<Rightarrow> string set" where
  "writableMembers D = set (map mb_name [m \<leftarrow> ds_members D. mb_set m \<noteq> None])"

definition readable_members :: "'b descriptor \<Rightarrow> 'b member list" where
  "readable_members D = [m \<leftarrow> ds_members D. mb_read m \<noteq> None]"

definition readableMembers :: "'b descriptor \<Rightarrow> string set" where
  "readableMembers D = set (map mb_name (readable_members D))"

record 'b settings =
  ss_changed :: bool
  ss_stored :: stored
  ss_defaults :: property_map
  ss_init :: property_map
  ss_auto :: auto_update
  ss_pred :: match_predicate
  ss_active :: settings_ctx
  ss_contextActivated :: bool
  ss_contextBefore :: "settings_ctx option"
  ss_autoBefore :: "auto_update option"
  ss_staged :: property_map
  ss_tagged :: "string set"
  ss_couplings :: "(string \<times> string) list"
  ss_activeParams :: property_map
  ss_expiry :: usize
  ss_block :: 'b

definition nullMatchPred :: match_predicate where
  "nullMatchPred = (\<lambda>_ _ _. None)"

definition new_settings :: "'b \<Rightarrow> 'b settings" where
  "new_settings b = \<lparr>ss_changed = False, ss_stored = [], ss_defaults = [], ss_init = [], ss_auto = Map.empty,
     ss_pred = nullMatchPred, ss_active = no_context, ss_contextActivated = False, ss_contextBefore = None,
     ss_autoBefore = None, ss_staged = [], ss_tagged = {}, ss_couplings = [], ss_activeParams = [],
     ss_expiry = usize_max, ss_block = b\<rparr>"

datatype settings_error =
  Refused refusal
| NotConvertible string
| OutsideLimits string pmt
| NotSet property_map
| NoContext
| CallbackThrew string
| BadCoupling string

definition best_stored :: "'b settings \<Rightarrow> settings_ctx \<Rightarrow> property_map option" where
  "best_stored s ctx = getBestMatchStoredParameters (ss_pred s) ctx (ss_stored s)"

definition best_ctx :: "'b settings \<Rightarrow> settings_ctx \<Rightarrow> settings_ctx option" where
  "best_ctx s ctx = findBestMatchSettingsCtx (ss_pred s) ctx (ss_stored s)"

definition best_auto :: "'b settings \<Rightarrow> settings_ctx \<Rightarrow> string set option" where
  "best_auto s ctx = getBestMatchAutoUpdateParameters (ss_pred s) ctx (ss_stored s) (ss_auto s)"

section \<open>Reading\<close>

definition select_keys :: "string list \<Rightarrow> property_map \<Rightarrow> property_map" where
  "select_keys ks m =
     (if ks = [] then m
      else fold (\<lambda>k r. case map_of m k of None \<Rightarrow> r | Some v \<Rightarrow> AList.update k v r) ks [])"

definition settings_get :: "string list \<Rightarrow> 'b settings \<Rightarrow> property_map" where
  "settings_get ks s = select_keys ks (ss_activeParams s)"

definition settings_get_one :: "string \<Rightarrow> 'b settings \<Rightarrow> pmt option" where
  "settings_get_one k s = map_of (settings_get [k] s) k"

definition at_now :: "usize \<Rightarrow> settings_ctx \<Rightarrow> settings_ctx" where
  "at_now now ctx = (if cx_time ctx = 0 then ctx\<lparr>cx_time := now\<rparr> else ctx)"

definition getStored :: "usize \<Rightarrow> string list \<Rightarrow> settings_ctx \<Rightarrow> 'b settings \<Rightarrow> property_map option" where
  "getStored now ks ctx s = map_option (select_keys ks) (best_stored s (at_now now ctx))"

definition getStored_one :: "usize \<Rightarrow> string \<Rightarrow> settings_ctx \<Rightarrow> 'b settings \<Rightarrow> pmt option" where
  "getStored_one now k ctx s = (case getStored now [k] ctx s of None \<Rightarrow> None | Some m \<Rightarrow> map_of m k)"

definition getNStoredParameters :: "'b settings \<Rightarrow> nat" where
  "getNStoredParameters s = sum_list (map (\<lambda>e. length (snd e)) (ss_stored s))"

text \<open>Reading the keys that follow tags creates an empty entry where there is none.\<close>

definition autoUpdateParameters :: "settings_ctx \<Rightarrow> 'b settings \<Rightarrow> string set \<times> 'b settings" where
  "autoUpdateParameters ctx s =
     (case best_ctx s ctx of
        None \<Rightarrow> ({}, s)
      | Some best \<Rightarrow>
          (case ss_auto s best of
             Some ks \<Rightarrow> (ks, s)
           | None \<Rightarrow> ({}, s\<lparr>ss_auto := (ss_auto s)(best \<mapsto> {})\<rparr>)))"

section \<open>Storing a set\<close>

fun set_params :: "'b descriptor \<Rightarrow> property_map \<Rightarrow> property_map \<times> string set \<times> property_map \<Rightarrow>
    settings_error + (property_map \<times> string set \<times> property_map)" where
  "set_params D [] acc = Inr acc"
| "set_params D ((key, v) # ps) (new, auto, ret) =
     (if is_monostate v then set_params D ps (new, auto, ret)
      else (case writableByName D key of
          None \<Rightarrow> set_params D ps (new, auto, AList.update key v ret)
        | Some m \<Rightarrow>
            (case the (mb_set m) key v of
               Inl e \<Rightarrow> Inl (NotConvertible e)
             | Inr w \<Rightarrow>
                 if (case mb_limits m of None \<Rightarrow> False | Some refuses \<Rightarrow> refuses key v \<noteq> None)
                 then Inl (OutsideLimits key v)
                 else set_params D ps (AList.update key w new, auto - {key}, ret))))"

definition to_meta :: "'b descriptor \<Rightarrow> property_map \<Rightarrow> 'b \<Rightarrow> 'b" where
  "to_meta D ret b =
     (case ds_meta D of None \<Rightarrow> b | Some h \<Rightarrow> mt_write h (updateMaps ret (mt_read h b)) b)"

definition start_auto :: "'b descriptor \<Rightarrow> settings_ctx \<Rightarrow> 'b settings \<Rightarrow> string set" where
  "start_auto D ctx s = value_or (case ss_auto s ctx of None \<Rightarrow> best_auto s ctx | a \<Rightarrow> a) (writableMembers D)"

definition store_set :: "'b descriptor \<Rightarrow> usize \<Rightarrow> property_map \<Rightarrow> string set \<Rightarrow> settings_ctx \<Rightarrow> 'b settings \<Rightarrow> 'b settings" where
  "store_set D now new auto ctx s =
     (let (st, au) = removeExpiredStoredParameters (ss_expiry s) now
            (addStoredParameters (ss_pred s) (writableMembers D) new ctx (ss_stored s, (ss_auto s)(ctx \<mapsto> auto)))
      in s\<lparr>ss_stored := st, ss_auto := au\<rparr>)"

definition setImpl :: "'b descriptor \<Rightarrow> (nat \<Rightarrow> usize) \<Rightarrow> property_map \<Rightarrow> settings_ctx \<Rightarrow> 'b settings \<Rightarrow>
    (settings_error + property_map) \<times> 'b settings" where
  "setImpl D clk params ctx s =
     (if \<not> ds_reflectable D then (Inr [], s\<lparr>ss_block := to_meta D [] (ss_block s)\<rparr>)
      else (let now = clk 0; c = at_now now ctx
            in case refuseStoredSet (ss_stored s) c (now < cx_time c) now of
                 Some r \<Rightarrow> (Inl (Refused r), s)
               | None \<Rightarrow>
                   (case set_params D params (value_or (best_stored s c) (ss_defaults s), start_auto D c s, []) of
                      Inl e \<Rightarrow> (Inl e, s)
                    | Inr (new, auto, ret) \<Rightarrow>
                        (Inr ret, (store_set D (clk 1) new auto c s)\<lparr>ss_block := to_meta D ret (ss_block s)\<rparr>))))"

section \<open>Staging\<close>

fun convert_all :: "'b descriptor \<Rightarrow> property_map \<Rightarrow> property_map \<times> property_map \<Rightarrow>
    settings_error + (property_map \<times> property_map)" where
  "convert_all D [] acc = Inr acc"
| "convert_all D ((key, v) # ps) (converted, ret) =
     (case writableByName D key of
        None \<Rightarrow> convert_all D ps (converted, AList.update key v ret)
      | Some m \<Rightarrow>
          (case the (mb_set m) key v of
             Inl e \<Rightarrow> Inl (NotConvertible e)
           | Inr w \<Rightarrow> convert_all D ps (AList.update key w converted, ret)))"

definition stage_all :: "property_map \<Rightarrow> property_map \<Rightarrow> property_map" where
  "stage_all converted staged = fold (\<lambda>(k, v). AList.update k v) converted staged"

definition setStagedImpl :: "'b descriptor \<Rightarrow> property_map \<Rightarrow> 'b settings \<Rightarrow> (settings_error + property_map) \<times> 'b settings" where
  "setStagedImpl D params s =
     (case (if ds_reflectable D then convert_all D params ([], []) else Inr ([], [])) of
        Inl e \<Rightarrow> (Inl e, s)
      | Inr (converted, ret) \<Rightarrow>
          (let staged = stage_all converted (ss_staged s)
           in (Inr ret, s\<lparr>ss_staged := staged, ss_tagged := ss_tagged s - fst ` set converted,
                          ss_changed := (ss_changed s \<or> staged \<noteq> [])\<rparr>)))"

text \<open>\<open>map.insert(first, last)\<close>: only the keys the map does not hold.\<close>

definition insert_missing :: "property_map \<Rightarrow> property_map \<Rightarrow> property_map" where
  "insert_missing new m = fold (\<lambda>(k, v). try_emplace k v) new m"

section \<open>Activating and removing contexts\<close>

definition fill_auto :: "'b descriptor \<Rightarrow> settings_ctx \<Rightarrow> 'b settings \<Rightarrow> 'b settings" where
  "fill_auto D c s =
     (if ss_auto s c = None then s\<lparr>ss_auto := (ss_auto s)(c \<mapsto> value_or (best_auto s c) (writableMembers D))\<rparr> else s)"

definition activateContextImpl :: "'b descriptor \<Rightarrow> usize \<Rightarrow> settings_ctx \<Rightarrow> 'b settings \<Rightarrow>
    (settings_error + settings_ctx option) \<times> 'b settings" where
  "activateContextImpl D now ctx0 s =
     (let ctx = at_now now ctx0
      in case best_ctx s ctx of
           None \<Rightarrow> (Inr None, s)
         | Some best \<Rightarrow>
             if best = ss_active s then (Inr (Some best), s)
             else if cx_context best = cx_context (ss_active s) then
               (case best_stored s ctx of
                  None \<Rightarrow> (Inr (Some best), s)
                | Some params \<Rightarrow>
                    (let s1 = fill_auto D best s;
                         auto = the (ss_auto s1 best);
                         (r, s2) = setStagedImpl D [p \<leftarrow> params. fst p \<notin> auto] s1
                     in case r of
                          Inl e \<Rightarrow> (Inl e, s2)
                        | Inr _ \<Rightarrow> (Inr (Some best), s2\<lparr>ss_active := best, ss_changed := True\<rparr>)))
             else
               (case best_stored s ctx of
                  None \<Rightarrow> (Inr None, s)
                | Some params \<Rightarrow>
                    (Inr (Some best),
                     s\<lparr>ss_staged := insert_missing params (ss_staged s),
                       ss_contextBefore := (if ss_contextActivated s then ss_contextBefore s else Some (ss_active s)),
                       ss_active := best, ss_contextActivated := True, ss_changed := True\<rparr>)))"

text \<open>The set at position \<open>i\<close> of a context removed, and the fallback when its context was active.\<close>

definition remove_set :: "pmt \<Rightarrow> nat \<Rightarrow> usize \<Rightarrow> 'b settings \<Rightarrow> 'b settings" where
  "remove_set c i now s =
     (let vec = stored_at c (ss_stored s); exact = fst (vec ! i); vec' = take i vec @ drop (i + 1) vec;
          st = (if vec' = [] then AList.delete c (ss_stored s) else stored_put c vec' (ss_stored s));
          s1 = s\<lparr>ss_auto := (ss_auto s)(exact := None), ss_stored := st\<rparr>
      in if ss_contextBefore s = Some exact
         then s1\<lparr>ss_contextBefore := findCurrentDefaultCtx (ss_pred s) now st\<rparr> else s1)"

definition leave_context :: "'b descriptor \<Rightarrow> usize \<Rightarrow> pmt \<Rightarrow> 'b settings \<Rightarrow> (settings_error + bool) \<times> 'b settings" where
  "leave_context D now c s =
     (if cx_context (ss_active s) = c
      then (case activateContextImpl D now no_context s of
              (Inl e, s') \<Rightarrow> (Inl e, s')
            | (Inr _, s') \<Rightarrow> (Inr True, s'\<lparr>ss_contextBefore := None\<rparr>))
      else (Inr True, s))"

definition removeContextImpl :: "'b descriptor \<Rightarrow> (nat \<Rightarrow> usize) \<Rightarrow> settings_ctx \<Rightarrow> 'b settings \<Rightarrow>
    (settings_error + bool) \<times> 'b settings" where
  "removeContextImpl D clk ctx0 s =
     (if string_or [] (cx_context ctx0) = [] then (Inr False, s)
      else if map_of (ss_stored s) (cx_context ctx0) = None then (Inr False, s)
      else (let ctx = at_now (clk 0) ctx0; vec = stored_at (cx_context ctx) (ss_stored s);
                i = length (takeWhile (\<lambda>p. pair_time p \<noteq> cx_time ctx) vec)
            in if i = length vec then (Inr False, s)
               else leave_context D (clk 2) (cx_context ctx) (remove_set (cx_context ctx) i (clk 1) s)))"

section \<open>Contexts and their order\<close>

lemma string_order_same [simp]: "string_order a b = Equivalent \<longleftrightarrow> a = b"
  by (induction a b rule: string_order.induct) (auto simp: of_char_eq_iff split: if_splits)

lemma int_order_eq [simp]: "int_order a b = Equivalent \<longleftrightarrow> a = b" "int_order a b = Less \<longleftrightarrow> a < b"
  by (auto simp: int_order_def)

lemma sint_inj: "sint a = sint b \<longleftrightarrow> a = b" for a b :: "'a :: len word"
  by (metis of_int_sint scast_id)

text \<open>On the contexts it orders, equivalence of \<^const>\<open>comparePmt\<close> and equality of values are identity.\<close>

lemma comparePmt_same:
  assumes "ctx_ok a" "ctx_ok b"
  shows "comparePmt a b = Some Equivalent \<longleftrightarrow> a = b" "pmt_eq a b \<longleftrightarrow> a = b"
proof -
  show "comparePmt a b = Some Equivalent \<longleftrightarrow> a = b"
    using assms by (cases a; cases b) (auto simp: comparePmt_def container_type_of_def value_type_of_def container_tag_def sint_inj)
  show "pmt_eq a b \<longleftrightarrow> a = b"
    using assms by (cases a; cases b) (auto simp: same_type_def compare_scalar_eq_def string_eq_def container_type_of_def value_type_of_def)
qed

section \<open>Sets sorted by time\<close>

definition sorted_sets :: "ctx_pair list \<Rightarrow> bool" where
  "sorted_sets vec \<longleftrightarrow> sorted (map pair_time vec)"

lemma take_lower_bound: "take (lower_bound t vec) vec = takeWhile (\<lambda>p. pair_time p < t) vec"
  by (simp add: lower_bound_def takeWhile_eq_take [symmetric])

lemma drop_lower_bound: "drop (lower_bound t vec) vec = dropWhile (\<lambda>p. pair_time p < t) vec"
  by (simp add: lower_bound_def dropWhile_eq_drop [symmetric])

lemma lower_bound_le: "lower_bound t vec \<le> length vec"
  by (simp add: lower_bound_def length_takeWhile_le)

lemma before_lower_bound: "i < lower_bound t vec \<Longrightarrow> pair_time (vec ! i) < t"
  unfolding lower_bound_def by (metis nth_mem set_takeWhileD takeWhile_nth)

lemma after_lower_bound:
  assumes "sorted_sets vec" "lower_bound t vec \<le> i" "i < length vec"
  shows "t \<le> pair_time (vec ! i)"
proof -
  have "\<not> pair_time (vec ! lower_bound t vec) < t"
    using nth_length_takeWhile [of "\<lambda>p. pair_time p < t" vec] assms(2,3) by (auto simp: lower_bound_def)
  moreover have "pair_time (vec ! lower_bound t vec) \<le> pair_time (vec ! i)"
    using assms sorted_nth_mono [of "map pair_time vec" "lower_bound t vec" i] by (simp add: sorted_sets_def)
  ultimately show ?thesis by simp
qed

lemma sorted_sets_nth: "sorted_sets vec \<Longrightarrow> i \<le> j \<Longrightarrow> j < length vec \<Longrightarrow> pair_time (vec ! i) \<le> pair_time (vec ! j)"
  using sorted_nth_mono [of "map pair_time vec" i j] by (simp add: sorted_sets_def)

text \<open>The sets of one context differ in their times only.\<close>

definition sets_of :: "pmt \<Rightarrow> ctx_pair list \<Rightarrow> bool" where
  "sets_of c vec \<longleftrightarrow> sorted_sets vec \<and> (\<forall>p \<in> set vec. cx_context (fst p) = c)"

definition latest :: "usize \<Rightarrow> ctx_pair list \<Rightarrow> settings_ctx \<Rightarrow> bool" where
  "latest t vec x \<longleftrightarrow> x \<in> fst ` set vec \<and> cx_time x \<le> t \<and> (\<forall>p \<in> set vec. pair_time p \<le> t \<longrightarrow> pair_time p \<le> cx_time x)"

lemma sorted_last: "sorted_sets vec \<Longrightarrow> p \<in> set vec \<Longrightarrow> pair_time p \<le> pair_time (last vec)"
  by (metis One_nat_def Suc_pred diff_less in_set_conv_nth last_conv_nth length_greater_0_conv length_pos_if_in_set
      less_Suc_eq_le sorted_sets_nth zero_less_one)


lemma best_in_latest:
  assumes "sorted_sets vec" "t \<noteq> 0" "best_in t vec = Some x"
  shows "latest t vec x"
proof (cases "pair_time (last vec) \<le> t")
  case True
  then have "vec \<noteq> []" "x = fst (last vec)" using assms(2,3) by (auto simp: best_in_def split: if_splits)
  then show ?thesis using True sorted_last [OF assms(1)] by (auto simp: latest_def pair_time_def)
next
  case False
  let ?l = "lower_bound t vec"
  have ne: "vec \<noteq> []" using assms(3) by (auto simp: best_in_def)
  have l: "?l < length vec"
  proof (rule ccontr)
    assume "\<not> ?l < length vec"
    then have "length vec - 1 < ?l" using ne by (cases vec) auto
    then show False using before_lower_bound [of "length vec - 1" t vec] False ne by (simp add: last_conv_nth)
  qed
  consider (eq) "pair_time (vec ! ?l) = t" "x = fst (vec ! ?l)"
    | (before) "pair_time (vec ! ?l) \<noteq> t" "?l \<noteq> 0" "x = fst (vec ! (?l - 1))"
    using assms(2,3) False l ne by (auto simp: best_in_def Let_def split: if_splits)
  then show ?thesis
  proof cases
    case eq
    then show ?thesis using l by (simp add: latest_def pair_time_def)
  next
    case before
    have "pair_time p \<le> cx_time x" if p: "p \<in> set vec" "pair_time p \<le> t" for p
    proof -
      obtain i where i: "i < length vec" "p = vec ! i" using p(1) by (metis in_set_conv_nth)
      have "i < ?l"
      proof (rule ccontr)
        assume "\<not> i < ?l"
        then have "pair_time (vec ! ?l) \<le> pair_time p" using sorted_sets_nth [OF assms(1), of ?l i] i by simp
        moreover have "t \<le> pair_time (vec ! ?l)" by (rule after_lower_bound [OF assms(1) order_refl l])
        ultimately show False using p(2) before(1) by simp
      qed
      then show ?thesis using sorted_sets_nth [OF assms(1), of i "?l - 1"] l before i by (simp add: pair_time_def)
    qed
    moreover have "cx_time x < t" using before_lower_bound [of "?l - 1" t vec] before by (simp add: pair_time_def)
    moreover have "x \<in> fst ` set vec" using before l by simp
    ultimately show ?thesis by (simp add: latest_def less_imp_le)
  qed
qed

lemma best_in_none:
  assumes "sorted_sets vec" "t \<noteq> 0" "best_in t vec = None" "p \<in> set vec"
  shows "t < pair_time p"
proof -
  have l: "lower_bound t vec = 0" "\<not> pair_time (last vec) \<le> t" "vec ! 0 \<in> set vec" "pair_time (vec ! 0) \<noteq> t" "vec \<noteq> []"
    using assms by (auto simp: best_in_def Let_def split: if_splits)
  obtain i where i: "i < length vec" "p = vec ! i" using assms(4) by (metis in_set_conv_nth)
  have "t \<le> pair_time (vec ! 0)" using after_lower_bound [OF assms(1), of t 0] l(1,5) by simp
  moreover have "pair_time (vec ! 0) \<le> pair_time p" using sorted_sets_nth [OF assms(1), of 0 i] i by simp
  ultimately show ?thesis using l(4) by simp
qed

lemma latest_unique:
  assumes "sets_of c vec" "latest t vec x" "latest t vec y"
  shows "x = y"
proof -
  have "cx_time x = cx_time y" using assms(2,3) by (auto simp: latest_def pair_time_def intro!: antisym)
  moreover have "cx_context x = c" "cx_context y = c" using assms by (auto simp: latest_def sets_of_def)
  ultimately show ?thesis by simp
qed

lemma best_in_iff:
  assumes "sets_of c vec" "t \<noteq> 0"
  shows "best_in t vec = Some x \<longleftrightarrow> latest t vec x"
proof
  assume "best_in t vec = Some x"
  then show "latest t vec x" using assms best_in_latest by (simp add: sets_of_def)
next
  assume x: "latest t vec x"
  show "best_in t vec = Some x"
  proof (cases "best_in t vec")
    case None
    then show ?thesis
      using best_in_none [of vec t] assms x by (auto simp: sets_of_def latest_def pair_time_def not_less [symmetric])
  next
    case (Some y)
    then show ?thesis using best_in_latest [of vec t y] latest_unique [OF assms(1) x] assms by (simp add: sets_of_def)
  qed
qed

section \<open>The map of contexts\<close>

definition stored_ok :: "stored \<Rightarrow> bool" where
  "stored_ok st \<longleftrightarrow> distinct (map fst st) \<and> (\<forall>(c, vec) \<in> set st. sets_of c vec)"

lemma sets_of_nil [simp]: "sets_of c []"
  by (simp add: sets_of_def sorted_sets_def)

lemma stored_ok_nil [simp]: "stored_ok []"
  by (simp add: stored_ok_def)

lemma stored_ok_at: "stored_ok st \<Longrightarrow> sets_of c (stored_at c st)"
  by (auto simp: stored_ok_def stored_at_def split: option.split dest!: map_of_SomeD)

lemma split_while: "takeWhile Q st @ dropWhile Q st = st"
  by (rule takeWhile_dropWhile_id)

lemma new_entry_perm:
  "mset (takeWhile Q st @ e # dropWhile Q st) = add_mset e (mset st)"
  by (metis mset_append mset.simps(2) split_while union_mset_add_mset_right)

lemma distinct_stored_put:
  assumes "distinct (map fst st)"
  shows "distinct (map fst (stored_put c v st))"
proof (cases "map_of st c = None")
  case True
  let ?Q = "\<lambda>e :: pmt \<times> ctx_pair list. \<not> pmt_less c (fst e)"
  have "mset (map fst (takeWhile ?Q st @ (c, v) # dropWhile ?Q st)) = add_mset c (mset (map fst st))"
    using arg_cong [OF new_entry_perm [of ?Q st "(c, v)"], of "image_mset fst"] by simp
  then have "distinct (map fst (takeWhile ?Q st @ (c, v) # dropWhile ?Q st)) = distinct (c # map fst st)"
    by (intro mset_eq_imp_distinct_iff) simp
  then show ?thesis using True assms by (simp add: stored_put_def map_of_eq_None_iff)
next
  case False
  then show ?thesis using assms by (simp add: stored_put_def distinct_update)
qed

lemma set_stored_put_pairs: "set (stored_put c v st) \<subseteq> insert (c, v) (set st)"
proof (cases "map_of st c = None")
  case True
  have "set (takeWhile Q st @ e # dropWhile Q st) = insert e (set st)" for Q and e :: "pmt \<times> ctx_pair list"
    using arg_cong [OF new_entry_perm [of Q st e], of set_mset] by simp
  then show ?thesis using True by (simp add: stored_put_def)
next
  case False
  have "set (AList.update c v st) \<subseteq> insert (c, v) (set st)" by (induction st) auto
  then show ?thesis using False by (simp add: stored_put_def)
qed

lemma map_of_stored_put: "map_of (stored_put c v st) = (map_of st)(c \<mapsto> v)"
proof (cases "map_of st c = None")
  case True
  let ?Q = "\<lambda>e :: pmt \<times> ctx_pair list. \<not> pmt_less c (fst e)"
  have c: "map_of (takeWhile ?Q st) c = None"
    using True by (auto simp: map_of_eq_None_iff dest: set_takeWhileD)
  have s: "map_of st = map_of (dropWhile ?Q st) ++ map_of (takeWhile ?Q st)"
    by (metis map_of_append split_while)
  have "map_of (stored_put c v st) = (map_of (dropWhile ?Q st))(c \<mapsto> v) ++ map_of (takeWhile ?Q st)"
    using True by (simp add: stored_put_def)
  also have "\<dots> = (map_of st)(c \<mapsto> v)"
    using c by (auto simp: s map_add_def fun_eq_iff split: option.split)
  finally show ?thesis .
next
  case False
  then show ?thesis by (simp add: stored_put_def update_conv')
qed

lemma stored_ok_put: "stored_ok st \<Longrightarrow> sets_of c v \<Longrightarrow> stored_ok (stored_put c v st)"
  using set_stored_put_pairs [of c v st] distinct_stored_put [of st c v] by (fastforce simp: stored_ok_def)

lemma stored_at_put: "stored_at d (stored_put c v st) = (if d = c then v else stored_at d st)"
  by (simp add: stored_at_def map_of_stored_put)

lemma set_delete_pairs: "set (AList.delete c st) \<subseteq> set st"
  by (auto simp: AList.delete_eq)

lemma stored_ok_delete: "stored_ok st \<Longrightarrow> stored_ok (AList.delete c st)"
  using set_delete_pairs [of c st] by (auto simp: stored_ok_def AList.distinct_delete)

lemma stored_ok_map:
  assumes "stored_ok st" "\<And>c vec. sets_of c vec \<Longrightarrow> sets_of c (f vec)"
  shows "stored_ok (map (\<lambda>(c, vec). (c, f vec)) st)"
proof -
  have "map fst (map (\<lambda>(c, vec). (c, f vec)) st) = map fst st" by (induction st) auto
  then show ?thesis using assms by (auto simp: stored_ok_def simp del: map_map)
qed

lemma map_of_stored_map: "map_of (map (\<lambda>(c, vec). (c, f vec)) st) c = map_option f (map_of st c)"
  by (induction st) auto

lemma stored_at_map: "f [] = [] \<Longrightarrow> stored_at c (map (\<lambda>(c, vec). (c, f vec)) st) = f (stored_at c st)"
  by (simp add: stored_at_def map_of_stored_map split: option.split)

text \<open>The search for a context looks at the keys of the map only.\<close>

lemma match_pass_map: "match_pass P c a (map (\<lambda>(c, vec). (c, f vec)) st) = match_pass P c a st"
  by (induction st) (auto split: option.split bool.split)

lemma match_attempts_map: "match_attempts P c (map (\<lambda>(c, vec). (c, f vec)) st) a n = match_attempts P c st a n"
  by (induction n arbitrary: a) (simp_all add: match_pass_map split: option.split)

lemma findBestMatchCtx_map: "findBestMatchCtx P c (map (\<lambda>(c, vec). (c, f vec)) st) = findBestMatchCtx P c st"
  by (simp add: findBestMatchCtx_def map_of_stored_map match_attempts_map)

lemma find_stored: "map_of st c \<noteq> None \<Longrightarrow> findBestMatchCtx P c st = Some c"
  by (auto simp: findBestMatchCtx_def)

section \<open>Inserting and pruning\<close>

lemma sorted_sets_append: "sorted_sets (xs @ ys) \<longleftrightarrow> sorted_sets xs \<and> sorted_sets ys \<and> (\<forall>p \<in> set xs. \<forall>q \<in> set ys. pair_time p \<le> pair_time q)"
  by (auto simp: sorted_sets_def sorted_append)

lemma set_insert_sorted: "set (insert_sorted p vec) = insert p (set vec)"
  using set_append [of "take (lower_bound (pair_time p) vec) vec" "drop (lower_bound (pair_time p) vec) vec"]
  by (simp add: insert_sorted_def Let_def)

lemma insert_sorted_split:
  assumes "sorted_sets vec"
  obtains xs ys where "vec = xs @ ys" "insert_sorted p vec = xs @ p # ys" "\<forall>q \<in> set xs. pair_time q < pair_time p"
    "\<forall>q \<in> set ys. pair_time p \<le> pair_time q"
proof
  let ?l = "lower_bound (pair_time p) vec"
  show "vec = take ?l vec @ drop ?l vec" by simp
  show "insert_sorted p vec = take ?l vec @ p # drop ?l vec" by (simp add: insert_sorted_def Let_def)
  show "\<forall>q \<in> set (take ?l vec). pair_time q < pair_time p"
    unfolding take_lower_bound by (blast dest: set_takeWhileD)
  show "\<forall>q \<in> set (drop ?l vec). pair_time p \<le> pair_time q"
  proof
    fix q assume "q \<in> set (drop ?l vec)"
    then obtain i where "i < length vec - ?l" "q = vec ! (?l + i)" by (auto simp: in_set_conv_nth)
    then show "pair_time p \<le> pair_time q" using after_lower_bound [OF assms, of "pair_time p" "?l + i"] by (simp add: less_diff_conv add.commute)
  qed
qed

lemma sets_of_insert: "sets_of c vec \<Longrightarrow> cx_context (fst p) = c \<Longrightarrow> sets_of c (insert_sorted p vec)"
proof -
  assume a: "sets_of c vec" "cx_context (fst p) = c"
  then have "sorted_sets vec" by (simp add: sets_of_def)
  then obtain xs ys where s: "vec = xs @ ys" "insert_sorted p vec = xs @ p # ys" "\<forall>q \<in> set xs. pair_time q < pair_time p"
    "\<forall>q \<in> set ys. pair_time p \<le> pair_time q" by (rule insert_sorted_split)
  show "sets_of c (insert_sorted p vec)"
    using a s(1,3,4) unfolding s(2) by (auto simp: sets_of_def sorted_sets_def sorted_append less_imp_le intro: order_trans)
qed

lemma sets_of_sub: "sets_of c vec \<Longrightarrow> sets_of c (drop n vec)" "sets_of c vec \<Longrightarrow> sets_of c (filter Q vec)"
proof -
  show "sets_of c (drop n vec)" if "sets_of c vec"
    using that sorted_wrt_drop [of "(\<le>)" "map pair_time vec" n]
    by (auto simp: sets_of_def sorted_sets_def drop_map dest: in_set_dropD)
  show "sets_of c (filter Q vec)" if "sets_of c vec"
    using that by (auto simp: sets_of_def sorted_sets_def intro: sorted_filter)
qed

lemma sets_of_prune: "sets_of c vec \<Longrightarrow> sets_of c (prune e now vec)"
  by (simp add: prune_def Let_def drop_expired_def sets_of_sub)

lemma prune_nil [simp]: "prune e now [] = []"
  by (simp add: prune_def drop_expired_def)

lemma stored_ok_removeExpired: "stored_ok st \<Longrightarrow> stored_ok (fst (removeExpiredStoredParameters e now (st, au)))"
  by (simp add: removeExpiredStoredParameters_def stored_ok_map sets_of_prune)

text \<open>What is dropped lies before a set that is kept and has begun.\<close>

lemma past_sets_kept:
  assumes "sorted_sets vec" "0 < past_sets now vec"
  shows "past_sets now vec < length vec" "pair_time (vec ! past_sets now vec) \<le> now"
proof -
  let ?l = "lower_bound now vec"
  have ne: "vec \<noteq> []" using assms(2) by (auto simp: past_sets_def)
  have "past_sets now vec < length vec \<and> pair_time (vec ! past_sets now vec) \<le> now"
  proof (cases "?l = length vec")
    case True
    then have "past_sets now vec = length vec - 1" using ne by (simp add: past_sets_def)
    then show ?thesis using before_lower_bound [of "length vec - 1" now vec] True ne by simp
  next
    case False
    then have "?l < length vec" using lower_bound_le [of now vec] by simp
    then show ?thesis
      using assms(2) False ne before_lower_bound [of "?l - 1" now vec] by (auto simp: past_sets_def Let_def split: if_splits)
  qed
  then show "past_sets now vec < length vec" "pair_time (vec ! past_sets now vec) \<le> now" by simp_all
qed

lemma past_sets_begun:
  assumes "sorted_sets vec" "past_sets now vec < i" "i < length vec"
    "\<And>i j. i < j \<Longrightarrow> j < length vec \<Longrightarrow> pair_time (vec ! i) < pair_time (vec ! j)"
  shows "now < pair_time (vec ! i)"
proof -
  let ?l = "lower_bound now vec"
  have ne: "vec \<noteq> []" using assms(3) by auto
  moreover have "?l \<noteq> length vec" using assms(2,3) ne unfolding past_sets_def Let_def by (cases "?l = length vec") simp_all
  ultimately have l: "?l < length vec" using lower_bound_le [of now vec] by simp
  have ge: "now \<le> pair_time (vec ! ?l)" by (rule after_lower_bound [OF assms(1) order_refl l])
  show ?thesis
  proof (cases "pair_time (vec ! ?l) = now")
    case True
    then have "past_sets now vec = ?l" using ne l by (simp add: past_sets_def Let_def)
    then show ?thesis using assms(4) [of ?l i] assms(2,3) True by simp
  next
    case False
    then have gt: "now < pair_time (vec ! ?l)" using ge by simp
    have "?l \<le> i" using assms(2) False ne l by (auto simp: past_sets_def Let_def split: if_splits)
    then show ?thesis using sorted_sets_nth [OF assms(1) _ assms(3), of ?l] gt by simp
  qed
qed

lemma option_eqI: "(\<And>x. a = Some x \<longleftrightarrow> b = Some x) \<Longrightarrow> a = b"
  by (cases a; cases b) auto

section \<open>What a search finds\<close>

lemma best_stored_set:
  assumes "stored_ok st" "map_of st c \<noteq> None" "t \<noteq> 0"
  shows "findBestMatchSettingsCtx P \<lparr>cx_time = t, cx_context = c\<rparr> st = Some x \<longleftrightarrow> latest t (stored_at c st) x"
  using best_in_iff [OF stored_ok_at [OF assms(1)] assms(3)] by (simp add: findBestMatchSettingsCtx_def find_stored assms(2))

lemma best_parameters_none:
  assumes "stored_ok st" "map_of st c \<noteq> None" "t \<noteq> 0" "\<And>x. \<not> latest t (stored_at c st) x"
  shows "getBestMatchStoredParameters P \<lparr>cx_time = t, cx_context = c\<rparr> st = None"
proof (cases "findBestMatchSettingsCtx P \<lparr>cx_time = t, cx_context = c\<rparr> st")
  case (Some x)
  then show ?thesis using best_stored_set [OF assms(1-3), of P x] assms(4) by blast
qed (simp add: getBestMatchStoredParameters_def)

text \<open>The parameters of the set that is valid: what a search returns, in one step.\<close>

lemma best_parameters_of_latest:
  assumes "stored_ok st" "map_of st c \<noteq> None" "t \<noteq> 0" "latest t (stored_at c st) x"
  shows "getBestMatchStoredParameters P \<lparr>cx_time = t, cx_context = c\<rparr> st = map_of (stored_at c st) x"
proof -
  have "findBestMatchSettingsCtx P \<lparr>cx_time = t, cx_context = c\<rparr> st = Some x" using best_stored_set [OF assms(1-3)] assms(4) by simp
  moreover have "cx_context x = c" using assms(4) stored_ok_at [OF assms(1), of c] by (auto simp: latest_def sets_of_def)
  ultimately show ?thesis by (simp add: getBestMatchStoredParameters_def)
qed

text \<open>
  C32. A search for a context and a time finds the set of that context with the greatest time that is not
  after it, through the binary search over the sorted sets; where every set of the context begins later it
  finds none, whatever the match predicate.
\<close>

theorem best_match_is_latest:
  assumes "stored_ok st" "map_of st c \<noteq> None" "t \<noteq> 0"
  shows "findBestMatchSettingsCtx P \<lparr>cx_time = t, cx_context = c\<rparr> st = Some x \<longleftrightarrow>
      (\<exists>params. (x, params) \<in> set (stored_at c st)) \<and> cx_time x \<le> t \<and>
      (\<forall>y params. (y, params) \<in> set (stored_at c st) \<longrightarrow> cx_time y \<le> t \<longrightarrow> cx_time y \<le> cx_time x)"
  unfolding best_stored_set [OF assms] latest_def pair_time_def by force

lemma best_match_is_latest_witness:
  "findBestMatchSettingsCtx nullMatchPred \<lparr>cx_time = 25, cx_context = VString ''A''\<rparr>
     [(VString ''A'', [(\<lparr>cx_time = 10, cx_context = VString ''A''\<rparr>, []), (\<lparr>cx_time = 20, cx_context = VString ''A''\<rparr>, []),
        (\<lparr>cx_time = 30, cx_context = VString ''A''\<rparr>, [])])] = Some \<lparr>cx_time = 20, cx_context = VString ''A''\<rparr>"
  by (subst best_match_is_latest) (auto simp: stored_ok_def sets_of_def sorted_sets_def pair_time_def stored_at_def)

section \<open>Pruning\<close>

lemma latest_drop:
  assumes "sets_of c vec" "k < length vec" "pair_time (vec ! k) \<le> t"
  shows "latest t (drop k vec) x \<longleftrightarrow> latest t vec x"
proof -
  have srt: "sorted_sets vec" using assms(1) by (simp add: sets_of_def)
  have early: "pair_time p \<le> pair_time (vec ! k)" if pk: "p \<in> set (take k vec)" for p
  proof -
    obtain i where i: "i < length (take k vec)" "take k vec ! i = p" using pk unfolding in_set_conv_nth by blast
    then have "i < k" "i < length vec" "p = vec ! i" by auto
    then show ?thesis using sorted_sets_nth [OF srt, of i k] assms(2) by simp
  qed
  have k: "vec ! k \<in> set (drop k vec)" using assms(2) by (metis Cons_nth_drop_Suc list.set_intros(1))
  have split: "set vec = set (take k vec) \<union> set (drop k vec)" by (metis append_take_drop_id set_append)
  show ?thesis
  proof
    assume l: "latest t (drop k vec) x"
    then have "pair_time (vec ! k) \<le> cx_time x" using k assms(3) by (auto simp: latest_def)
    with early have "pair_time p \<le> cx_time x" if "p \<in> set (take k vec)" for p using that by (meson order_trans)
    then show "latest t vec x" using l by (simp add: latest_def split image_Un ball_Un)
  next
    assume l: "latest t vec x"
    have "x \<in> fst ` set (drop k vec)"
    proof (cases "x \<in> fst ` set (take k vec)")
      case True
      then obtain p where p: "p \<in> set (take k vec)" "x = fst p" by blast
      have "pair_time (vec ! k) \<le> cx_time x" using l assms(2,3) by (auto simp: latest_def)
      then have "cx_time x = cx_time (fst (vec ! k))" using early [OF p(1)] p(2) by (simp add: pair_time_def)
      moreover have "cx_context x = c" "cx_context (fst (vec ! k)) = c"
        using assms(1,2) p by (auto simp: sets_of_def dest: in_set_takeD)
      ultimately have "x = fst (vec ! k)" by simp
      then show ?thesis using k by simp
    next
      case False
      then show ?thesis using l by (simp add: latest_def split image_Un)
    qed
    then show "latest t (drop k vec) x" using l by (simp add: latest_def split image_Un ball_Un)
  qed
qed

lemma latest_prune:
  assumes "sets_of c vec" "now \<le> t"
  shows "latest t (prune usize_max now vec) x \<longleftrightarrow> latest t vec x"
proof (cases "past_sets now vec = 0")
  case True
  then show ?thesis by (simp add: prune_def drop_expired_def)
next
  case False
  then have k: "past_sets now vec < length vec" "pair_time (vec ! past_sets now vec) \<le> now"
    using past_sets_kept [of vec now] assms(1) by (simp_all add: sets_of_def)
  then show ?thesis using latest_drop [OF assms(1) k(1), of t x] assms(2) by (simp add: prune_def drop_expired_def)
qed

definition distinct_times :: "ctx_pair list \<Rightarrow> bool" where
  "distinct_times vec \<longleftrightarrow> distinct (map pair_time vec)"

lemma distinct_times_less:
  assumes "sorted_sets vec" "distinct_times vec" "i < j" "j < length vec"
  shows "pair_time (vec ! i) < pair_time (vec ! j)"
proof -
  have "pair_time (vec ! i) \<noteq> pair_time (vec ! j)"
    using assms(2-4) nth_eq_iff_index_eq [of "map pair_time vec" i j] by (simp add: distinct_times_def)
  then show ?thesis using sorted_sets_nth [OF assms(1), of i j] assms(3,4) by simp
qed

lemma map_of_distinct_times: "distinct_times vec \<Longrightarrow> (x, v) \<in> set vec \<Longrightarrow> map_of vec x = Some v"
proof -
  assume a: "distinct_times vec" "(x, v) \<in> set vec"
  have "distinct (map fst vec)" using a(1) by (induction vec) (auto simp: distinct_times_def pair_time_def image_iff)
  with a(2) show "map_of vec x = Some v" by simp
qed

lemma prune_keeps_one_begun:
  assumes "sets_of c vec" "distinct_times vec"
  shows "length [p \<leftarrow> prune usize_max now vec. pair_time p \<le> now] \<le> 1"
proof -
  let ?k = "past_sets now vec"
  have srt: "sorted_sets vec" using assms(1) by (simp add: sets_of_def)
  have "now < pair_time p" if p: "p \<in> set (drop (Suc ?k) vec)" for p
  proof -
    obtain i where i: "Suc ?k + i < length vec" "p = vec ! (Suc ?k + i)"
      using p by (auto simp: in_set_conv_nth less_diff_conv add.commute)
    have "now < pair_time (vec ! (Suc ?k + i))"
      by (rule past_sets_begun [OF srt _ i(1) distinct_times_less [OF srt assms(2)]]) simp_all
    then show ?thesis using i(2) by simp
  qed
  then have "[p \<leftarrow> drop (Suc ?k) vec. pair_time p \<le> now] = []" by (auto simp: filter_empty_conv not_le)
  moreover have "drop ?k vec = (if ?k < length vec then vec ! ?k # drop (Suc ?k) vec else [])" by (simp add: Cons_nth_drop_Suc)
  ultimately show ?thesis by (simp add: prune_def drop_expired_def)
qed

lemma prune_map_of:
  assumes "sets_of c vec" "distinct_times vec" "now \<le> t" "latest t vec x"
  shows "map_of (prune usize_max now vec) x = map_of vec x"
proof -
  have "latest t (prune usize_max now vec) x" using latest_prune [OF assms(1,3)] assms(4) by simp
  then obtain v where v: "(x, v) \<in> set (prune usize_max now vec)" by (auto simp: latest_def)
  then have "(x, v) \<in> set vec" by (auto simp: prune_def drop_expired_def dest: in_set_dropD)
  moreover have "distinct_times (prune usize_max now vec)"
    using assms(2) by (simp add: prune_def drop_expired_def distinct_times_def drop_map [symmetric])
  ultimately show ?thesis using v map_of_distinct_times assms(2) by metis
qed


definition three_sets :: stored where
  "three_sets = [(VString ''A'', [(\<lparr>cx_time = 10, cx_context = VString ''A''\<rparr>, []), (\<lparr>cx_time = 20, cx_context = VString ''A''\<rparr>, []),
     (\<lparr>cx_time = 30, cx_context = VString ''A''\<rparr>, [])])]"



section \<open>Storing a set\<close>

text \<open>The value that a key of the map of parameters stores, and the map a successful set stores.\<close>

definition stored_value :: "'b descriptor \<Rightarrow> string \<Rightarrow> pmt \<Rightarrow> pmt option" where
  "stored_value D k v =
     (if is_monostate v then None
      else case writableByName D k of
        None \<Rightarrow> None
      | Some m \<Rightarrow> (case the (mb_set m) k v of Inl _ \<Rightarrow> None | Inr w \<Rightarrow> Some w))"

lemma set_params_Cons:
  assumes "set_params D ((k, v) # ps) (new, auto, ret) = Inr r"
  shows "\<exists>ret1. set_params D ps (case stored_value D k v of None \<Rightarrow> (new, auto, ret1) | Some w \<Rightarrow> (AList.update k w new, auto - {k}, ret1)) = Inr r"
  using assms by (auto simp: stored_value_def split: if_splits option.splits sum.splits)

lemma set_params_result:
  assumes "set_params D ps (new, auto, ret) = Inr (new', auto', ret')" "distinct (map fst ps)"
  shows "map_of new' k = (case Option.bind (map_of ps k) (stored_value D k) of None \<Rightarrow> map_of new k | Some w \<Rightarrow> Some w) \<and>
    auto' = auto - {k. Option.bind (map_of ps k) (stored_value D k) \<noteq> None}"
  using assms
proof (induction ps arbitrary: new auto ret)
  case (Cons p ps)
  obtain key v where p: "p = (key, v)" by (cases p)
  have no: "map_of ps key = None" and d: "distinct (map fst ps)" using Cons.prems(2) by (auto simp: p map_of_eq_None_iff)
  obtain ret1 where step: "set_params D ps (case stored_value D key v of None \<Rightarrow> (new, auto, ret1)
      | Some w \<Rightarrow> (AList.update key w new, auto - {key}, ret1)) = Inr (new', auto', ret')"
    using set_params_Cons Cons.prems(1) unfolding p by blast
  show ?case
  proof (cases "stored_value D key v")
    case None
    then show ?thesis using Cons.IH [OF _ d, of new auto ret1] step no by (auto simp: p)
  next
    case (Some w)
    then show ?thesis
      using Cons.IH [OF _ d, of "AList.update key w new" "auto - {key}" ret1] step no by (auto simp: p update_conv' split: option.split)
  qed
qed simp

text \<open>The map of sets after a successful set.\<close>

definition stored_after :: "'b settings \<Rightarrow> usize \<Rightarrow> settings_ctx \<Rightarrow> property_map \<Rightarrow> stored" where
  "stored_after s now c new =
     map (\<lambda>(k, vec). (k, prune (ss_expiry s) now vec))
       (stored_put (cx_context c) (insert_sorted (c, new) (stored_at (cx_context c) (ss_stored s))) (ss_stored s))"

lemma setImpl_cases:
  assumes "ds_reflectable D" "setImpl D clk params ctx s = (r, s')"
  obtains (error) e where "r = Inl e" "s' = s"
  | (stored) new auto ret where "r = Inr ret" "refuseStoredSet (ss_stored s) (at_now (clk 0) ctx) (clk 0 < cx_time (at_now (clk 0) ctx)) (clk 0) = None"
      "set_params D params (value_or (best_stored s (at_now (clk 0) ctx)) (ss_defaults s), start_auto D (at_now (clk 0) ctx) s, []) = Inr (new, auto, ret)"
      "ss_stored s' = stored_after s (clk 1) (at_now (clk 0) ctx) new"
      "ss_auto s' = erase_auto (concat (map (\<lambda>(c, vec). pruned (ss_expiry s) (clk 1) vec)
         (stored_put (cx_context ctx) (insert_sorted (at_now (clk 0) ctx, new) (stored_at (cx_context ctx) (ss_stored s))) (ss_stored s))))
         ((ss_auto s)(at_now (clk 0) ctx \<mapsto> auto))"
      "ss_pred s' = ss_pred s" "ss_expiry s' = ss_expiry s" "ss_active s' = ss_active s" "ss_staged s' = ss_staged s"
      "ss_defaults s' = ss_defaults s"
proof (cases "refuseStoredSet (ss_stored s) (at_now (clk 0) ctx) (clk 0 < cx_time (at_now (clk 0) ctx)) (clk 0)")
  case (Some e)
  then show ?thesis using assms error by (auto simp: setImpl_def Let_def)
next
  case refuse: None
  show ?thesis
  proof (cases "set_params D params (value_or (best_stored s (at_now (clk 0) ctx)) (ss_defaults s), start_auto D (at_now (clk 0) ctx) s, [])")
    case (Inl e)
    then show ?thesis using assms error refuse by (auto simp: setImpl_def Let_def)
  next
    case (Inr x)
    obtain new auto ret where x: "x = (new, auto, ret)" by (cases x)
    have ctx: "cx_context (at_now (clk 0) ctx) = cx_context ctx" by (simp add: at_now_def)
    have s': "r = Inr ret" "s' = (store_set D (clk 1) new auto (at_now (clk 0) ctx) s)\<lparr>ss_block := to_meta D ret (ss_block s)\<rparr>"
      using assms refuse Inr by (auto simp: setImpl_def Let_def x)
    show ?thesis
      by (rule stored [OF s'(1) refuse Inr [unfolded x]])
        (simp_all add: s'(2) store_set_def addStoredParameters_def removeExpiredStoredParameters_def stored_after_def ctx)
  qed
qed

lemma stored_after_ok: "stored_ok (ss_stored s) \<Longrightarrow> stored_ok (stored_after s now c new)"
  unfolding stored_after_def
  by (intro stored_ok_map stored_ok_put sets_of_insert stored_ok_at) (simp_all add: sets_of_prune)

lemma stored_after_at:
  "stored_at d (stored_after s now c new) = prune (ss_expiry s) now
     (if d = cx_context c then insert_sorted (c, new) (stored_at (cx_context c) (ss_stored s)) else stored_at d (ss_stored s))"
  by (simp add: stored_after_def stored_at_map stored_at_put)

lemma stored_after_key: "map_of (stored_after s now c new) (cx_context c) \<noteq> None"
  by (simp add: stored_after_def map_of_stored_map map_of_stored_put)

lemma mset_insert_sorted: "mset (insert_sorted p vec) = add_mset p (mset vec)"
proof -
  have "mset vec = mset (take n vec) + mset (drop n vec)" for n by (metis append_take_drop_id mset_append)
  then show ?thesis by (simp add: insert_sorted_def Let_def)
qed

lemma insert_distinct_times:
  assumes "distinct_times vec" "pair_time p \<notin> pair_time ` set vec"
  shows "distinct_times (insert_sorted p vec)"
proof -
  have "mset (map pair_time (insert_sorted p vec)) = mset (pair_time p # map pair_time vec)" by (simp add: mset_insert_sorted)
  then have "distinct (map pair_time (insert_sorted p vec)) = distinct (pair_time p # map pair_time vec)"
    by (rule mset_eq_imp_distinct_iff)
  then show ?thesis using assms by (simp add: distinct_times_def)
qed

lemma kept_not_pruned:
  assumes "distinct_times vec" "x \<in> fst ` set (prune usize_max now vec)"
  shows "x \<notin> set (pruned usize_max now vec)"
proof
  let ?k = "past_sets now vec"
  assume "x \<in> set (pruned usize_max now vec)"
  then have "cx_time x \<in> set (take ?k (map pair_time vec))"
    by (force simp: pruned_def drop_expired_def take_map pair_time_def)
  moreover have "cx_time x \<in> set (drop ?k (map pair_time vec))"
    using assms(2) by (force simp: prune_def drop_expired_def drop_map pair_time_def)
  moreover have "distinct (take ?k (map pair_time vec) @ drop ?k (map pair_time vec))"
    using assms(1) unfolding append_take_drop_id distinct_times_def .
  ultimately show False unfolding distinct_append by blast
qed

lemma pruned_context: "sets_of k vec \<Longrightarrow> x \<in> set (pruned usize_max now vec) \<Longrightarrow> cx_context x = k"
  by (auto simp: pruned_def drop_expired_def sets_of_def dest: in_set_takeD)

lemma erase_auto_kept:
  assumes "stored_ok st" "distinct_times (stored_at (cx_context x) st)" "x \<in> fst ` set (prune usize_max now (stored_at (cx_context x) st))"
  shows "erase_auto (concat (map (\<lambda>(c, vec). pruned usize_max now vec) st)) au x = au x"
proof -
  have "x \<notin> set (pruned usize_max now vec)" if e: "(k, vec) \<in> set st" for k vec
  proof
    assume x: "x \<in> set (pruned usize_max now vec)"
    then have "cx_context x = k" using pruned_context e assms(1) by (auto simp: stored_ok_def)
    moreover have "stored_at k st = vec" using e assms(1) by (simp add: stored_at_def stored_ok_def)
    ultimately show False using kept_not_pruned [OF assms(2,3)] x by simp
  qed
  then show ?thesis by (auto simp: erase_auto_def)
qed

lemma set_then_stored_lemma:
  assumes "stored_ok (ss_stored s)" "ss_expiry s = usize_max" "distinct_times (stored_at (cx_context c) (ss_stored s))"
    "cx_time c \<le> u" "now \<le> u" "u \<noteq> 0"
    "\<And>p. p \<in> set (stored_at (cx_context c) (ss_stored s)) \<Longrightarrow> pair_time p < cx_time c \<or> u < pair_time p"
  shows "getBestMatchStoredParameters P \<lparr>cx_time = u, cx_context = cx_context c\<rparr> (stored_after s now c new) = Some new"
    and "erase_auto (concat (map (\<lambda>(c, vec). pruned usize_max now vec)
      (stored_put (cx_context c) (insert_sorted (c, new) (stored_at (cx_context c) (ss_stored s))) (ss_stored s)))) au c = au c"
proof -
  let ?vec = "stored_at (cx_context c) (ss_stored s)" and ?st = "stored_after s now c new"
  have sets: "sets_of (cx_context c) (insert_sorted (c, new) ?vec)"
    by (intro sets_of_insert stored_ok_at assms(1)) simp
  have dist: "distinct_times (insert_sorted (c, new) ?vec)"
    using assms(4,7) by (intro insert_distinct_times [OF assms(3)]) (force simp: pair_time_def image_iff)
  have l: "latest u (insert_sorted (c, new) ?vec) c"
    using assms(4,7) by (force simp: latest_def set_insert_sorted pair_time_def)
  have at: "stored_at (cx_context c) ?st = prune usize_max now (insert_sorted (c, new) ?vec)"
    by (simp add: stored_after_at assms(2))
  have lat: "latest u (stored_at (cx_context c) ?st) c" unfolding at by (simp only: latest_prune [OF sets assms(5)] l)
  then have "getBestMatchStoredParameters P \<lparr>cx_time = u, cx_context = cx_context c\<rparr> ?st = map_of (stored_at (cx_context c) ?st) c"
    by (intro best_parameters_of_latest stored_after_ok stored_after_key assms)
  also have "\<dots> = map_of (insert_sorted (c, new) ?vec) c" unfolding at by (rule prune_map_of [OF sets dist assms(5) l])
  also have "\<dots> = Some new" by (rule map_of_distinct_times [OF dist]) (simp add: set_insert_sorted)
  finally show "getBestMatchStoredParameters P \<lparr>cx_time = u, cx_context = cx_context c\<rparr> ?st = Some new" .
  show "erase_auto (concat (map (\<lambda>(c, vec). pruned usize_max now vec)
      (stored_put (cx_context c) (insert_sorted (c, new) ?vec) (ss_stored s)))) au c = au c"
    by (rule erase_auto_kept)
      (use lat dist in \<open>simp_all add: stored_at_put stored_ok_put assms(1) sets at latest_def\<close>)
qed



text \<open>A block with one setting, for the witnesses.\<close>

definition gain_member :: "32 word member" where
  "gain_member = \<lparr>mb_name = ''gain'',
     mb_set = Some (\<lambda>k v. case v of VInt32 w \<Rightarrow> Inr (VInt32 w) | _ \<Rightarrow> Inl ''wrong type''),
     mb_auto = (\<lambda>v. case v of VInt32 w \<Rightarrow> Some (VInt32 w) | _ \<Rightarrow> None),
     mb_apply = (\<lambda>k v b. case v of VInt32 w \<Rightarrow> Some w | _ \<Rightarrow> None),
     mb_read = Some (\<lambda>b. VInt32 b), mb_limits = None\<rparr>"

definition gain_block :: "32 word descriptor" where
  "gain_block = \<lparr>ds_members = [gain_member], ds_reflectable = True, ds_meta = None\<rparr>"

lemma gain_block_simps [simp]:
  "writableByName gain_block ''gain'' = Some gain_member" "writableMembers gain_block = {''gain''}" "ds_reflectable gain_block"
  "mb_set gain_member = Some (\<lambda>k v. case v of VInt32 w \<Rightarrow> Inr (VInt32 w) | _ \<Rightarrow> Inl ''wrong type'')" "mb_limits gain_member = None"
  by (simp_all add: gain_block_def gain_member_def writableByName_def writableMembers_def)

definition ctx_at :: "usize \<Rightarrow> string \<Rightarrow> settings_ctx" where
  "ctx_at t c = \<lparr>cx_time = t, cx_context = VString c\<rparr>"

lemma ctx_at_simps [simp]: "cx_time (ctx_at t c) = t" "cx_context (ctx_at t c) = VString c" "ctx_at t c = ctx_at u d \<longleftrightarrow> t = u \<and> c = d"
  "\<lparr>cx_time = t, cx_context = VString c\<rparr> = ctx_at t c"
  by (auto simp: ctx_at_def)

lemma gain_set:
  "set_params gain_block [(''gain'', VInt32 w)] (new, auto, ret) = Inr (AList.update ''gain'' (VInt32 w) new, auto - {''gain''}, ret)"
  by (simp add: is_monostate_def value_type_of_def)


section \<open>The number of stored sets\<close>

definition settings_ok :: "usize \<Rightarrow> 'b settings \<Rightarrow> bool" where
  "settings_ok now s \<longleftrightarrow> stored_ok (ss_stored s) \<and> n_contexts (ss_stored s) \<le> kMaxContexts \<and>
     (\<forall>c. n_pending now (stored_at c (ss_stored s)) \<le> kMaxPendingSets)"

lemma stored_at_nonempty: "{c. stored_at c st \<noteq> []} \<subseteq> fst ` set st"
  by (auto simp: stored_at_def split: option.splits dest!: map_of_SomeD intro: rev_image_eqI)

lemma n_contexts_card: "distinct (map fst st) \<Longrightarrow> n_contexts st = card {c. stored_at c st \<noteq> []}"
proof (induction st)
  case Nil
  then show ?case by (simp add: n_contexts_def stored_at_def)
next
  case (Cons e st)
  obtain c v where e: "e = (c, v)" by (cases e)
  have c: "c \<notin> {d. stored_at d st \<noteq> []}" using Cons.prems stored_at_nonempty [of st] by (auto simp: e)
  have fin: "finite {d. stored_at d st \<noteq> []}" by (rule finite_subset [OF stored_at_nonempty]) simp
  have "{d. stored_at d (e # st) \<noteq> []} = (if v = [] then {} else {c}) \<union> {d. stored_at d st \<noteq> []}"
    using c by (auto simp: e stored_at_def)
  then show ?case using Cons c fin by (auto simp: e n_contexts_def)
qed

lemma n_contexts_mono:
  assumes "distinct (map fst st)" "distinct (map fst st')" "\<And>c. stored_at c st' \<noteq> [] \<Longrightarrow> stored_at c st \<noteq> [] \<or> c = d"
  shows "n_contexts st' \<le> n_contexts st + (if stored_at d st = [] then 1 else 0)"
proof -
  have fin: "finite {c. stored_at c st \<noteq> []}" by (rule finite_subset [OF stored_at_nonempty]) simp
  have "{c. stored_at c st' \<noteq> []} \<subseteq> insert d {c. stored_at c st \<noteq> []}" using assms(3) by auto
  then have "card {c. stored_at c st' \<noteq> []} \<le> card (insert d {c. stored_at c st \<noteq> []})" using fin by (intro card_mono) auto
  then show ?thesis using fin by (simp add: n_contexts_card assms(1,2) card_insert_if split: if_splits)
qed

lemma n_pending_later: "now \<le> now' \<Longrightarrow> n_pending now' vec \<le> n_pending now vec"
  by (induction vec) (auto simp: n_pending_def)

lemma n_pending_insert: "n_pending now (insert_sorted p vec) = n_pending now vec + (if now < pair_time p then 1 else 0)"
proof -
  have "n_pending now vec = size (filter_mset (\<lambda>p. now < pair_time p) (mset vec))" for vec
    by (simp only: n_pending_def mset_filter [symmetric] size_mset)
  then show ?thesis by (simp add: mset_insert_sorted)
qed

lemma n_pending_drop: "n_pending now (drop k vec) \<le> n_pending now vec"
proof -
  have "n_pending now vec = n_pending now (take k vec) + n_pending now (drop k vec)"
    unfolding n_pending_def length_append [symmetric] filter_append [symmetric] by simp
  then show ?thesis by simp
qed

lemma n_pending_prune: "n_pending now (prune e now' vec) \<le> n_pending now vec"
proof -
  have "n_pending now (drop_expired e now' vec) \<le> n_pending now vec"
    by (induction vec) (auto simp: n_pending_def drop_expired_def)
  then show ?thesis unfolding prune_def Let_def using n_pending_drop order_trans by blast
qed

lemma settings_ok_set:
  assumes "settings_ok now s" "now \<le> clk 0"
  shows "settings_ok (clk 0) (snd (setImpl D clk params ctx s))"
proof -
  obtain r s' where rs: "setImpl D clk params ctx s = (r, s')" by (cases "setImpl D clk params ctx s")
  have pend: "n_pending (clk 0) (stored_at c (ss_stored s)) \<le> kMaxPendingSets" for c
    using n_pending_later [OF assms(2)] order_trans assms(1) unfolding settings_ok_def by blast
  then have ok: "stored_ok (ss_stored s)" "n_contexts (ss_stored s) \<le> kMaxContexts"
    "\<And>c. n_pending (clk 0) (stored_at c (ss_stored s)) \<le> kMaxPendingSets"
    using assms(1) by (simp_all add: settings_ok_def)
  have "settings_ok (clk 0) s'" if True: "ds_reflectable D"
    using True rs
  proof (cases rule: setImpl_cases)
    case error
    then show ?thesis using ok by (simp add: settings_ok_def)
  next
    case (stored new auto ret)
    let ?c = "at_now (clk 0) ctx"
    let ?vec = "stored_at (cx_context ?c) (ss_stored s)"
    have sok: "stored_ok (ss_stored s')" by (simp add: stored(4) stored_after_ok ok(1))
    have dist: "distinct (map fst (ss_stored s))" "distinct (map fst (ss_stored s'))" using ok(1) sok by (auto simp: stored_ok_def)
    have at: "stored_at d (ss_stored s') = prune (ss_expiry s) (clk 1) (if d = cx_context ?c then insert_sorted (?c, new) ?vec else stored_at d (ss_stored s))" for d
      by (simp add: stored(4) stored_after_at)
    have "n_contexts (ss_stored s') \<le> n_contexts (ss_stored s) + (if ?vec = [] then 1 else 0)"
      by (rule n_contexts_mono [OF dist]) (auto simp: at split: if_splits)
    moreover have "?vec = [] \<Longrightarrow> n_contexts (ss_stored s) < kMaxContexts"
      using stored(2) by (auto simp: refuseStoredSet_def Let_def split: if_splits)
    ultimately have ctxs: "n_contexts (ss_stored s') \<le> kMaxContexts" using ok(2) by (auto split: if_splits)
    have "n_pending (clk 0) (insert_sorted (?c, new) ?vec) \<le> kMaxPendingSets"
    proof (cases "?vec = []")
      case True
      then show ?thesis unfolding n_pending_insert by (simp add: n_pending_def kMaxPendingSets_def)
    next
      case False
      then have "clk 0 < cx_time ?c \<Longrightarrow> n_pending (clk 0) ?vec < kMaxPendingSets"
        using stored(2) by (auto simp: refuseStoredSet_def Let_def split: if_splits)
      then show ?thesis using ok(3) [of "cx_context ?c"] by (auto simp: n_pending_insert pair_time_def)
    qed
    then have "n_pending (clk 0) (stored_at d (ss_stored s')) \<le> kMaxPendingSets" for d
      using ok(3) [of d] by (auto simp: at intro!: order_trans [OF n_pending_prune])
    then show ?thesis using sok ctxs by (simp add: settings_ok_def)
  qed
  moreover have "settings_ok (clk 0) s'" if "\<not> ds_reflectable D"
    using ok rs that by (auto simp: settings_ok_def setImpl_def)
  ultimately show ?thesis by (auto simp: rs)
qed

lemma setStaged_stored [simp]: "ss_stored (snd (setStagedImpl D ps s)) = ss_stored s"
  by (auto simp: setStagedImpl_def Let_def split: sum.split prod.split)

lemma fill_auto_stored [simp]: "ss_stored (fill_auto D c s) = ss_stored s"
  by (simp add: fill_auto_def)

lemma activate_stored [simp]: "ss_stored (snd (activateContextImpl D now ctx s)) = ss_stored s"
proof -
  have "ss_stored s2 = ss_stored s" if "setStagedImpl D ps (fill_auto D b s) = (r, s2)" for ps b r s2
    using setStaged_stored [of D ps "fill_auto D b s"] that by simp
  then show ?thesis by (auto simp: activateContextImpl_def Let_def split: option.split sum.split prod.split)
qed

lemma n_pending_remove: "n_pending now (take i vec @ drop (i + 1) vec) \<le> n_pending now vec"
proof -
  have "n_pending now vec = n_pending now (take i vec) + n_pending now (drop i vec)"
    unfolding n_pending_def length_append [symmetric] filter_append [symmetric] by simp
  moreover have "n_pending now (drop (i + 1) vec) \<le> n_pending now (drop i vec)" using n_pending_drop [of now 1 "drop i vec"] by simp
  ultimately show ?thesis by (simp add: n_pending_def)
qed

lemma sets_of_remove: "sets_of c vec \<Longrightarrow> sets_of c (take i vec @ drop (i + 1) vec)"
proof -
  assume a: "sets_of c vec"
  then have "sets_of c (take i vec @ drop i vec)" by simp
  moreover have "set (drop (i + 1) vec) \<subseteq> set (drop i vec)" by (rule set_drop_subset_set_drop) simp
  moreover have "sets_of c (drop (i + 1) vec)" using a by (rule sets_of_sub)
  ultimately show ?thesis unfolding sets_of_def sorted_sets_append set_append by blast
qed

lemma stored_ok_remove_set:
  assumes "stored_ok (ss_stored s)"
  shows "stored_ok (ss_stored (remove_set c i now s))"
proof -
  have "sets_of c (take i (stored_at c (ss_stored s)) @ drop (i + 1) (stored_at c (ss_stored s)))"
    by (rule sets_of_remove [OF stored_ok_at [OF assms]])
  then show ?thesis by (auto simp: remove_set_def Let_def stored_ok_delete stored_ok_put assms)
qed

lemma stored_at_remove_set:
  "stored_at d (ss_stored (remove_set c i now s)) =
    (if d = c then take i (stored_at c (ss_stored s)) @ drop (i + 1) (stored_at c (ss_stored s)) else stored_at d (ss_stored s))"
proof -
  let ?vec' = "take i (stored_at c (ss_stored s)) @ drop (i + 1) (stored_at c (ss_stored s))"
  have del: "stored_at d (AList.delete c st) = (if d = c then [] else stored_at d st)" for st
    by (simp add: stored_at_def delete_conv')
  have "ss_stored (remove_set c i now s) = (if ?vec' = [] then AList.delete c (ss_stored s) else stored_put c ?vec' (ss_stored s))"
    by (simp add: remove_set_def Let_def)
  then show ?thesis by (cases "?vec' = []") (simp_all only: del stored_at_put if_True if_False simp_thms)
qed

lemma settings_ok_remove_set:
  assumes "settings_ok now s"
  shows "settings_ok now (remove_set c i now' s)"
proof -
  let ?s = "remove_set c i now' s"
  have ok: "stored_ok (ss_stored ?s)" using assms by (simp add: stored_ok_remove_set settings_ok_def)
  have "n_contexts (ss_stored ?s) \<le> n_contexts (ss_stored s) + (if stored_at c (ss_stored s) = [] then 1 else 0)"
    by (rule n_contexts_mono) (use ok assms in \<open>auto simp: settings_ok_def stored_ok_def stored_at_remove_set split: if_splits\<close>)
  moreover have "n_contexts (ss_stored ?s) = n_contexts (ss_stored s)" if "stored_at c (ss_stored s) = []"
  proof -
    have "{d. stored_at d (ss_stored ?s) \<noteq> []} = {d. stored_at d (ss_stored s) \<noteq> []}" using that by (auto simp: stored_at_remove_set)
    then show ?thesis using ok assms by (simp add: n_contexts_card settings_ok_def stored_ok_def)
  qed
  ultimately have "n_contexts (ss_stored ?s) \<le> n_contexts (ss_stored s)" by (cases "stored_at c (ss_stored s) = []") simp_all
  moreover have "n_pending now (stored_at d (ss_stored ?s)) \<le> n_pending now (stored_at d (ss_stored s))" for d
    using n_pending_remove [of now i "stored_at c (ss_stored s)"] by (simp add: stored_at_remove_set)
  ultimately show ?thesis using ok assms order_trans unfolding settings_ok_def by meson
qed

lemma leave_context_stored: "ss_stored (snd (leave_context D now c s)) = ss_stored s"
  by (cases "activateContextImpl D now no_context s"; cases "fst (activateContextImpl D now no_context s)")
    (use activate_stored [of D now no_context s] in \<open>auto simp: leave_context_def\<close>)

lemma settings_ok_remove: "settings_ok now s \<Longrightarrow> settings_ok now (snd (removeContextImpl D clk ctx s))"
proof -
  assume ok: "settings_ok now s"
  have "settings_ok now (snd (leave_context D t c (remove_set c i t' s)))" for c i t t'
    using settings_ok_remove_set [OF ok, of c i t'] by (simp add: settings_ok_def leave_context_stored)
  then show ?thesis using ok by (simp add: removeContextImpl_def Let_def)
qed



section \<open>Two sets at one time\<close>

lemma lower_bound_all: "(\<And>p. p \<in> set vec \<Longrightarrow> pair_time p < t) \<Longrightarrow> lower_bound t vec = length vec"
  unfolding lower_bound_def by (subst takeWhile_eq_all_conv [THEN iffD2]) auto

lemma prune_all_begun:
  assumes "vec \<noteq> []" "\<And>p. p \<in> set vec \<Longrightarrow> pair_time p < now"
  shows "prune usize_max now vec = [last vec]" "pruned usize_max now vec = map fst (butlast vec)"
proof -
  have "past_sets now vec = length vec - 1" using assms by (simp add: past_sets_def lower_bound_all)
  moreover have "drop (length vec - 1) vec = [last vec]" using assms(1) by (cases vec rule: rev_cases) auto
  ultimately show "prune usize_max now vec = [last vec]" "pruned usize_max now vec = map fst (butlast vec)"
    by (simp_all add: prune_def pruned_def drop_expired_def butlast_conv_take)
qed

text \<open>
  C36. A second set for a time that has begun and that a context already holds is lost: the insertion puts the
  new set before the old one of the same time, and the pruning that follows keeps the last, so the context keeps
  the old parameters and the record of the keys that follow tags is erased. The call still reports
  success. (The function that would move the second set to a later time is compiled for the browser only.)
\<close>

theorem same_time_set_lost:
  assumes "ds_reflectable D" "stored_ok (ss_stored s)" "ss_expiry s = usize_max" "stored_at (cx_context x) (ss_stored s) \<noteq> []"
    "last (stored_at (cx_context x) (ss_stored s)) = (x, old)" "cx_time x \<noteq> 0" "cx_time x < clk 1"
    "setImpl D clk params x s = (Inr ret, s')"
  shows "stored_at (cx_context x) (ss_stored s') = [(x, old)] \<and> ss_auto s' x = None"
  using assms(1,8)
proof (cases rule: setImpl_cases)
  case (stored new auto ret')
  let ?vec = "stored_at (cx_context x) (ss_stored s)"
  have x: "at_now (clk 0) x = x" using assms(6) by (simp add: at_now_def)
  have srt: "sorted_sets ?vec" using stored_ok_at [OF assms(2)] by (simp add: sets_of_def)
  obtain xs ys where split: "?vec = xs @ ys" "insert_sorted (x, new) ?vec = xs @ (x, new) # ys" "\<forall>q \<in> set xs. pair_time q < pair_time (x, new)"
    using insert_sorted_split [OF srt] by metis
  have lastin: "(x, old) \<in> set ?vec" using last_in_set [OF assms(4)] assms(5) by simp
  have ys: "ys \<noteq> []" using split(1,3) lastin by (auto simp: pair_time_def)
  have old: "last ys = (x, old)" using ys split(1) assms(5) by simp
  have begun: "pair_time p < clk 1" if p: "p \<in> set (insert_sorted (x, new) ?vec)" for p
  proof -
    have "pair_time p \<le> cx_time x" using p sorted_last [OF srt, of p] assms(5) by (auto simp: set_insert_sorted pair_time_def)
    then show ?thesis using assms(7) by simp
  qed
  have ne: "insert_sorted (x, new) ?vec \<noteq> []" by (simp add: split(2))
  note pr = prune_all_begun [OF ne begun]
  have at: "stored_at (cx_context x) (ss_stored s') = [(x, old)]"
    using pr(1) old ys by (simp add: stored(4) x stored_after_at assms(3) split(2))
  have "x \<in> set (pruned usize_max (clk 1) (insert_sorted (x, new) ?vec))" using pr(2) ys by (simp add: split(2) butlast_append)
  moreover have "(cx_context x, insert_sorted (x, new) ?vec) \<in> set (stored_put (cx_context x) (insert_sorted (x, new) ?vec) (ss_stored s))"
    by (rule map_of_SomeD) (simp add: map_of_stored_put)
  ultimately have "ss_auto s' x = None" by (force simp: stored(5) x assms(3) erase_auto_def)
  with at show ?thesis by blast
qed simp

definition stored_once :: "32 word settings" where
  "stored_once = (new_settings 0)\<lparr>ss_stored := [(VString ''A'', [(ctx_at 4 ''A'', [(''gain'', VInt32 1)])])]\<rparr>"

lemma same_time_set_lost_witness:
  "fst (setImpl gain_block (\<lambda>_. 5) [(''gain'', VInt32 7)] (ctx_at 4 ''A'') stored_once) = Inr [] \<and>
   stored_at (VString ''A'') (ss_stored (snd (setImpl gain_block (\<lambda>_. 5) [(''gain'', VInt32 7)] (ctx_at 4 ''A'') stored_once))) =
     [(ctx_at 4 ''A'', [(''gain'', VInt32 1)])]"
proof -
  let ?r = "setImpl gain_block (\<lambda>_. 5) [(''gain'', VInt32 7)] (ctx_at 4 ''A'') stored_once"
  have x: "at_now 5 (ctx_at 4 ''A'') = ctx_at 4 ''A''" by (simp add: at_now_def)
  have "refuseStoredSet (ss_stored stored_once) (ctx_at 4 ''A'') False 5 = None"
    by (simp add: refuseStoredSet_def stored_once_def stored_at_def)
  then have r: "?r = (Inr [], snd ?r)"
    unfolding setImpl_def Let_def x by (simp add: gain_set del: set_params.simps)
  have "stored_at (VString ''A'') (ss_stored (snd ?r)) = [(ctx_at 4 ''A'', [(''gain'', VInt32 1)])]"
    using same_time_set_lost [of gain_block stored_once "ctx_at 4 ''A''" "[(''gain'', VInt32 1)]" "\<lambda>_. 5" "[(''gain'', VInt32 7)]" "[]" "snd ?r"] r
    by (simp add: stored_once_def new_settings_def stored_ok_def sets_of_def sorted_sets_def stored_at_def)
  then show ?thesis using r by (metis fst_conv)
qed

section \<open>Two activations before an apply\<close>

lemma insert_missing_lookup: "map_of (insert_missing new m) k = (case map_of m k of None \<Rightarrow> map_of new k | Some v \<Rightarrow> Some v)"
proof (induction new arbitrary: m)
  case (Cons e new)
  obtain i v where e: "e = (i, v)" by (cases e)
  have "map_of (insert_missing (e # new) m) k = map_of (insert_missing new (try_emplace i v m)) k"
    by (simp add: insert_missing_def e)
  then show ?case using Cons [of "try_emplace i v m"] by (auto simp: e try_emplace_lookup split: option.splits)
qed (simp add: insert_missing_def split: option.split)

lemma activate_other:
  assumes "best_ctx s (at_now now ctx) = Some best" "cx_context best \<noteq> cx_context (ss_active s)" "best_stored s (at_now now ctx) = Some params"
  shows "activateContextImpl D now ctx s = (Inr (Some best),
    s\<lparr>ss_staged := insert_missing params (ss_staged s),
      ss_contextBefore := (if ss_contextActivated s then ss_contextBefore s else Some (ss_active s)),
      ss_active := best, ss_contextActivated := True, ss_changed := True\<rparr>)"
  using assms by (auto simp: activateContextImpl_def Let_def)

text \<open>
  C37. Activating a context keeps what is staged. A value staged with \<open>setStaged()\<close> survives the activation; but
  so do the values an activation staged: when a second context is activated before the next apply, the second one is
  active and still every setting that the first one's set holds is staged with the first one's value, so the
  apply gives the block the values of a context that is not active.
\<close>

theorem pending_context_shadowed:
  assumes "best_ctx s (at_now t1 ctx1) = Some b1" "best_stored s (at_now t1 ctx1) = Some params1"
    and "best_ctx s (at_now t2 ctx2) = Some b2" "best_stored s (at_now t2 ctx2) = Some params2"
    and "cx_context b1 \<noteq> cx_context (ss_active s)" "cx_context b2 \<noteq> cx_context b1"
    and "s2 = snd (activateContextImpl D t2 ctx2 (snd (activateContextImpl D t1 ctx1 s)))"
  shows "ss_active s2 = b2 \<and> ss_contextActivated s2 \<and>
    (\<forall>k. map_of (ss_staged s2) k =
       (case map_of (ss_staged s) k of Some v \<Rightarrow> Some v
        | None \<Rightarrow> (case map_of params1 k of Some v \<Rightarrow> Some v | None \<Rightarrow> map_of params2 k)))"
proof -
  let ?s1 = "snd (activateContextImpl D t1 ctx1 s)"
  note one = activate_other [OF assms(1,5,2), of D]
  have "best_ctx ?s1 c = best_ctx s c" "best_stored ?s1 c = best_stored s c" for c
    by (simp_all add: one best_ctx_def best_stored_def)
  then have "activateContextImpl D t2 ctx2 ?s1 = (Inr (Some b2),
    ?s1\<lparr>ss_staged := insert_missing params2 (ss_staged ?s1),
      ss_contextBefore := (if ss_contextActivated ?s1 then ss_contextBefore ?s1 else Some (ss_active ?s1)),
      ss_active := b2, ss_contextActivated := True, ss_changed := True\<rparr>)"
    using assms(3,4,6) by (intro activate_other) (simp_all add: one)
  then show ?thesis using assms(7) by (simp add: one insert_missing_lookup split: option.split)
qed

definition two_contexts :: "32 word settings" where
  "two_contexts = (new_settings 0)\<lparr>ss_stored := [(VString ''A'', [(ctx_at 1 ''A'', [(''gain'', VInt32 1)])]),
     (VString ''B'', [(ctx_at 1 ''B'', [(''gain'', VInt32 2)])])]\<rparr>"

lemma pending_context_shadowed_witness:
  "let s2 = snd (activateContextImpl gain_block 5 (ctx_at 0 ''B'') (snd (activateContextImpl gain_block 5 (ctx_at 0 ''A'') two_contexts))) in
     ss_active s2 = ctx_at 1 ''B'' \<and> map_of (ss_staged s2) ''gain'' = Some (VInt32 1)"
proof -
  have st: "ss_stored two_contexts = [(VString ''A'', [(ctx_at 1 ''A'', [(''gain'', VInt32 1)])]), (VString ''B'', [(ctx_at 1 ''B'', [(''gain'', VInt32 2)])])]"
    "ss_pred two_contexts = nullMatchPred" "ss_active two_contexts = no_context" "ss_staged two_contexts = []"
    by (simp_all add: two_contexts_def new_settings_def)
  have at: "at_now 5 (ctx_at 0 c) = ctx_at 5 c" for c by (simp add: at_now_def ctx_at_def del: ctx_at_simps)
  have c: "best_ctx two_contexts (at_now 5 (ctx_at 0 ''A'')) = Some (ctx_at 1 ''A'')" "best_ctx two_contexts (at_now 5 (ctx_at 0 ''B'')) = Some (ctx_at 1 ''B'')"
    by (simp_all add: at st best_ctx_def findBestMatchSettingsCtx_def findBestMatchCtx_def stored_at_def best_in_def pair_time_def)
  then have p: "best_stored two_contexts (at_now 5 (ctx_at 0 ''A'')) = Some [(''gain'', VInt32 1)]" "best_stored two_contexts (at_now 5 (ctx_at 0 ''B'')) = Some [(''gain'', VInt32 2)]"
    by (simp_all add: st best_ctx_def best_stored_def getBestMatchStoredParameters_def stored_at_def)
  have n: "cx_context (ctx_at 1 ''A'') \<noteq> cx_context (ss_active two_contexts)" "cx_context (ctx_at 1 ''B'') \<noteq> cx_context (ctx_at 1 ''A'')"
    by (simp_all add: st no_context_def)
  from pending_context_shadowed [OF c(1) p(1) c(2) p(2) n refl, of gain_block] show ?thesis by (simp add: Let_def st)
qed

end
