(* ===== verification/PmtConvert.thy ===== *)
theory PmtConvert
  imports PmtValue
begin

text \<open>
  Conversions between the scalar types of a value (\<^verbatim>\<open>core/include/gnuradio-4.0/PmtTypeHelpers.hpp\<close>):
  \<^verbatim>\<open>convert_safely\<close> and \<^verbatim>\<open>convert_numerically\<close> on integers, floating-point numbers, booleans, complex numbers
  and text, and \<^verbatim>\<open>parseToMinimalNumeric\<close>. Floating-point numbers are their IEEE-754 patterns, read and written
  through a signed integer times a power of two; the decimal parser of the standard library for them is a parameter.
\<close>

section \<open>Integer types\<close>

datatype int_kind = I8 | I16 | I32 | I64 | U8 | U16 | U32 | U64

definition is_signed :: "int_kind \<Rightarrow> bool" where
  "is_signed k \<longleftrightarrow> k \<in> {I8, I16, I32, I64}"

definition kind_bits :: "int_kind \<Rightarrow> nat" where
  "kind_bits k = (case k of I8 \<Rightarrow> 8 | I16 \<Rightarrow> 16 | I32 \<Rightarrow> 32 | I64 \<Rightarrow> 64 | U8 \<Rightarrow> 8 | U16 \<Rightarrow> 16 | U32 \<Rightarrow> 32 | U64 \<Rightarrow> 64)"

text \<open>\<open>numeric_limits\<close>: the digits without the sign, the least and the greatest value.\<close>

definition kind_digits :: "int_kind \<Rightarrow> nat" where
  "kind_digits k = kind_bits k - (if is_signed k then 1 else 0)"

definition lowest :: "int_kind \<Rightarrow> int" where
  "lowest k = (if is_signed k then - (2 ^ kind_digits k) else 0)"

definition highest :: "int_kind \<Rightarrow> int" where
  "highest k = 2 ^ kind_digits k - 1"

definition in_kind :: "int_kind \<Rightarrow> int \<Rightarrow> bool" where
  "in_kind k v \<longleftrightarrow> lowest k \<le> v \<and> v \<le> highest k"

definition of_kind :: "int_kind \<Rightarrow> int \<Rightarrow> pmt" where
  "of_kind k v = (case k of I8 \<Rightarrow> VInt8 (word_of_int v) | I16 \<Rightarrow> VInt16 (word_of_int v) | I32 \<Rightarrow> VInt32 (word_of_int v)
     | I64 \<Rightarrow> VInt64 (word_of_int v) | U8 \<Rightarrow> VUInt8 (word_of_int v) | U16 \<Rightarrow> VUInt16 (word_of_int v)
     | U32 \<Rightarrow> VUInt32 (word_of_int v) | U64 \<Rightarrow> VUInt64 (word_of_int v))"

definition int_of :: "pmt \<Rightarrow> (int_kind \<times> int) option" where
  "int_of v = (case v of VInt8 w \<Rightarrow> Some (I8, sint w) | VInt16 w \<Rightarrow> Some (I16, sint w) | VInt32 w \<Rightarrow> Some (I32, sint w)
     | VInt64 w \<Rightarrow> Some (I64, sint w) | VUInt8 w \<Rightarrow> Some (U8, uint w) | VUInt16 w \<Rightarrow> Some (U16, uint w)
     | VUInt32 w \<Rightarrow> Some (U32, uint w) | VUInt64 w \<Rightarrow> Some (U64, uint w) | _ \<Rightarrow> None)"

datatype conv_error =
  NegativeToUnsigned | IntegerOutOfRange | NotFinite | FloatOutOfRange | NotAnInteger | NotExact | NotReal
| CannotParse | StrictMismatch | Unsupported

text \<open>The range check of \<^verbatim>\<open>integerInRange\<close>, with its casts to the unsigned 64-bit type.\<close>

definition to_u64 :: "int \<Rightarrow> int" where
  "to_u64 v = v mod 2 ^ 64"

definition integerInRange :: "int_kind \<Rightarrow> int_kind \<Rightarrow> int \<Rightarrow> bool" where
  "integerInRange T S v =
     (if is_signed S \<and> v < 0 then is_signed T \<and> v \<ge> lowest T
      else to_u64 v \<le> to_u64 (highest T))"

text \<open>\<open>inRange\<close>, the overloads on a signed 64-bit argument.\<close>

definition inRange :: "int_kind \<Rightarrow> int \<Rightarrow> bool" where
  "inRange T v =
     (if is_signed T then v \<ge> lowest T \<and> v \<le> highest T
      else if v < 0 then False else to_u64 v \<le> highest T)"

definition convert_int :: "int_kind \<Rightarrow> int_kind \<Rightarrow> int \<Rightarrow> conv_error + pmt" where
  "convert_int T S v =
     (if S = T then Inr (of_kind T v)
      else if \<not> is_signed T \<and> is_signed S \<and> v < 0 then Inl NegativeToUnsigned
      else if kind_digits S \<le> kind_digits T then Inr (of_kind T v)
      else if integerInRange T S v then Inr (of_kind T v)
      else Inl IntegerOutOfRange)"

text \<open>The target \<open>bool\<close> is an unsigned integral type of one digit.\<close>

definition convert_int_bool :: "int_kind \<Rightarrow> int \<Rightarrow> conv_error + pmt" where
  "convert_int_bool S v =
     (if is_signed S \<and> v < 0 then Inl NegativeToUnsigned
      else if to_u64 v \<le> 1 then Inr (VBool (v \<noteq> 0)) else Inl IntegerOutOfRange)"

section \<open>Floating-point types\<close>

text \<open>A format has \<open>p\<close> stored bits of the mantissa and \<open>q\<close> of the exponent.\<close>

record float_format =
  ff_p :: nat
  ff_q :: nat

definition F32 :: float_format where "F32 = \<lparr>ff_p = 23, ff_q = 8\<rparr>"
definition F64 :: float_format where "F64 = \<lparr>ff_p = 52, ff_q = 11\<rparr>"

definition ff_bias :: "float_format \<Rightarrow> nat" where
  "ff_bias f = 2 ^ (ff_q f - 1) - 1"

definition ff_sign :: "float_format \<Rightarrow> nat \<Rightarrow> bool" where
  "ff_sign f x \<longleftrightarrow> odd (x div 2 ^ (ff_p f + ff_q f))"

definition ff_exponent :: "float_format \<Rightarrow> nat \<Rightarrow> nat" where
  "ff_exponent f x = (x div 2 ^ ff_p f) mod 2 ^ ff_q f"

definition ff_mantissa :: "float_format \<Rightarrow> nat \<Rightarrow> nat" where
  "ff_mantissa f x = x mod 2 ^ ff_p f"

definition ff_finite :: "float_format \<Rightarrow> nat \<Rightarrow> bool" where
  "ff_finite f x \<longleftrightarrow> ff_exponent f x \<noteq> 2 ^ ff_q f - 1"

text \<open>The value of a finite pattern: an integer times a power of two.\<close>

definition ff_value :: "float_format \<Rightarrow> nat \<Rightarrow> int \<times> int" where
  "ff_value f x =
     (let ex = ff_exponent f x;
          m = ff_mantissa f x + (if ex = 0 then 0 else 2 ^ ff_p f)
      in (if ff_sign f x then - int m else int m, int (max ex 1) - int (ff_bias f + ff_p f)))"

fun bit_length :: "nat \<Rightarrow> nat" where
  "bit_length n = (if n = 0 then 0 else Suc (bit_length (n div 2)))"

declare bit_length.simps [simp del]

text \<open>Division by a power of two, to the nearest integer and to the even one of two.\<close>

definition round_shift :: "nat \<Rightarrow> nat \<Rightarrow> nat" where
  "round_shift n k =
     (let d = n div 2 ^ k; r = 2 * (n mod 2 ^ k)
      in if r > 2 ^ k \<or> r = 2 ^ k \<and> odd d then d + 1 else d)"

text \<open>The pattern nearest to \<open>n * 2 ^ e\<close>: the conversion a cast to the format makes.\<close>

definition ff_encode :: "float_format \<Rightarrow> bool \<Rightarrow> nat \<Rightarrow> int \<Rightarrow> nat" where
  "ff_encode f neg n e =
     (let p = ff_p f; top = int (bit_length n) - 1 + e; emin = 1 - int (ff_bias f);
          scale = max top emin - int p;
          m = (if e \<ge> scale then n * 2 ^ nat (e - scale) else round_shift n (nat (scale - e)));
          x = nat (scale + int p - emin) * 2 ^ p + m
      in (if neg then 2 ^ (p + ff_q f) else 0) + (if n = 0 then 0 else min x ((2 ^ ff_q f - 1) * 2 ^ p)))"

definition ff_of_int :: "float_format \<Rightarrow> int \<Rightarrow> nat" where
  "ff_of_int f v = ff_encode f (v < 0) (nat \<bar>v\<bar>) 0"

definition ff_convert :: "float_format \<Rightarrow> float_format \<Rightarrow> nat \<Rightarrow> nat" where
  "ff_convert T S x = (let (m, e) = ff_value S x in ff_encode T (ff_sign S x) (nat \<bar>m\<bar>) e)"

datatype float_kind = FK32 | FK64

definition format_of :: "float_kind \<Rightarrow> float_format" where
  "format_of k = (case k of FK32 \<Rightarrow> F32 | FK64 \<Rightarrow> F64)"

definition float_of_kind :: "float_kind \<Rightarrow> nat \<Rightarrow> pmt" where
  "float_of_kind k x = (case k of FK32 \<Rightarrow> VFloat32 (of_nat x) | FK64 \<Rightarrow> VFloat64 (of_nat x))"

definition float_of :: "pmt \<Rightarrow> (float_kind \<times> nat) option" where
  "float_of v = (case v of VFloat32 w \<Rightarrow> Some (FK32, unat w) | VFloat64 w \<Rightarrow> Some (FK64, unat w) | _ \<Rightarrow> None)"

text \<open>\<open>numeric_limits<T>::digits\<close>, with the implicit leading bit.\<close>

definition float_digits :: "float_kind \<Rightarrow> nat" where
  "float_digits k = ff_p (format_of k) + 1"

text \<open>The bits between the highest and the lowest set bit of an integer.\<close>

fun odd_part :: "nat \<Rightarrow> nat" where
  "odd_part n = (if n = 0 \<or> odd n then n else odd_part (n div 2))"

declare odd_part.simps [simp del]

definition significant_bits :: "nat \<Rightarrow> nat" where
  "significant_bits n = bit_length (odd_part n)"

definition convert_int_float :: "float_kind \<Rightarrow> int_kind \<Rightarrow> int \<Rightarrow> conv_error + pmt" where
  "convert_int_float T S v =
     (if kind_digits S \<le> float_digits T then Inr (float_of_kind T (ff_of_int (format_of T) v))
      else if v = 0 then Inr (float_of_kind T (ff_of_int (format_of T) v))
      else if significant_bits (nat \<bar>v\<bar>) \<le> float_digits T then Inr (float_of_kind T (ff_of_int (format_of T) v))
      else Inl NotExact)"

text \<open>Comparisons of \<open>m * 2 ^ e\<close> with an integer, and its integral value.\<close>

definition scaled_less :: "int \<times> int \<Rightarrow> int \<Rightarrow> bool" where
  "scaled_less x k = (let (m, e) = x in if e \<ge> 0 then m * 2 ^ nat e < k else m < k * 2 ^ nat (- e))"

definition scaled_leq :: "int \<times> int \<Rightarrow> int \<Rightarrow> bool" where
  "scaled_leq x k = (let (m, e) = x in if e \<ge> 0 then m * 2 ^ nat e \<le> k else m \<le> k * 2 ^ nat (- e))"

definition scaled_integral :: "int \<times> int \<Rightarrow> bool" where
  "scaled_integral x = (let (m, e) = x in e \<ge> 0 \<or> 2 ^ nat (- e) dvd m)"

definition scaled_int :: "int \<times> int \<Rightarrow> int" where
  "scaled_int x = (let (m, e) = x in if e \<ge> 0 then m * 2 ^ nat e else m div 2 ^ nat (- e))"

definition integerUpperLimit :: "nat \<Rightarrow> int" where
  "integerUpperLimit digits = 2 ^ digits"

definition float_to_int :: "int \<Rightarrow> nat \<Rightarrow> float_kind \<Rightarrow> nat \<Rightarrow> conv_error + int" where
  "float_to_int low digits S x =
     (let f = format_of S; v = ff_value f x
      in if \<not> ff_finite f x then Inl NotFinite
         else if scaled_less v low \<or> \<not> scaled_less v (integerUpperLimit digits) then Inl FloatOutOfRange
         else if \<not> scaled_integral v then Inl NotAnInteger
         else Inr (scaled_int v))"

definition convert_float_int :: "int_kind \<Rightarrow> float_kind \<Rightarrow> nat \<Rightarrow> conv_error + pmt" where
  "convert_float_int T S x = map_sum id (of_kind T) (float_to_int (lowest T) (kind_digits T) S x)"

definition convert_float_bool :: "float_kind \<Rightarrow> nat \<Rightarrow> conv_error + pmt" where
  "convert_float_bool S x = map_sum id (\<lambda>v. VBool (v \<noteq> 0)) (float_to_int 0 1 S x)"

text \<open>\<open>numeric_limits<T>::max()\<close>, as an integer.\<close>

definition float_max :: "float_kind \<Rightarrow> int" where
  "float_max k = (let f = format_of k in (2 ^ (ff_p f + 1) - 1) * 2 ^ (ff_bias f - ff_p f))"

definition convert_float_float :: "float_kind \<Rightarrow> float_kind \<Rightarrow> nat \<Rightarrow> conv_error + pmt" where
  "convert_float_float T S x =
     (let v = ff_value (format_of S) x
      in if S = T then Inr (float_of_kind T x)
         else if ff_finite (format_of S) x \<and> \<not> scaled_less v (- float_max T) \<and> scaled_leq v (float_max T)
         then Inr (float_of_kind T (ff_convert (format_of T) (format_of S) x))
         else Inl FloatOutOfRange)"

section \<open>Text\<close>

definition is_space :: "char \<Rightarrow> bool" where
  "is_space c \<longleftrightarrow> c \<in> {CHR '' '', CHR 0x09, CHR 0x0A, CHR 0x0B, CHR 0x0C, CHR 0x0D}"

definition trimAndCutComment :: "string \<Rightarrow> string" where
  "trimAndCutComment s = rev (dropWhile is_space (rev (takeWhile (\<lambda>c. c \<noteq> CHR ''#'') (dropWhile is_space s))))"

definition char_code :: "char \<Rightarrow> nat" where
  "char_code c = of_char c"

definition is_digit :: "char \<Rightarrow> bool" where
  "is_digit c \<longleftrightarrow> 48 \<le> char_code c \<and> char_code c \<le> 57"

definition digit_value :: "char \<Rightarrow> nat" where
  "digit_value c = char_code c - 48"

text \<open>
  \<open>std::from_chars\<close> to an integer type in base 10: an optional minus for a signed type, then the longest run of digits. It
  gives the value (or that it is out of range) with the text that is left, or nothing when there is no digit.
\<close>

definition from_chars :: "int_kind \<Rightarrow> string \<Rightarrow> (int option \<times> string) option" where
  "from_chars k s =
     (let (neg, r) = (case s of c # cs \<Rightarrow> if c = CHR ''-'' \<and> is_signed k then (True, cs) else (False, s) | [] \<Rightarrow> (False, s));
          ds = takeWhile is_digit r;
          n = int (foldl (\<lambda>a c. 10 * a + digit_value c) 0 ds);
          v = (if neg then - n else n)
      in if ds = [] then None else Some (if in_kind k v then Some v else None, dropWhile is_digit r))"

definition parse_int :: "int_kind \<Rightarrow> string \<Rightarrow> conv_error + int" where
  "parse_int k s =
     (case from_chars k (trimAndCutComment s) of
        None \<Rightarrow> Inl CannotParse
      | Some (v, rest) \<Rightarrow>
          if rest \<noteq> [] then Inl CannotParse
          else (case v of None \<Rightarrow> Inl IntegerOutOfRange | Some i \<Rightarrow> Inr i))"

definition to_lower :: "char \<Rightarrow> char" where
  "to_lower c = (if 65 \<le> char_code c \<and> char_code c \<le> 90 then char_of (char_code c + 32) else c)"

definition parse_bool :: "string \<Rightarrow> conv_error + bool" where
  "parse_bool str =
     (let s = map to_lower str
      in if s = ''true'' \<or> s = ''1'' then Inr True
         else if s = ''false'' \<or> s = ''0'' then Inr False
         else Inl CannotParse)"

text \<open>The decimal parser of the standard library: the pattern of the number the whole text spells, if it does.\<close>

type_synonym float_parser = "float_kind \<Rightarrow> string \<Rightarrow> nat option"

definition parseStringToFloat :: "float_parser \<Rightarrow> float_kind \<Rightarrow> string \<Rightarrow> conv_error + nat" where
  "parseStringToFloat F k trimmed =
     (if trimmed = [] then Inl CannotParse
      else case F k trimmed of None \<Rightarrow> Inl CannotParse | Some x \<Rightarrow> Inr x)"

section \<open>Conversions\<close>

datatype conv_target = ToBool | ToInt int_kind | ToFloat float_kind | ToComplex float_kind | ToString

definition target_of :: "pmt \<Rightarrow> conv_target option" where
  "target_of v = (case v of VBool _ \<Rightarrow> Some ToBool
     | VComplexFloat32 _ _ \<Rightarrow> Some (ToComplex FK32) | VComplexFloat64 _ _ \<Rightarrow> Some (ToComplex FK64)
     | _ \<Rightarrow> (case int_of v of Some (k, _) \<Rightarrow> Some (ToInt k)
           | None \<Rightarrow> (case float_of v of Some (k, _) \<Rightarrow> Some (ToFloat k) | None \<Rightarrow> None)))"

definition complex_of_real :: "float_kind \<Rightarrow> pmt \<Rightarrow> pmt" where
  "complex_of_real k v = (case v of VFloat32 w \<Rightarrow> VComplexFloat32 w 0 | VFloat64 w \<Rightarrow> VComplexFloat64 w 0 | _ \<Rightarrow> v)"

definition float_zero :: "float_kind \<Rightarrow> nat \<Rightarrow> bool" where
  "float_zero k x \<longleftrightarrow> x mod 2 ^ (ff_p (format_of k) + ff_q (format_of k)) = 0"

definition convert_complex :: "conv_target \<Rightarrow> float_kind \<Rightarrow> nat \<Rightarrow> conv_error + pmt" where
  "convert_complex T S im = (case T of
       ToComplex _ \<Rightarrow> Inl Unsupported
     | ToString \<Rightarrow> Inl Unsupported
     | _ \<Rightarrow> if \<not> float_zero S im then Inl NotReal else Inl Unsupported)"

definition convert_text :: "float_parser \<Rightarrow> conv_target \<Rightarrow> string \<Rightarrow> conv_error + pmt" where
  "convert_text F T s = (case T of
       ToBool \<Rightarrow> map_sum id VBool (parse_bool s)
     | ToInt k \<Rightarrow> map_sum id (of_kind k) (parse_int k s)
     | ToFloat k \<Rightarrow> map_sum id (float_of_kind k) (parseStringToFloat F k (trimAndCutComment s))
     | ToComplex _ \<Rightarrow> Inl Unsupported
     | ToString \<Rightarrow> Inr (VString s))"

text \<open>The conversion of a number to a numeric target, which a complex target uses for its real part.\<close>

definition convert_real :: "conv_target \<Rightarrow> pmt \<Rightarrow> conv_error + pmt" where
  "convert_real T v =
     (case int_of v of
        Some (S, i) \<Rightarrow> (case T of ToBool \<Rightarrow> convert_int_bool S i | ToInt k \<Rightarrow> convert_int k S i
          | ToFloat k \<Rightarrow> convert_int_float k S i | _ \<Rightarrow> Inl Unsupported)
      | None \<Rightarrow>
          (case float_of v of
             Some (S, x) \<Rightarrow> (case T of ToBool \<Rightarrow> convert_float_bool S x | ToInt k \<Rightarrow> convert_float_int k S x
               | ToFloat k \<Rightarrow> convert_float_float k S x | _ \<Rightarrow> Inl Unsupported)
           | None \<Rightarrow> Inl Unsupported))"

definition convert_safely :: "float_parser \<Rightarrow> bool \<Rightarrow> conv_target \<Rightarrow> pmt \<Rightarrow> conv_error + pmt" where
  "convert_safely F strict T v =
     (if target_of v = Some T then Inr v
      else if strict then Inl StrictMismatch
      else (case v of
          VBool b \<Rightarrow> (if T = ToString then Inr (VString (if b then ''true'' else ''false'')) else Inl Unsupported)
        | VString s \<Rightarrow> convert_text F T s
        | VComplexFloat32 _ im \<Rightarrow> convert_complex T FK32 (unat im)
        | VComplexFloat64 _ im \<Rightarrow> convert_complex T FK64 (unat im)
        | _ \<Rightarrow> (case T of
              ToComplex k \<Rightarrow> map_sum (\<lambda>_. Unsupported) (complex_of_real k) (convert_real (ToFloat k) v)
            | _ \<Rightarrow> convert_real T v)))"

definition is_floating_point :: "pmt \<Rightarrow> bool" where
  "is_floating_point v \<longleftrightarrow> container_type_of v = Scalar \<and> value_type_of v \<in> {TFloat32, TFloat64}"

definition convert_numerically :: "float_parser \<Rightarrow> conv_target \<Rightarrow> pmt \<Rightarrow> conv_error + pmt" where
  "convert_numerically F T v =
     (case T of
        ToInt _ \<Rightarrow> convert_safely F (\<not> (is_integral v \<or> is_floating_point v)) T v
      | ToFloat _ \<Rightarrow> convert_safely F (\<not> (is_integral v \<or> is_floating_point v)) T v
      | _ \<Rightarrow> convert_safely F True T v)"

text \<open>
  \<open>parseToMinimalNumeric\<close>, for the set of types the variant holds. Text with a point or an exponent goes to
  \<^verbatim>\<open>convert_safely\<close> wrapped into a \<^verbatim>\<open>std::variant\<close>, a source type no case of it takes.
\<close>

definition smallest :: "int_kind list \<Rightarrow> (int_kind \<Rightarrow> bool) \<Rightarrow> int_kind set \<Rightarrow> int_kind option" where
  "smallest ks fits held = find (\<lambda>k. k \<in> held \<and> fits k) ks"

definition parseToMinimalNumeric :: "int_kind set \<Rightarrow> float_kind set \<Rightarrow> string \<Rightarrow> conv_error + pmt" where
  "parseToMinimalNumeric ints floats s =
     (let str = trimAndCutComment s
      in if str = [] then Inl CannotParse
         else if CHR ''.'' \<in> set str \<or> CHR ''e'' \<in> set str \<or> CHR ''E'' \<in> set str then Inl Unsupported
         else (let neg = (hd str = CHR ''-'');
                   kinds = (if neg then [I8, I16, I32, I64] else [I8, U8, I16, U16, I32, U32, I64, U64])
               in case from_chars (if neg then I64 else U64) str of
                    None \<Rightarrow> Inl CannotParse
                  | Some (v, rest) \<Rightarrow>
                      if rest \<noteq> [] then Inl CannotParse
                      else (case v of
                          None \<Rightarrow> Inl IntegerOutOfRange
                        | Some i \<Rightarrow>
                            (case smallest kinds (\<lambda>k. if neg then k = I64 \<or> inRange k i else i \<le> highest k) ints of
                               None \<Rightarrow> Inl Unsupported
                             | Some k \<Rightarrow> Inr (of_kind k i)))))"

section \<open>Integers keep their value\<close>

lemma kind_facts:
  "kind_digits I8 = 7" "kind_digits I16 = 15" "kind_digits I32 = 31" "kind_digits I64 = 63"
  "kind_digits U8 = 8" "kind_digits U16 = 16" "kind_digits U32 = 32" "kind_digits U64 = 64"
  "is_signed I8" "is_signed I16" "is_signed I32" "is_signed I64" "\<not> is_signed U8" "\<not> is_signed U16" "\<not> is_signed U32" "\<not> is_signed U64"
  by (simp_all add: kind_digits_def kind_bits_def is_signed_def)

lemma in_kind_simps:
  "in_kind I8 v \<longleftrightarrow> - 128 \<le> v \<and> v \<le> 127" "in_kind I16 v \<longleftrightarrow> - 32768 \<le> v \<and> v \<le> 32767"
  "in_kind I32 v \<longleftrightarrow> - 2147483648 \<le> v \<and> v \<le> 2147483647"
  "in_kind I64 v \<longleftrightarrow> - 9223372036854775808 \<le> v \<and> v \<le> 9223372036854775807"
  "in_kind U8 v \<longleftrightarrow> 0 \<le> v \<and> v \<le> 255" "in_kind U16 v \<longleftrightarrow> 0 \<le> v \<and> v \<le> 65535" "in_kind U32 v \<longleftrightarrow> 0 \<le> v \<and> v \<le> 4294967295"
  "in_kind U64 v \<longleftrightarrow> 0 \<le> v \<and> v \<le> 18446744073709551615"
  by (simp_all add: in_kind_def lowest_def highest_def kind_facts)

lemma kind_digits_le: "kind_digits k \<le> 64" "0 < kind_digits k"
  by (cases k; simp add: kind_facts)+

lemma in_kind_u64: "in_kind k v \<Longrightarrow> 0 \<le> v \<Longrightarrow> to_u64 v = v"
  by (cases k) (simp_all add: in_kind_simps to_u64_def)

lemma highest_u64: "to_u64 (highest k) = highest k"
  by (cases k) (simp_all add: highest_def kind_facts to_u64_def)

lemma sint_word_of_int: "- (2 ^ (LENGTH('a) - 1)) \<le> v \<Longrightarrow> v < 2 ^ (LENGTH('a) - 1) \<Longrightarrow> sint (word_of_int v :: 'a :: len word) = v"
  by (simp add: signed_of_int signed_take_bit_int_eq_self)

lemma uint_word_of_int: "0 \<le> v \<Longrightarrow> v < 2 ^ LENGTH('a) \<Longrightarrow> uint (word_of_int v :: 'a :: len word) = v"
  by (simp add: unsigned_of_int take_bit_int_eq_self)

lemma int_of_of_kind: "in_kind k v \<Longrightarrow> int_of (of_kind k v) = Some (k, v)"
  by (cases k) (simp_all add: in_kind_simps of_kind_def int_of_def sint_word_of_int uint_word_of_int)

lemma word_ranges:
  "- 128 \<le> sint (a :: 8 word)" "sint a \<le> 127" "- 32768 \<le> sint (b :: 16 word)" "sint b \<le> 32767"
  "- 2147483648 \<le> sint (c :: 32 word)" "sint c \<le> 2147483647"
  "- 9223372036854775808 \<le> sint (d :: 64 word)" "sint d \<le> 9223372036854775807"
  "uint a \<le> 255" "uint b \<le> 65535" "uint c \<le> 4294967295" "uint d \<le> 18446744073709551615"
  using sint_ge [of a] sint_lt [of a] sint_ge [of b] sint_lt [of b] sint_ge [of c] sint_lt [of c] sint_ge [of d] sint_lt [of d]
    uint_lt2p [of a] uint_lt2p [of b] uint_lt2p [of c] uint_lt2p [of d] by simp_all

lemma int_of_range: "int_of w = Some (k, v) \<Longrightarrow> in_kind k v \<and> w = of_kind k v"
  by (auto simp: int_of_def of_kind_def in_kind_simps word_ranges split: pmt.splits)

lemma integerInRange_result:
  assumes "in_kind S v" "\<not> (v < 0 \<and> \<not> is_signed T)"
  shows "integerInRange T S v = in_kind T v"
proof (cases "v < 0")
  case True
  then have "is_signed S" using assms(1) by (cases S) (simp_all add: in_kind_simps kind_facts)
  moreover have "0 \<le> highest T" by (cases T) (simp_all add: highest_def kind_facts)
  ultimately show ?thesis using True assms(2) by (auto simp: integerInRange_def in_kind_def)
next
  case False
  moreover have "lowest T \<le> 0" by (simp add: lowest_def)
  ultimately show ?thesis using in_kind_u64 [OF assms(1)] by (auto simp: integerInRange_def in_kind_def highest_u64)
qed

lemma convert_int_result:
  assumes "in_kind S v"
  shows "convert_int T S v = (if in_kind T v then Inr (of_kind T v)
    else Inl (if v < 0 \<and> \<not> is_signed T then NegativeToUnsigned else IntegerOutOfRange))"
proof -
  have "v < 0 \<Longrightarrow> is_signed S" using assms by (cases S) (simp_all add: in_kind_simps kind_facts)
  moreover have "kind_digits S \<le> kind_digits T \<Longrightarrow> \<not> (\<not> is_signed T \<and> v < 0) \<Longrightarrow> in_kind T v"
    using assms by (cases S; cases T) (simp_all add: in_kind_simps kind_facts)
  moreover note integerInRange_result [OF assms, of T]
  moreover have "\<not> is_signed T \<Longrightarrow> v < 0 \<Longrightarrow> \<not> in_kind T v" by (simp add: in_kind_def lowest_def)
  ultimately show ?thesis using assms by (auto simp: convert_int_def)
qed

lemma convert_int_bool_result:
  assumes "in_kind S v"
  shows "convert_int_bool S v = (if v = 0 \<or> v = 1 then Inr (VBool (v = 1)) else Inl (if v < 0 then NegativeToUnsigned else IntegerOutOfRange))"
proof -
  have "v < 0 \<Longrightarrow> is_signed S" using assms by (cases S) (simp_all add: in_kind_simps kind_facts)
  then show ?thesis using in_kind_u64 [OF assms] by (auto simp: convert_int_bool_def)
qed

text \<open>
  C39. Between integer types, \<open>bool\<close> included, a conversion returns the value itself exactly when the target type
  holds it, and an error otherwise that tells a negative value from one out of range: no cast wraps.
\<close>

theorem integer_conversion_exact:
  assumes "int_of w = Some (S, v)"
  shows "convert_safely F False (ToInt T) w =
      (if in_kind T v then Inr (of_kind T v) else Inl (if v < 0 \<and> \<not> is_signed T then NegativeToUnsigned else IntegerOutOfRange)) \<and>
    (in_kind T v \<longrightarrow> int_of (of_kind T v) = Some (T, v)) \<and>
    convert_safely F False ToBool w =
      (if v = 0 \<or> v = 1 then Inr (VBool (v = 1)) else Inl (if v < 0 then NegativeToUnsigned else IntegerOutOfRange))"
proof -
  have r: "in_kind S v" "w = of_kind S v" using int_of_range [OF assms] by simp_all
  have "target_of w = Some (ToInt S)" using assms by (auto simp: target_of_def int_of_def split: pmt.splits)
  moreover have "convert_real (ToInt T) w = convert_int T S v" "convert_real ToBool w = convert_int_bool S v"
    by (simp_all add: convert_real_def assms)
  moreover have "convert_safely F False T' w = (if target_of w = Some T' then Inr w else convert_real T' w)" if "\<And>k. T' \<noteq> ToComplex k" for T'
    using assms that by (auto simp: convert_safely_def int_of_def split: pmt.splits conv_target.split)
  ultimately show ?thesis
    using convert_int_result [OF r(1), of T] convert_int_bool_result [OF r(1)] int_of_of_kind r by auto
qed

lemma integer_conversion_exact_witness:
  "convert_safely (\<lambda>_ _. None) False (ToInt I8) (VUInt64 200) = Inl IntegerOutOfRange \<and>
   convert_safely (\<lambda>_ _. None) False (ToInt U8) (VInt16 (- 1)) = Inl NegativeToUnsigned"
proof -
  have "int_of (VUInt64 200) = Some (U64, 200)" "int_of (VInt16 (- 1)) = Some (I16, - 1)" by (simp_all add: int_of_def)
  from integer_conversion_exact [OF this(1), of "\<lambda>_ _. None" I8] integer_conversion_exact [OF this(2), of "\<lambda>_ _. None" U8]
  show ?thesis by (simp add: in_kind_simps kind_facts)
qed


section \<open>Integers and floating-point patterns\<close>

lemma bit_length_1 [simp]: "bit_length (Suc 0) = Suc 0" "bit_length 0 = 0"
  by (simp_all add: bit_length.simps [of "Suc 0"] bit_length.simps [of 0])

lemma bit_length_bounds: "n \<noteq> 0 \<Longrightarrow> 2 ^ (bit_length n - 1) \<le> n \<and> n < 2 ^ bit_length n \<and> 0 < bit_length n"
proof (induction n rule: bit_length.induct)
  case (1 n)
  show ?case
  proof (cases "n div 2 = 0")
    case True
    then have "n = 1" using 1(2) by auto
    then show ?thesis by simp
  next
    case False
    let ?L = "bit_length (n div 2)"
    have ih: "2 ^ (?L - 1) \<le> n div 2" "n div 2 < 2 ^ ?L" "0 < ?L" using 1(1) [OF 1(2) False] by auto
    have L: "bit_length n = Suc ?L" using 1(2) by (simp add: bit_length.simps [of n])
    have "(2 :: nat) ^ ?L = 2 * 2 ^ (?L - 1)" using ih(3) by (cases ?L) simp_all
    then have "2 ^ ?L \<le> 2 * (n div 2)" using ih(1) by simp
    moreover have "2 * (n div 2) \<le> n" "n < 2 * (n div 2 + 1)" "2 * (n div 2 + 1) \<le> 2 * 2 ^ ?L" using ih(2) by simp_all
    ultimately show ?thesis using ih(3) unfolding L by (simp del: One_nat_def)
  qed
qed

lemma bit_length_le: "n < 2 ^ k \<Longrightarrow> bit_length n \<le> k"
proof (cases "n = 0")
  case True
  then show ?thesis by (simp add: bit_length.simps)
next
  case False
  assume "n < 2 ^ k"
  then have "2 ^ (bit_length n - 1) < (2 :: nat) ^ k" using bit_length_bounds [OF False] by linarith
  then have "bit_length n - 1 < k" by simp
  then show ?thesis by simp
qed

lemma odd_part_split: "n \<noteq> 0 \<Longrightarrow> \<exists>j. n = odd_part n * 2 ^ j \<and> bit_length n = bit_length (odd_part n) + j"
proof (induction n rule: odd_part.induct)
  case (1 n)
  show ?case
  proof (cases "odd n")
    case True
    then show ?thesis by (intro exI [of _ 0]) (simp add: odd_part.simps)
  next
    case False
    then have h: "n div 2 \<noteq> 0" "n = 2 * (n div 2)" using 1(2) by auto
    then obtain j where j: "n div 2 = odd_part (n div 2) * 2 ^ j" "bit_length (n div 2) = bit_length (odd_part (n div 2)) + j"
      using 1 False by auto
    have o: "odd_part n = odd_part (n div 2)" using False 1(2) by (simp add: odd_part.simps [of n])
    have "bit_length n = Suc (bit_length (n div 2))" using 1(2) by (simp add: bit_length.simps [of n])
    then have "bit_length n = bit_length (odd_part n) + Suc j" using j(2) o by simp
    moreover have "n = odd_part n * 2 ^ Suc j" using h(2) j(1) o by simp
    ultimately show ?thesis by blast
  qed
qed

lemma small_significant: "n < 2 ^ k \<Longrightarrow> significant_bits n \<le> k"
proof (cases "n = 0")
  case True
  then show ?thesis by (simp add: significant_bits_def odd_part.simps bit_length.simps)
next
  case False
  assume "n < 2 ^ k"
  moreover obtain j where "bit_length n = bit_length (odd_part n) + j" using odd_part_split [OF False] by blast
  ultimately show ?thesis using bit_length_le [of n k] by (simp add: significant_bits_def)
qed

lemma power_significant: "significant_bits (2 ^ k) = 1"
proof -
  have "odd_part (2 ^ k) = 1" by (induction k) (simp_all add: odd_part.simps)
  then show ?thesis by (simp add: significant_bits_def)
qed

text \<open>Few significant bits: the low bits of a long integer are zero.\<close>

lemma significant_dvd:
  assumes "n \<noteq> 0" "significant_bits n \<le> b"
  shows "2 ^ (bit_length n - b) dvd n"
proof -
  obtain j where j: "n = odd_part n * 2 ^ j" "bit_length n = significant_bits n + j"
    using odd_part_split [OF assms(1)] by (auto simp: significant_bits_def)
  then have "bit_length n - b \<le> j" using assms(2) by simp
  then have "2 ^ (bit_length n - b) dvd (2 ^ j :: nat)" by (rule le_imp_power_dvd)
  then show ?thesis using j(1) by (metis dvd_mult)
qed

lemma round_shift_exact: "2 ^ k dvd n \<Longrightarrow> round_shift n k = n div 2 ^ k"
  by (simp add: round_shift_def Let_def)

lemma unpack:
  assumes "x = (if neg then 2 ^ (ff_p f + ff_q f) else 0) + ex * 2 ^ ff_p f + m" "ex < 2 ^ ff_q f" "m < 2 ^ ff_p f"
  shows "ff_exponent f x = ex" "ff_mantissa f x = m" "ff_sign f x = neg"
proof -
  let ?p = "ff_p f" and ?q = "ff_q f"
  let ?s = "if neg then 1 else 0 :: nat"
  have x: "x = (?s * 2 ^ ?q + ex) * 2 ^ ?p + m" using assms(1) by (simp add: power_add algebra_simps)
  have d: "x div 2 ^ ?p = ?s * 2 ^ ?q + ex" using assms(3) by (simp add: x div_mult_self3)
  show "ff_mantissa f x = m" using assms(3) by (simp add: ff_mantissa_def x)
  show "ff_exponent f x = ex" using assms(2) by (simp add: ff_exponent_def d)
  have "x div 2 ^ (?p + ?q) = x div 2 ^ ?p div 2 ^ ?q" by (simp add: power_add div_mult2_eq)
  also have "\<dots> = ?s" using assms(2) by (simp add: d)
  finally show "ff_sign f x = neg" by (simp add: ff_sign_def)
qed

text \<open>
  An integer with at most as many significant bits as the format's mantissa is encoded as a normal number
  whose value it is.
\<close>

lemma ff_of_int_exact:
  assumes "v \<noteq> 0" "significant_bits (nat \<bar>v\<bar>) \<le> ff_p f + 1" "bit_length (nat \<bar>v\<bar>) \<le> ff_bias f" "2 \<le> ff_q f"
  defines "L \<equiv> bit_length (nat \<bar>v\<bar>)"
  obtains m where "ff_value f (ff_of_int f v) = (m, int L - 1 - int (ff_p f))" "ff_finite f (ff_of_int f v)"
    "if L - 1 \<le> ff_p f then m = v * 2 ^ (ff_p f - (L - 1)) else m * 2 ^ (L - 1 - ff_p f) = v"
    "ff_of_int f v < 2 ^ (ff_p f + ff_q f + 1)"
proof -
  let ?n = "nat \<bar>v\<bar>" and ?p = "ff_p f" and ?q = "ff_q f" and ?b = "ff_bias f"
  have n: "?n \<noteq> 0" using assms(1) by simp
  have L: "2 ^ (L - 1) \<le> ?n" "?n < 2 ^ L" "0 < L" using bit_length_bounds [OF n] by (simp_all add: L_def)
  have bq: "2 * ?b + 2 = 2 ^ ?q"
  proof -
    have "2 ^ ?q = 2 * (2 :: nat) ^ (?q - 1)" using assms(4) by (cases ?q) simp_all
    moreover have "1 \<le> (2 :: nat) ^ (?q - 1)" by simp
    ultimately show ?thesis unfolding ff_bias_def by linarith
  qed
  define M where "M = (if L - 1 \<le> ?p then ?n * 2 ^ (?p - (L - 1)) else ?n div 2 ^ (L - 1 - ?p))"
  have dvd: "2 ^ (L - 1 - ?p) dvd ?n" using significant_dvd [OF n assms(2)] by (simp add: L_def)
  have M: "2 ^ ?p \<le> M \<and> M < 2 * 2 ^ ?p"
  proof (cases "L - 1 \<le> ?p")
    case True
    then have "2 ^ ?p = 2 ^ (L - 1) * (2 :: nat) ^ (?p - (L - 1))" "2 * 2 ^ ?p = 2 ^ L * (2 :: nat) ^ (?p - (L - 1))"
      using L(3) by (simp_all add: power_add [symmetric] power_Suc [symmetric] del: power_Suc)
    then show ?thesis using True L(1,2) by (simp add: M_def)
  next
    case False
    then have "(2 :: nat) ^ (L - 1) = 2 ^ ?p * 2 ^ (L - 1 - ?p)" "(2 :: nat) ^ L = 2 * 2 ^ ?p * 2 ^ (L - 1 - ?p)"
      using L(3) by (simp_all add: power_add [symmetric] power_Suc [symmetric] del: power_Suc)
    moreover have "?n = M * 2 ^ (L - 1 - ?p)" using False dvd by (simp add: M_def)
    ultimately show ?thesis using L(1,2) by simp
  qed
  have top: "int L - 1 \<ge> 1 - int ?b" using L(3) assms(3) by (simp add: L_def)
  have scale: "max (int L - 1 + 0) (1 - int ?b) - int ?p = int L - 1 - int ?p" using top by simp
  have m: "(if (0 :: int) \<ge> int L - 1 - int ?p then ?n * 2 ^ nat (0 - (int L - 1 - int ?p)) else round_shift ?n (nat (int L - 1 - int ?p - 0))) = M"
    using L(3) round_shift_exact [OF dvd] by (auto simp: M_def nat_diff_distrib')
  have lb: "L \<le> ?b" using assms(3) by (simp add: L_def)
  have "2 \<le> L + ?b" using lb L(3) by linarith
  then obtain K where K: "L + ?b = K + 2" by (metis add.commute le_Suc_ex)
  have ex: "nat (int L - 1 - int ?p + int ?p - (1 - int ?b)) = K" using K by simp
  have small: "K * 2 ^ ?p + M \<le> (2 ^ ?q - 1) * 2 ^ ?p"
  proof -
    have "K * 2 ^ ?p + M \<le> (K + 2) * 2 ^ ?p" using M by (simp add: algebra_simps)
    also have "K + 2 \<le> 2 ^ ?q - 1" using lb bq K by linarith
    finally show ?thesis by simp
  qed
  have enc: "ff_of_int f v = (if v < 0 then 2 ^ (?p + ?q) else 0) + (K * 2 ^ ?p + M)"
    unfolding ff_of_int_def ff_encode_def Let_def L_def [symmetric] scale m ex using n small by simp
  have pk: "ff_of_int f v = (if v < 0 then 2 ^ (?p + ?q) else 0) + (K + 1) * 2 ^ ?p + (M - 2 ^ ?p)"
    using M unfolding enc by simp
  have exq: "K + 1 < 2 ^ ?q" using lb bq K by linarith
  have Mp: "M - 2 ^ ?p < 2 ^ ?p" using M by linarith
  note u = unpack [OF pk exq Mp]
  let ?m = "if v < 0 then - int M else int M"
  have val: "ff_value f (ff_of_int f v) = (?m, int L - 1 - int ?p)"
    using u M K by (simp add: ff_value_def Let_def of_nat_diff)
  have "K + 1 \<noteq> 2 ^ ?q - 1" using lb bq K by linarith
  then have fin: "ff_finite f (ff_of_int f v)" using u(1) by (simp add: ff_finite_def)
  have eq: "if L - 1 \<le> ?p then ?m = v * 2 ^ (?p - (L - 1)) else ?m * 2 ^ (L - 1 - ?p) = v"
  proof (cases "L - 1 \<le> ?p")
    case True
    then show ?thesis by (simp add: M_def)
  next
    case False
    then have "M * 2 ^ (L - 1 - ?p) = ?n" using dvd by (simp add: M_def)
    then have "int M * 2 ^ (L - 1 - ?p) = \<bar>v\<bar>" by (metis abs_ge_zero int_nat_eq of_nat_mult of_nat_numeral of_nat_power)
    then show ?thesis using False by auto
  qed
  have "(K + 1) * 2 ^ ?p + (M - 2 ^ ?p) < 2 ^ (?p + ?q)"
  proof -
    have "(K + 1) * 2 ^ ?p + (M - 2 ^ ?p) < (K + 1 + 1) * 2 ^ ?p" using Mp by simp
    also have "\<dots> \<le> 2 ^ ?q * 2 ^ ?p" using exq by (intro mult_right_mono) auto
    finally show ?thesis by (simp add: power_add mult.commute)
  qed
  then have "ff_of_int f v < 2 ^ (?p + ?q + 1)" using pk by (auto simp: power_add)
  with val fin eq show ?thesis by (rule that)
qed


text \<open>A scaled number that is the integer \<open>v\<close>.\<close>

definition scaled_eq :: "int \<times> int \<Rightarrow> int \<Rightarrow> bool" where
  "scaled_eq x v = (let (m, e) = x in if e \<ge> 0 then m * 2 ^ nat e = v else m = v * 2 ^ nat (- e))"

lemma scaled_eq_facts:
  assumes "scaled_eq x v"
  shows "scaled_less x k \<longleftrightarrow> v < k" "scaled_leq x k \<longleftrightarrow> v \<le> k" "scaled_integral x" "scaled_int x = v"
  using assms by (auto simp: scaled_eq_def scaled_less_def scaled_leq_def scaled_integral_def scaled_int_def split: prod.splits if_splits)

lemma scaled_int_eq: "scaled_integral x \<Longrightarrow> scaled_eq x (scaled_int x)"
  by (auto simp: scaled_eq_def scaled_integral_def scaled_int_def split: prod.splits)

lemma float_to_int_exact:
  "float_to_int low digits S x = Inr v \<longleftrightarrow>
    ff_finite (format_of S) x \<and> scaled_eq (ff_value (format_of S) x) v \<and> low \<le> v \<and> v < 2 ^ digits"
proof -
  let ?v = "ff_value (format_of S) x"
  show ?thesis
  proof (cases "scaled_integral ?v")
    case True
    note eq = scaled_int_eq [OF True]
    have "scaled_eq ?v v \<longleftrightarrow> v = scaled_int ?v" using scaled_eq_facts(4) [of ?v v] eq by auto
    then show ?thesis using scaled_eq_facts [OF eq] by (auto simp: float_to_int_def Let_def integerUpperLimit_def not_less)
  next
    case False
    then have "\<not> scaled_eq ?v v" using scaled_eq_facts(3) by blast
    then show ?thesis using False by (simp add: float_to_int_def Let_def)
  qed
qed

lemma ff_of_int_value:
  assumes "significant_bits (nat \<bar>v\<bar>) \<le> float_digits T" "bit_length (nat \<bar>v\<bar>) \<le> 64"
  shows "ff_finite (format_of T) (ff_of_int (format_of T) v) \<and> scaled_eq (ff_value (format_of T) (ff_of_int (format_of T) v)) v \<and>
    ff_of_int (format_of T) v < 2 ^ (ff_p (format_of T) + ff_q (format_of T) + 1)"
proof (cases "v = 0")
  case True
  then show ?thesis
    by (cases T) (simp_all add: format_of_def F32_def F64_def ff_of_int_def ff_encode_def ff_finite_def ff_exponent_def ff_value_def
      ff_mantissa_def ff_sign_def scaled_eq_def Let_def)
next
  case False
  let ?f = "format_of T" and ?L = "bit_length (nat \<bar>v\<bar>)"
  have fmt: "64 \<le> ff_bias ?f" "2 \<le> ff_q ?f" by (cases T; simp add: format_of_def F32_def F64_def ff_bias_def)+
  have L: "0 < ?L" using bit_length_bounds [of "nat \<bar>v\<bar>"] False by simp
  obtain m where m: "ff_value ?f (ff_of_int ?f v) = (m, int ?L - 1 - int (ff_p ?f))" "ff_finite ?f (ff_of_int ?f v)"
    "if ?L - 1 \<le> ff_p ?f then m = v * 2 ^ (ff_p ?f - (?L - 1)) else m * 2 ^ (?L - 1 - ff_p ?f) = v"
    "ff_of_int ?f v < 2 ^ (ff_p ?f + ff_q ?f + 1)"
    by (rule ff_of_int_exact [OF False _ _ fmt(2)]) (use assms fmt in \<open>auto simp: float_digits_def\<close>)
  have "scaled_eq (m, int ?L - 1 - int (ff_p ?f)) v"
  proof (cases "?L - 1 \<le> ff_p ?f")
    case True
    then have "nat (- (int ?L - 1 - int (ff_p ?f))) = ff_p ?f - (?L - 1)" using L True by linarith
    moreover have "\<not> 0 \<le> int ?L - 1 - int (ff_p ?f) \<or> ff_p ?f = ?L - 1" using True L by linarith
    ultimately show ?thesis using m(3) True by (auto simp: scaled_eq_def)
  next
    case False
    then have "nat (int ?L - 1 - int (ff_p ?f)) = ?L - 1 - ff_p ?f" "0 \<le> int ?L - 1 - int (ff_p ?f)" using L False by linarith+
    then show ?thesis using m(3) False by (simp add: scaled_eq_def)
  qed
  then show ?thesis using m by simp
qed

lemma float_of_of_kind: "x < 2 ^ (ff_p (format_of k) + ff_q (format_of k) + 1) \<Longrightarrow> float_of (float_of_kind k x) = Some (k, x)"
  by (cases k) (simp_all add: float_of_def float_of_kind_def format_of_def F32_def F64_def unat_of_nat take_bit_nat_eq_self)

lemma kind_bit_length: "in_kind k v \<Longrightarrow> bit_length (nat \<bar>v\<bar>) \<le> 64 \<and> (kind_digits k \<le> b \<longrightarrow> 1 \<le> b \<longrightarrow> significant_bits (nat \<bar>v\<bar>) \<le> b)"
proof -
  assume a: "in_kind k v"
  have "\<bar>v\<bar> < 2 ^ 64" using a by (cases k) (auto simp: in_kind_simps)
  then have "nat \<bar>v\<bar> < 2 ^ 64" by (simp add: nat_less_iff)
  then have L: "bit_length (nat \<bar>v\<bar>) \<le> 64" by (rule bit_length_le)
  have "significant_bits (nat \<bar>v\<bar>) \<le> b" if b: "kind_digits k \<le> b" "1 \<le> b"
  proof (cases "v = - (2 ^ kind_digits k)")
    case True
    then have "nat \<bar>v\<bar> = nat (2 ^ kind_digits k)" by simp
    also have "\<dots> = 2 ^ kind_digits k" by (simp add: nat_power_eq)
    finally have "nat \<bar>v\<bar> = 2 ^ kind_digits k" .
    then have "significant_bits (nat \<bar>v\<bar>) = 1" by (simp only: power_significant)
    then show ?thesis using b(2) by linarith
  next
    case False
    then have "\<bar>v\<bar> < 2 ^ kind_digits k" using a by (auto simp: in_kind_def lowest_def highest_def split: if_splits)
    then have "nat \<bar>v\<bar> < 2 ^ kind_digits k" by (simp add: nat_less_iff)
    then have "nat \<bar>v\<bar> < 2 ^ b" using power_increasing [OF b(1), of "2 :: nat"] by linarith
    then show ?thesis by (rule small_significant)
  qed
  with L show ?thesis by blast
qed

lemma significant_0: "significant_bits 0 = 0"
  by (simp add: significant_bits_def odd_part.simps [of 0])

lemma int_float_roundtrip_lemma:
  assumes "in_kind S v" "convert_int_float T S v = Inr w"
  shows "\<exists>x. float_of w = Some (T, x) \<and> ff_finite (format_of T) x \<and> scaled_eq (ff_value (format_of T) x) v \<and>
    (\<forall>K. convert_float_int K T x = (if in_kind K v then Inr (of_kind K v) else Inl FloatOutOfRange))"
proof -
  let ?x = "ff_of_int (format_of T) v"
  have one: "1 \<le> float_digits T" by (simp add: float_digits_def)
  have sig: "significant_bits (nat \<bar>v\<bar>) \<le> float_digits T" "w = float_of_kind T ?x"
    using assms(2) kind_bit_length [OF assms(1), of "float_digits T"] one
    by (auto simp: convert_int_float_def significant_0 split: if_splits)
  have val: "ff_finite (format_of T) ?x" "scaled_eq (ff_value (format_of T) ?x) v" "?x < 2 ^ (ff_p (format_of T) + ff_q (format_of T) + 1)"
    using ff_of_int_value [OF sig(1)] kind_bit_length [OF assms(1), of 1] by auto
  have "convert_float_int K T ?x = (if in_kind K v then Inr (of_kind K v) else Inl FloatOutOfRange)" for K
    using val scaled_eq_facts [OF val(2)]
    by (auto simp: convert_float_int_def float_to_int_def Let_def integerUpperLimit_def in_kind_def highest_def)
  then show ?thesis using val sig(2) float_of_of_kind by blast
qed

text \<open>
  C40. From an integer to a floating-point number and back: a conversion that succeeds gives a finite number
  whose value is the integer, and converting it on returns that integer in every integer type that holds
  it and an error in every other; it fails only when the integer has more significant bits than the mantissa.
\<close>

theorem int_float_roundtrip:
  assumes "int_of w = Some (S, v)"
  shows "case convert_safely F False (ToFloat T) w of
      Inl e \<Rightarrow> e = NotExact \<and> float_digits T < significant_bits (nat \<bar>v\<bar>)
    | Inr r \<Rightarrow> (\<exists>x. float_of r = Some (T, x) \<and> ff_finite (format_of T) x \<and> scaled_eq (ff_value (format_of T) x) v) \<and>
        (\<forall>K. convert_safely F False (ToInt K) r = (if in_kind K v then Inr (of_kind K v) else Inl FloatOutOfRange))"
proof -
  have k: "in_kind S v" using int_of_range [OF assms] by simp
  have c: "convert_safely F False (ToFloat T) w = convert_int_float T S v"
    using assms by (auto simp: convert_safely_def target_of_def convert_real_def int_of_def split: pmt.splits)
  show ?thesis
  proof (cases "convert_int_float T S v")
    case (Inl e)
    then show ?thesis using c by (auto simp: convert_int_float_def split: if_splits)
  next
    case (Inr r)
    obtain x where x: "float_of r = Some (T, x)" "ff_finite (format_of T) x" "scaled_eq (ff_value (format_of T) x) v"
      "\<And>K. convert_float_int K T x = (if in_kind K v then Inr (of_kind K v) else Inl FloatOutOfRange)"
      using int_float_roundtrip_lemma [OF k Inr] by auto
    have "convert_safely F False (ToInt K) r = convert_float_int K T x" for K
      using x(1) by (auto simp: convert_safely_def target_of_def convert_real_def int_of_def float_of_def split: pmt.splits)
    then show ?thesis using c Inr x by auto
  qed
qed

lemma int_float_roundtrip_witness:
  "\<exists>r. convert_safely (\<lambda>_ _. None) False (ToFloat FK32) (VInt64 20000000) = Inr r \<and>
    convert_safely (\<lambda>_ _. None) False (ToInt I32) r = Inr (VInt32 20000000)"
proof -
  have o: "odd_part 20000000 = 78125" by (simp add: odd_part.simps)
  have "bit_length 78125 \<le> 17" by (rule bit_length_le) simp
  then have s: "significant_bits 20000000 \<le> 24" by (simp add: significant_bits_def o)
  have "int_of (VInt64 20000000) = Some (I64, 20000000)" by (simp add: int_of_def)
  from int_float_roundtrip [OF this, of FK32 "\<lambda>_ _. None"] s show ?thesis
    by (auto simp: float_digits_def format_of_def F32_def in_kind_simps of_kind_def split: sum.splits)
qed


section \<open>Integers as text\<close>

text \<open>The decimal spelling of an integer, as \<^verbatim>\<open>std::format\<close> prints it.\<close>

fun decimal_nat :: "nat \<Rightarrow> string" where
  "decimal_nat n = (if n < 10 then [char_of (48 + n)] else decimal_nat (n div 10) @ [char_of (48 + n mod 10)])"

declare decimal_nat.simps [simp del]

definition decimal :: "int \<Rightarrow> string" where
  "decimal v = (if v < 0 then CHR ''-'' # decimal_nat (nat (- v)) else decimal_nat (nat v))"

definition digits_value :: "string \<Rightarrow> nat" where
  "digits_value s = foldl (\<lambda>a c. 10 * a + digit_value c) 0 s"

lemma digit_char: "d < 10 \<Longrightarrow> is_digit (char_of (48 + d)) \<and> digit_value (char_of (48 + d)) = d"
  by (simp add: is_digit_def digit_value_def char_code_def of_char_of)

lemma decimal_nat_digits: "decimal_nat n \<noteq> [] \<and> (\<forall>c \<in> set (decimal_nat n). is_digit c) \<and> digits_value (decimal_nat n) = n"
proof (induction n rule: decimal_nat.induct)
  case (1 n)
  show ?case
  proof (cases "n < 10")
    case True
    then show ?thesis using digit_char [OF True] by (simp add: decimal_nat.simps [of n] digits_value_def)
  next
    case False
    have "n mod 10 < 10" by simp
    then show ?thesis
      using 1 [OF False] digit_char [of "n mod 10"] False by (auto simp: decimal_nat.simps [of n] digits_value_def)
  qed
qed

lemma digit_not_special: "is_digit c \<Longrightarrow> \<not> is_space c \<and> c \<noteq> CHR ''#'' \<and> c \<noteq> CHR ''-'' \<and> c \<noteq> CHR ''.'' \<and> c \<noteq> CHR ''e'' \<and> c \<noteq> CHR ''E''"
  by (auto simp: is_digit_def is_space_def char_code_def)

lemma takeWhile_append_stop: "(\<forall>c \<in> set xs. P c) \<Longrightarrow> (case ys of [] \<Rightarrow> True | c # _ \<Rightarrow> \<not> P c) \<Longrightarrow> takeWhile P (xs @ ys) = xs"
  by (induction xs) (auto split: list.splits)

lemma trim_text:
  assumes "\<forall>c \<in> set pre. is_space c" "\<forall>c \<in> set post. is_space c" "comment = [] \<or> hd comment = CHR ''#''"
    "s \<noteq> []" "\<forall>c \<in> set s. \<not> is_space c \<and> c \<noteq> CHR ''#''"
  shows "trimAndCutComment (pre @ s @ post @ comment) = s"
proof -
  have hash: "\<not> is_space (CHR ''#'')" by (simp add: is_space_def)
  have "dropWhile is_space (pre @ s @ post @ comment) = dropWhile is_space (s @ post @ comment)"
    by (rule dropWhile_append2) (use assms(1) in blast)
  also have "\<dots> = s @ post @ comment" using assms(4,5) by (cases s) simp_all
  finally have "dropWhile is_space (pre @ s @ post @ comment) = s @ post @ comment" .
  moreover have "takeWhile (\<lambda>c. c \<noteq> CHR ''#'') ((s @ post) @ comment) = s @ post"
  proof (rule takeWhile_append_stop)
    show "\<forall>c \<in> set (s @ post). c \<noteq> CHR ''#''" using assms(2,5) hash by auto
    show "case comment of [] \<Rightarrow> True | c # _ \<Rightarrow> \<not> c \<noteq> CHR ''#''" using assms(3) by (cases comment) simp_all
  qed
  moreover have "dropWhile is_space (rev (s @ post)) = rev s"
  proof -
    have "dropWhile is_space (rev post @ rev s) = dropWhile is_space (rev s)"
      by (rule dropWhile_append2) (use assms(2) in simp)
    also have "\<dots> = rev s" using assms(4,5) by (cases s rule: rev_cases) simp_all
    finally show ?thesis by simp
  qed
  ultimately show ?thesis by (simp add: trimAndCutComment_def)
qed

lemma decimal_chars: "decimal v \<noteq> [] \<and> (\<forall>c \<in> set (decimal v). is_digit c \<or> c = CHR ''-'')"
  using decimal_nat_digits by (auto simp: decimal_def)

lemma decimal_plain:
  assumes "c \<in> set (decimal v)"
  shows "\<not> is_space c \<and> c \<noteq> CHR ''#'' \<and> c \<noteq> CHR ''.'' \<and> c \<noteq> CHR ''e'' \<and> c \<noteq> CHR ''E''"
proof (cases "is_digit c")
  case True
  then show ?thesis using digit_not_special by blast
next
  case False
  then have "c = CHR ''-''" using decimal_chars assms by blast
  then show ?thesis by (simp add: is_space_def)
qed

lemma trim_decimal:
  assumes "\<forall>c \<in> set pre. is_space c" "\<forall>c \<in> set post. is_space c" "comment = [] \<or> hd comment = CHR ''#''"
  shows "trimAndCutComment (pre @ decimal v @ post @ comment) = decimal v"
proof (rule trim_text [OF assms])
  show "decimal v \<noteq> []" using decimal_chars by blast
  show "\<forall>c \<in> set (decimal v). \<not> is_space c \<and> c \<noteq> CHR ''#''" using decimal_plain by blast
qed

lemma from_chars_digits:
  assumes "ds \<noteq> []" "\<forall>c \<in> set ds. is_digit c"
  shows "from_chars k ds = Some (if in_kind k (int (digits_value ds)) then Some (int (digits_value ds)) else None, [])"
    "from_chars k (CHR ''-'' # ds) = (if is_signed k then
       Some (if in_kind k (- int (digits_value ds)) then Some (- int (digits_value ds)) else None, []) else None)"
proof -
  have t: "takeWhile is_digit ds = ds" "dropWhile is_digit ds = []" using assms(2) by auto
  have m: "hd ds \<noteq> CHR ''-''" using assms digit_not_special by (cases ds) auto
  show "from_chars k ds = Some (if in_kind k (int (digits_value ds)) then Some (int (digits_value ds)) else None, [])"
    using assms(1) m t by (cases ds) (simp_all add: from_chars_def digits_value_def Let_def)
  have "\<not> is_digit (CHR ''-'')" using digit_not_special by blast
  then show "from_chars k (CHR ''-'' # ds) = (if is_signed k then
       Some (if in_kind k (- int (digits_value ds)) then Some (- int (digits_value ds)) else None, []) else None)"
    using assms(1) by (simp add: from_chars_def digits_value_def Let_def t del: takeWhile_eq_all_conv)
qed

lemma from_chars_decimal:
  "from_chars k (decimal v) = (if v < 0 \<and> \<not> is_signed k then None else Some (if in_kind k v then Some v else None, []))"
proof (cases "v < 0")
  case True
  then have "digits_value (decimal_nat (nat (- v))) = nat (- v)" using decimal_nat_digits by blast
  then show ?thesis using True from_chars_digits(2) [of "decimal_nat (nat (- v))" k] decimal_nat_digits [of "nat (- v)"] by (simp add: decimal_def)
next
  case False
  then have "digits_value (decimal_nat (nat v)) = nat v" using decimal_nat_digits by blast
  then show ?thesis using False from_chars_digits(1) [of "decimal_nat (nat v)" k] decimal_nat_digits [of "nat v"] by (simp add: decimal_def)
qed

lemma parse_int_decimal:
  assumes "\<forall>c \<in> set pre. is_space c" "\<forall>c \<in> set post. is_space c" "comment = [] \<or> hd comment = CHR ''#''"
  shows "parse_int k (pre @ decimal v @ post @ comment) =
    (if in_kind k v then Inr v else Inl (if v < 0 \<and> \<not> is_signed k then CannotParse else IntegerOutOfRange))"
proof -
  note trim_decimal [OF assms, of v]
  moreover have "v < 0 \<Longrightarrow> \<not> is_signed k \<Longrightarrow> \<not> in_kind k v" by (simp add: in_kind_def lowest_def)
  ultimately show ?thesis by (auto simp: parse_int_def from_chars_decimal)
qed

lemma least_kind:
  assumes "in_kind I64 v \<or> in_kind U64 v"
  shows "\<exists>k. smallest (if v < 0 then [I8, I16, I32, I64] else [I8, U8, I16, U16, I32, U32, I64, U64])
      (\<lambda>k. if v < 0 then k = I64 \<or> inRange k v else v \<le> highest k) UNIV = Some k \<and>
    in_kind k v \<and> (\<forall>k'. in_kind k' v \<longrightarrow> kind_bits k \<le> kind_bits k' \<and> (kind_bits k' = kind_bits k \<longrightarrow> is_signed k' \<longrightarrow> k' = k))"
proof -
  let ?P = "\<lambda>k. in_kind k v \<and> (\<forall>k'. in_kind k' v \<longrightarrow> kind_bits k \<le> kind_bits k' \<and> (kind_bits k' = kind_bits k \<longrightarrow> is_signed k' \<longrightarrow> k' = k))"
  have all: "(\<forall>k. Q k) \<longleftrightarrow> Q I8 \<and> Q I16 \<and> Q I32 \<and> Q I64 \<and> Q U8 \<and> Q U16 \<and> Q U32 \<and> Q U64" for Q by (metis int_kind.exhaust)
  have hi: "highest I8 = 127" "highest I16 = 32767" "highest I32 = 2147483647" "highest I64 = 9223372036854775807"
    "highest U8 = 255" "highest U16 = 65535" "highest U32 = 4294967295" "highest U64 = 18446744073709551615"
    by (simp_all add: highest_def kind_facts)
  have lo: "lowest I8 = - 128" "lowest I16 = - 32768" "lowest I32 = - 2147483648" by (simp_all add: lowest_def kind_facts)
  show ?thesis
  proof (cases "v < 0")
    case True
    then show ?thesis using assms
      by (simp add: all smallest_def inRange_def in_kind_simps kind_facts kind_bits_def hi lo)
  next
    case False
    then show ?thesis using assms
      by (simp add: all smallest_def in_kind_simps kind_facts kind_bits_def hi) linarith
  qed
qed

text \<open>
  An integer survives its decimal text, whatever white space and comment surround it: parsing the text for an
  integer type gives the integer exactly when the type holds it and an error otherwise, and the minimal
  numeric parse gives it in the narrowest type that holds it, a signed one where both do.
\<close>

theorem integer_text_roundtrip:
  assumes "\<forall>c \<in> set pre. is_space c" "\<forall>c \<in> set post. is_space c" "comment = [] \<or> hd comment = CHR ''#''"
  shows "convert_safely F False (ToInt k) (VString (pre @ decimal v @ post @ comment)) =
      (if in_kind k v then Inr (of_kind k v) else Inl (if v < 0 \<and> \<not> is_signed k then CannotParse else IntegerOutOfRange)) \<and>
    (in_kind I64 v \<or> in_kind U64 v \<longrightarrow>
      (\<exists>m. parseToMinimalNumeric UNIV floats (pre @ decimal v @ post @ comment) = Inr (of_kind m v) \<and> in_kind m v \<and>
        (\<forall>m'. in_kind m' v \<longrightarrow> kind_bits m \<le> kind_bits m' \<and> (kind_bits m' = kind_bits m \<longrightarrow> is_signed m' \<longrightarrow> m' = m))))"
proof -
  have "convert_safely F False (ToInt k) (VString s) = map_sum id (of_kind k) (parse_int k s)" for s
    by (simp add: convert_safely_def target_of_def int_of_def float_of_def convert_text_def)
  then have 1: "convert_safely F False (ToInt k) (VString (pre @ decimal v @ post @ comment)) =
      (if in_kind k v then Inr (of_kind k v) else Inl (if v < 0 \<and> \<not> is_signed k then CannotParse else IntegerOutOfRange))"
    by (simp add: parse_int_decimal [OF assms])
  note trim = trim_decimal [OF assms, of v]
  have plain: "CHR ''.'' \<notin> set (decimal v)" "CHR ''e'' \<notin> set (decimal v)" "CHR ''E'' \<notin> set (decimal v)"
    using decimal_plain by blast+
  have neg: "hd (decimal v) = CHR ''-'' \<longleftrightarrow> v < 0"
  proof (cases "v < 0")
    case False
    then have "hd (decimal v) \<in> set (decimal_nat (nat v))" using decimal_nat_digits [of "nat v"] by (simp add: decimal_def)
    then have "is_digit (hd (decimal v))" using decimal_nat_digits by blast
    then show ?thesis using False digit_not_special by blast
  qed (simp add: decimal_def)
  have fc: "from_chars (if v < 0 then I64 else U64) (decimal v) = Some (Some v, [])" if "in_kind I64 v \<or> in_kind U64 v"
    using that by (auto simp: from_chars_decimal in_kind_simps kind_facts)
  have 2: "\<exists>m. parseToMinimalNumeric UNIV floats (pre @ decimal v @ post @ comment) = Inr (of_kind m v) \<and> in_kind m v \<and>
      (\<forall>m'. in_kind m' v \<longrightarrow> kind_bits m \<le> kind_bits m' \<and> (kind_bits m' = kind_bits m \<longrightarrow> is_signed m' \<longrightarrow> m' = m))"
    if k: "in_kind I64 v \<or> in_kind U64 v"
    using least_kind [OF k] fc [OF k] plain neg decimal_chars [of v]
    by (auto simp: parseToMinimalNumeric_def Let_def trim)
  show ?thesis using 1 2 by blast
qed

lemma integer_text_roundtrip_witness:
  "\<exists>m. parseToMinimalNumeric UNIV {} ('' '' @ decimal 200 @ '' '' @ ''# gain'') = Inr (of_kind m 200) \<and> kind_bits m = 8 \<and> m \<noteq> I8"
proof -
  have pre: "\<forall>c \<in> set '' ''. is_space c" "''# gain'' = [] \<or> hd ''# gain'' = CHR ''#''" by (simp_all add: is_space_def)
  obtain m where m: "parseToMinimalNumeric UNIV {} ('' '' @ decimal 200 @ '' '' @ ''# gain'') = Inr (of_kind m 200)" "in_kind m 200"
    "kind_bits m \<le> kind_bits U8"
    using integer_text_roundtrip [OF pre(1) pre(1) pre(2), of "\<lambda>_ _. None" I8 200 "{}"] by (auto simp: in_kind_simps)
  have "kind_bits m = 8 \<and> m \<noteq> I8" using m(2,3) by (cases m) (simp_all add: in_kind_simps kind_bits_def)
  with m(1) show ?thesis by blast
qed

section \<open>Conversions that never succeed\<close>

text \<open>
  A complex number of one width never converts to the other width, nor a real-valued one to a real type, and
  text with a decimal point is never parsed to a minimal numeric value: the code wraps the operand into a
  \<^verbatim>\<open>std::variant\<close> before it calls \<^verbatim>\<open>convert_safely\<close> again, which has no case for such a source.
\<close>

lemma complex_never_converts:
  "convert_safely F False (ToComplex FK64) (VComplexFloat32 a b) = Inl Unsupported"
  "convert_safely F False (ToComplex FK32) (VComplexFloat64 c d) = Inl Unsupported"
  "convert_safely F False (ToFloat k) (VComplexFloat32 a 0) = Inl Unsupported"
  by (simp_all add: convert_safely_def target_of_def convert_complex_def float_zero_def)

lemma minimal_numeric_no_float: "CHR ''.'' \<in> set s \<Longrightarrow> trimAndCutComment s = s \<Longrightarrow> \<exists>e. parseToMinimalNumeric ints floats s = Inl e"
  by (auto simp: parseToMinimalNumeric_def Let_def)

text \<open>The strict conversion that numeric settings use refuses text even for a text target.\<close>

lemma text_not_strict: "convert_numerically F ToString (VString s) = Inl StrictMismatch"
  by (simp add: convert_numerically_def convert_safely_def target_of_def int_of_def float_of_def)

end
