(* ===== verification/SettingsApply.thy ===== *)
theory SettingsApply
  imports SettingsStore PmtConvert
begin

text \<open>
  The settings of a block, second part (\<^verbatim>\<open>core/src/Settings.cpp\<close>): staging the values of tags, the apply with
  the block's \<^verbatim>\<open>settingsChanged()\<close> callback and its refusal, resetting to the defaults, the couplings of settings to
  tag keys, and the initialisation. The callbacks are functions on the whole state, for they run with the lock
  released and may call every operation on the settings; an exception they throw is a message.
\<close>

section \<open>Hooks and results\<close>

text \<open>
  \<open>hk_changed old new s\<close>: the message thrown, if any, the parameters to forward and the state afterwards.
\<close>

record 'b hooks =
  hk_changed :: "(property_map \<Rightarrow> property_map \<Rightarrow> 'b settings \<Rightarrow> string option \<times> property_map \<times> 'b settings) option"
  hk_reset :: "('b settings \<Rightarrow> 'b settings) option"

text \<open>
  The result of an apply. The refusal texts are the values they describe: of the failed parameters those a tag staged and
  the others, and the batch the callback refused with its message.
\<close>

record apply_result =
  ar_forward :: property_map
  ar_applied :: property_map
  ar_failed :: property_map
  ar_tagRefusal :: property_map
  ar_untaggedRefusal :: property_map
  ar_callbackRefusal :: "(property_map \<times> string) option"

definition gr_key :: "string \<Rightarrow> string" where
  "gr_key k = ''gr:'' @ k"

definition kContextField :: string where
  "kContextField = ''context''"

section \<open>Reading and writing the members\<close>

definition read_members :: "'b descriptor \<Rightarrow> 'b \<Rightarrow> property_map \<Rightarrow> property_map" where
  "read_members D b m = fold (\<lambda>mb. AList.update (mb_name mb) (the (mb_read mb) b)) (readable_members D) m"

definition storeCurrentParameters :: "'b descriptor \<Rightarrow> 'b \<Rightarrow> property_map \<Rightarrow> property_map" where
  "storeCurrentParameters D b m = (if ds_reflectable D then read_members D b m else m)"

definition storeDefaults :: "'b descriptor \<Rightarrow> 'b settings \<Rightarrow> 'b settings" where
  "storeDefaults D s = s\<lparr>ss_defaults := storeCurrentParameters D (ss_block s) (ss_defaults s)\<rparr>"

definition updateActiveParametersImpl :: "'b descriptor \<Rightarrow> 'b settings \<Rightarrow> 'b settings" where
  "updateActiveParametersImpl D s = s\<lparr>ss_activeParams := read_members D (ss_block s) (ss_activeParams s)\<rparr>"

definition updateActiveParameters :: "'b descriptor \<Rightarrow> 'b settings \<Rightarrow> 'b settings" where
  "updateActiveParameters D s = (if ds_reflectable D then updateActiveParametersImpl D s else s)"

definition updateActiveParameters_of :: "'b descriptor \<Rightarrow> string list \<Rightarrow> 'b settings \<Rightarrow> nat \<times> 'b settings" where
  "updateActiveParameters_of D keys s =
     (if \<not> ds_reflectable D then (0, s)
      else (let ms = [m \<leftarrow> readable_members D. mb_name m \<in> set keys]
            in (length ms, s\<lparr>ss_activeParams := fold (\<lambda>mb. AList.update (mb_name mb) (the (mb_read mb) (ss_block s))) ms (ss_activeParams s)\<rparr>)))"

section \<open>Tags\<close>

definition contextInTag :: "gr_tag \<Rightarrow> string option" where
  "contextInTag t = (case tag_get (gr_key ''context'') t of Some (VString s) \<Rightarrow> Some s | _ \<Rightarrow> None)"

definition contextTimeInTag :: "float_parser \<Rightarrow> gr_tag \<Rightarrow> usize option" where
  "contextTimeInTag F t =
     (case tag_get (gr_key ''ctx_time'') t of
        None \<Rightarrow> None
      | Some v \<Rightarrow> (case convert_safely F False (ToInt U64) v of Inr (VUInt64 w) \<Rightarrow> Some w | _ \<Rightarrow> None))"

definition createSettingsCtxFromTag :: "float_parser \<Rightarrow> usize \<Rightarrow> gr_tag \<Rightarrow> settings_ctx option" where
  "createSettingsCtxFromTag F now t =
     (case contextInTag t of
        None \<Rightarrow> None
      | Some c \<Rightarrow> Some (at_now now \<lparr>cx_time = value_or (contextTimeInTag F t) 0, cx_context = VString c\<rparr>))"

definition isActiveValueImpl :: "string \<Rightarrow> pmt \<Rightarrow> 'b settings \<Rightarrow> bool" where
  "isActiveValueImpl k v s = (case map_of (ss_activeParams s) k of None \<Rightarrow> False | Some w \<Rightarrow> pmt_eq w v)"

text \<open>The keys whose value the tag's activation staged, and the name of the context it activated.\<close>

definition tagged_by_activation :: "'b settings \<Rightarrow> 'b settings \<Rightarrow> string set" where
  "tagged_by_activation before after =
     ss_tagged after \<union>
     fst ` set [(k, v) \<leftarrow> ss_staged after.
        case map_of (ss_staged before) k of None \<Rightarrow> True | Some w \<Rightarrow> \<not> pmt_eq w v \<or> k \<in> ss_tagged before] \<union>
     (if ss_contextActivated after \<and> \<not> ss_contextActivated before then {kContextField} else {})"

text \<open>The keys that follow tags in a context, with the entry the call creates for a stored set.\<close>

definition auto_update_of :: "'b descriptor \<Rightarrow> usize \<Rightarrow> settings_ctx \<Rightarrow> 'b settings \<Rightarrow> string set \<times> 'b settings" where
  "auto_update_of D now ctx s =
     (if ctx \<in> fst ` set (stored_at (cx_context ctx) (ss_stored s)) then
        (let s' = fill_auto D ctx s in (the (ss_auto s' ctx), s'))
      else
        (let best = (case best_ctx s ctx of None \<Rightarrow> best_ctx s \<lparr>cx_time = now, cx_context = cx_context ctx\<rparr> | b \<Rightarrow> b)
         in ((case best of None \<Rightarrow> writableMembers D | Some b \<Rightarrow> value_or (ss_auto s b) (writableMembers D)), s)))"

definition control_staged :: "property_map \<Rightarrow> property_map \<Rightarrow> property_map" where
  "control_staged params staged = fold (\<lambda>(k, v) m.
     if default_tag_is ''reset_default'' k then AList.update (gr_key ''reset_default'') v m
     else if default_tag_is ''store_default'' k then AList.update (gr_key ''store_default'') v m else m) params staged"

definition has_control :: "property_map \<Rightarrow> bool" where
  "has_control params \<longleftrightarrow> (\<exists>e \<in> set params. default_tag_is ''reset_default'' (fst e) \<or> default_tag_is ''store_default'' (fst e))"

text \<open>One coupled setting: the value it stages, if the tag has its key and the setting follows tags.\<close>

definition coupled_value :: "'b descriptor \<Rightarrow> property_map \<Rightarrow> bool \<Rightarrow> string set \<Rightarrow> 'b settings \<Rightarrow> string \<times> string \<Rightarrow> pmt option" where
  "coupled_value D params ctxChanged auto s = (\<lambda>(setting, key).
     (case (map_of params key, writableByName D setting) of
        (Some v, Some m) \<Rightarrow> if (ctxChanged \<or> \<not> isActiveValueImpl setting v s) \<and> setting \<in> auto then mb_auto m v else None
      | _ \<Rightarrow> None))"

definition stage_coupled :: "'b descriptor \<Rightarrow> property_map \<Rightarrow> bool \<Rightarrow> string set \<Rightarrow> 'b settings \<Rightarrow> bool \<times> 'b settings" where
  "stage_coupled D params ctxChanged auto s = fold (\<lambda>c (changed, t).
     case coupled_value D params ctxChanged auto s c of
       None \<Rightarrow> (changed, t)
     | Some v \<Rightarrow> (True, t\<lparr>ss_staged := AList.update (fst c) v (ss_staged t), ss_tagged := insert (fst c) (ss_tagged t)\<rparr>))
     (ss_couplings s) (False, s)"

definition autoUpdate :: "'b descriptor \<Rightarrow> float_parser \<Rightarrow> (nat \<Rightarrow> usize) \<Rightarrow> gr_tag \<Rightarrow> 'b settings \<Rightarrow> settings_error option \<times> 'b settings" where
  "autoUpdate D F clk t s =
     (if \<not> ds_reflectable D then (None, s)
      else
       (let tagCtx = createSettingsCtxFromTag F (clk 0) t; previous = ss_active s;
            (r, s1) = (case tagCtx of
                None \<Rightarrow> (Inr (ss_active s), s)
              | Some c \<Rightarrow>
                 (case activateContextImpl D (clk 1) c s of
                    (Inl e, s') \<Rightarrow> (Inl e, s')
                  | (Inr best, s') \<Rightarrow> (Inr (value_or best (ss_active s')), s'\<lparr>ss_tagged := tagged_by_activation s s'\<rparr>)))
        in case r of
             Inl e \<Rightarrow> (Some e, s1)
           | Inr ctx \<Rightarrow>
              (let ctxChanged = (previous \<noteq> ctx);
                   (auto, s2) = auto_update_of D (clk 2) ctx s1;
                   s3 = s2\<lparr>ss_staged := control_staged (tag_map t) (ss_staged s2)\<rparr>;
                   (coupled, s4) = stage_coupled D (tag_map t) ctxChanged auto s3;
                   wasChanged = (has_control (tag_map t) \<or> coupled)
               in (None, if tagCtx = None \<and> \<not> wasChanged \<and> ss_staged s4 = [] then s4\<lparr>ss_changed := False\<rparr>
                         else if ctxChanged \<or> wasChanged then s4\<lparr>ss_changed := True\<rparr> else s4))))"

section \<open>Couplings\<close>

definition printable_key :: "string \<Rightarrow> bool" where
  "printable_key k \<longleftrightarrow> (\<forall>c \<in> set k. char_code c > 32 \<and> char_code c \<noteq> 127)"

definition kControlKeys :: "string list" where
  "kControlKeys = map gr_key [''end_of_stream'', ''reset_default'', ''store_default'', ''context'', ''ctx_time'']"

definition refuseTagKey :: "string \<Rightarrow> bool" where
  "refuseTagKey k \<longleftrightarrow> starts_with_colon k \<or> nameOf k = [] \<or> \<not> printable_key k \<or> k \<in> set kControlKeys"

text \<open>The table is ordered by setting.\<close>

definition coupling_put :: "string \<Rightarrow> string \<Rightarrow> (string \<times> string) list \<Rightarrow> (string \<times> string) list" where
  "coupling_put k v t =
     (if map_of t k \<noteq> None then AList.update k v t
      else takeWhile (\<lambda>e. string_order (fst e) k = Less) t @ (k, v) # dropWhile (\<lambda>e. string_order (fst e) k = Less) t)"

fun couple_all :: "'b descriptor \<Rightarrow> property_map \<Rightarrow> (string \<times> string) list \<times> string set \<Rightarrow>
    settings_error + ((string \<times> string) list \<times> string set)" where
  "couple_all D [] acc = Inr acc"
| "couple_all D ((setting, key) # cs) (table, following) =
     (if writableByName D setting = None then Inl (BadCoupling setting)
      else if \<not> is_string key then Inl (BadCoupling setting)
      else (let spelled = string_or [] key
            in if spelled = [] then couple_all D cs (AList.delete setting table, following)
               else if refuseTagKey (canonicalKey spelled) then Inl (BadCoupling setting)
               else couple_all D cs (coupling_put setting (canonicalKey spelled) table, insert setting following)))"

definition setTagCouplings :: "'b descriptor \<Rightarrow> property_map \<Rightarrow> 'b settings \<Rightarrow> settings_error option \<times> 'b settings" where
  "setTagCouplings D cs s =
     (case couple_all D cs (ss_couplings s, {}) of
        Inl e \<Rightarrow> (Some e, s)
      | Inr (table, following) \<Rightarrow>
          (None, s\<lparr>ss_couplings := table, ss_auto := (\<lambda>c. map_option (\<lambda>ks. ks \<union> following) (ss_auto s c))\<rparr>))"

definition tagCouplings :: "'b settings \<Rightarrow> property_map" where
  "tagCouplings s = map (\<lambda>(setting, key). (setting, VString key)) (ss_couplings s)"

section \<open>Resetting to the defaults\<close>

definition refused_defaults :: "'b descriptor \<Rightarrow> bool \<Rightarrow> string set \<Rightarrow> property_map \<Rightarrow> property_map" where
  "refused_defaults D otherContext auto defaults = [(k, v) \<leftarrow> defaults.
     (case writableByName D k of
        None \<Rightarrow> False
      | Some m \<Rightarrow> (case mb_limits m of None \<Rightarrow> False | Some refuses \<Rightarrow> (otherContext \<or> k \<notin> auto) \<and> refuses k v \<noteq> None))]"

definition all_follow :: "'b descriptor \<Rightarrow> settings_ctx \<Rightarrow> 'b settings \<Rightarrow> 'b settings" where
  "all_follow D ctx s =
     s\<lparr>ss_autoBefore := Some (ss_auto s),
       ss_auto := (\<lambda>c. if c = ctx \<or> ss_auto s c \<noteq> None then Some (writableMembers D) else None)\<rparr>"

definition stageDefaultsImpl :: "'b descriptor \<Rightarrow> (nat \<Rightarrow> usize) \<Rightarrow> 'b settings \<Rightarrow> (settings_error + property_map) \<times> 'b settings" where
  "stageDefaultsImpl D clk s =
     (let ctx = no_context\<lparr>cx_time := clk 0\<rparr>;
          refused = refused_defaults D (cx_context (ss_active s) \<noteq> VString []) (value_or (best_auto s ctx) (writableMembers D)) (ss_defaults s)
      in if refused \<noteq> [] then (Inr refused, s)
         else (let (st, au) = addStoredParameters (ss_pred s) (writableMembers D) (ss_defaults s) ctx (ss_stored s, ss_auto s);
                   (r, s1) = activateContextImpl D (clk 1) no_context (s\<lparr>ss_stored := st, ss_auto := au\<rparr>)
               in case r of
                    Inl e \<Rightarrow> (Inl e, s1)
                  | Inr _ \<Rightarrow> (Inr [], all_follow D ctx s1)))"

section \<open>Applying the staged values\<close>

text \<open>
  The members written in turn: the block with the values that were applied, those for the callback and those a member
  rejected.
\<close>

fun apply_members :: "'b descriptor \<Rightarrow> bool \<Rightarrow> property_map \<Rightarrow> 'b \<times> property_map \<times> property_map \<times> property_map \<Rightarrow>
    'b \<times> property_map \<times> property_map \<times> property_map" where
  "apply_members D hasCallback [] acc = acc"
| "apply_members D hasCallback ((k, v) # ps) (b, applied, staged, failed) =
     (case writableByName D k of
        None \<Rightarrow> apply_members D hasCallback ps (b, applied, staged, failed)
      | Some m \<Rightarrow>
          (case mb_apply m k v b of
             None \<Rightarrow> apply_members D hasCallback ps (b, applied, staged, AList.update k v failed)
           | Some b' \<Rightarrow> apply_members D hasCallback ps
               (b', AList.update k v applied, if hasCallback then AList.update k v staged else staged, failed)))"

definition same_as :: "property_map \<Rightarrow> string \<times> pmt \<Rightarrow> bool" where
  "same_as old e \<longleftrightarrow> (case map_of old (fst e) of None \<Rightarrow> False | Some w \<Rightarrow> pmt_eq w (snd e))"

text \<open>The stored set of the batch, if it takes part in a restore.\<close>

definition in_batch_set :: "settings_ctx \<Rightarrow> bool \<Rightarrow> 'b settings \<Rightarrow> bool" where
  "in_batch_set batchCtx contextActivated s \<longleftrightarrow>
     \<not> contextActivated \<and> batchCtx \<in> fst ` set (stored_at (cx_context batchCtx) (ss_stored s))"

fun put_first :: "settings_ctx \<Rightarrow> (property_map \<Rightarrow> property_map) \<Rightarrow> ctx_pair list \<Rightarrow> ctx_pair list" where
  "put_first c f [] = []"
| "put_first c f ((d, m) # vec) = (if d = c then (d, f m) # vec else (d, m) # put_first c f vec)"

definition restore_one :: "'b descriptor \<Rightarrow> property_map \<Rightarrow> settings_ctx \<Rightarrow> bool \<Rightarrow> string \<times> pmt \<Rightarrow> 'b settings \<Rightarrow> 'b settings" where
  "restore_one D old batchCtx stored = (\<lambda>(k, refusedValue) s.
     (case (writableByName D k, map_of old k) of
        (Some m, Some previous) \<Rightarrow>
          (case mb_apply m k previous (ss_block s) of
             None \<Rightarrow> s
           | Some b \<Rightarrow>
              (let s1 = s\<lparr>ss_block := b\<rparr>
               in if stored then
                    s1\<lparr>ss_stored := stored_put (cx_context batchCtx)
                      (put_first batchCtx (\<lambda>m. case map_of m k of
                           None \<Rightarrow> m
                         | Some v \<Rightarrow> if pmt_eq v refusedValue then AList.update k previous m else m)
                        (stored_at (cx_context batchCtx) (ss_stored s))) (ss_stored s)\<rparr>
                  else s1))
      | _ \<Rightarrow> s))"

definition restoreRefusedImpl :: "'b descriptor \<Rightarrow> property_map \<Rightarrow> property_map \<Rightarrow> settings_ctx \<Rightarrow> bool \<Rightarrow> 'b settings \<Rightarrow> 'b settings" where
  "restoreRefusedImpl D refused old batchCtx contextActivated s =
     fold (restore_one D old batchCtx (in_batch_set batchCtx contextActivated s)) refused s"

definition restoreContextImpl :: "usize \<Rightarrow> settings_ctx \<Rightarrow> settings_ctx \<Rightarrow> 'b settings \<Rightarrow> 'b settings" where
  "restoreContextImpl now earlier refused s =
     (let restored = (if map_of (ss_stored s) (cx_context earlier) \<noteq> None then Some earlier
                      else findCurrentDefaultCtx (ss_pred s) now (ss_stored s));
          s1 = (case restored of Some r \<Rightarrow> if ss_active s = refused then s\<lparr>ss_active := r\<rparr> else s | None \<Rightarrow> s)
      in if ss_contextBefore s1 = Some refused then s1\<lparr>ss_contextBefore := restored\<rparr> else s1)"

definition restore_auto :: "auto_update option \<Rightarrow> 'b settings \<Rightarrow> 'b settings" where
  "restore_auto before s = (case before of
       None \<Rightarrow> s
     | Some au \<Rightarrow> s\<lparr>ss_auto := (\<lambda>c. if ss_auto s c \<noteq> None \<and> au c \<noteq> None then au c else ss_auto s c)\<rparr>)"

text \<open>What an apply knows of its batch once a requested reset has staged the defaults.\<close>

record batch =
  bt_values :: property_map
  bt_failed :: property_map
  bt_resetRefused :: bool
  bt_activated :: bool
  bt_before :: "settings_ctx option"
  bt_ctx :: settings_ctx
  bt_auto :: "auto_update option"

definition begin_batch :: "'b settings \<Rightarrow> batch" where
  "begin_batch s = \<lparr>bt_values = ss_staged s, bt_failed = [], bt_resetRefused = False, bt_activated = ss_contextActivated s,
     bt_before = ss_contextBefore s, bt_ctx = ss_active s, bt_auto = ss_autoBefore s\<rparr>"

definition taken :: "'b settings \<Rightarrow> 'b settings" where
  "taken s = s\<lparr>ss_contextActivated := False, ss_contextBefore := None, ss_autoBefore := None, ss_staged := [], ss_tagged := {}\<rparr>"

definition reset_key :: string where "reset_key = gr_key ''reset_default''"
definition store_key :: string where "store_key = gr_key ''store_default''"

definition reset_batch :: "'b descriptor \<Rightarrow> (nat \<Rightarrow> usize) \<Rightarrow> batch \<Rightarrow> 'b settings \<Rightarrow> (settings_error + batch) \<times> 'b settings" where
  "reset_batch D clk bt s =
     (if map_of (bt_values bt) reset_key = None then (Inr bt, s)
      else (case stageDefaultsImpl D clk s of
          (Inl e, s1) \<Rightarrow> (Inl e, s1)
        | (Inr failed, s1) \<Rightarrow>
            if failed \<noteq> [] then (Inr (bt\<lparr>bt_failed := failed, bt_resetRefused := True\<rparr>), s1)
            else (let (st, au) = removeExpiredStoredParameters (ss_expiry s1) (clk 2) (ss_stored s1, ss_auto s1)
                  in (Inr (bt\<lparr>bt_values := stage_all (bt_values bt) (ss_staged s1),
                              bt_activated := (ss_contextActivated s1 \<or> bt_activated bt),
                              bt_before := (if bt_before bt = None then ss_contextBefore s1 else bt_before bt),
                              bt_ctx := ss_active s1, bt_auto := ss_autoBefore s1\<rparr>),
                      s1\<lparr>ss_staged := [], ss_contextActivated := False, ss_contextBefore := None, ss_autoBefore := None,
                         ss_stored := st, ss_auto := au\<rparr>))))"

definition write_back :: "'b descriptor \<Rightarrow> usize \<Rightarrow> batch \<Rightarrow> property_map \<Rightarrow> property_map \<Rightarrow> 'b settings \<Rightarrow> 'b settings" where
  "write_back D now bt staged old s =
     (let s1 = restoreRefusedImpl D staged old (bt_ctx bt) (bt_activated bt) s;
          s2 = (case bt_before bt of None \<Rightarrow> s1 | Some earlier \<Rightarrow> restoreContextImpl now earlier (bt_ctx bt) s1)
      in updateActiveParametersImpl D (restore_auto (bt_auto bt) s2))"

definition split_failed :: "string set \<Rightarrow> property_map \<Rightarrow> property_map \<times> property_map" where
  "split_failed tagged failed = ([e \<leftarrow> failed. fst e \<in> tagged], [e \<leftarrow> failed. fst e \<notin> tagged])"

definition remove_keys :: "property_map \<Rightarrow> property_map \<Rightarrow> property_map" where
  "remove_keys ks m = [e \<leftarrow> m. fst e \<notin> fst ` set ks]"

text \<open>The end of an apply: the result, the defaults a tag asked to store and the block's own reset.\<close>

definition finish_apply :: "'b descriptor \<Rightarrow> 'b hooks \<Rightarrow> batch \<Rightarrow> property_map \<Rightarrow> string set \<Rightarrow> property_map \<Rightarrow> property_map \<Rightarrow> property_map \<Rightarrow>
    (property_map \<times> string) option \<Rightarrow> 'b settings \<Rightarrow> (settings_error + apply_result) \<times> 'b settings" where
  "finish_apply D H bt batch0 tagged forward applied failed refusal s =
     (let s1 = updateActiveParametersImpl D s;
          (tf, uf) = split_failed tagged failed;
          result = \<lparr>ar_forward = forward, ar_applied = applied,
                    ar_failed = (case refusal of None \<Rightarrow> failed | Some (m, _) \<Rightarrow> insert_missing m failed),
                    ar_tagRefusal = tf, ar_untaggedRefusal = uf, ar_callbackRefusal = refusal\<rparr>;
          s2 = (if map_of batch0 store_key \<noteq> None then storeDefaults D s1 else s1);
          s3 = (case hk_reset H of
                  Some reset \<Rightarrow> if map_of batch0 reset_key \<noteq> None \<and> \<not> bt_resetRefused bt then reset s2 else s2
                | None \<Rightarrow> s2)
      in (Inr result, s3\<lparr>ss_changed := (ss_staged s3 \<noteq> [])\<rparr>))"

definition call_back :: "'b descriptor \<Rightarrow> 'b hooks \<Rightarrow> usize \<Rightarrow> batch \<Rightarrow> property_map \<Rightarrow> string set \<Rightarrow> property_map \<Rightarrow> property_map \<Rightarrow>
    property_map \<Rightarrow> property_map \<Rightarrow> 'b settings \<Rightarrow> (settings_error + apply_result) \<times> 'b settings" where
  "call_back D H now bt batch0 tagged old staged applied failed s =
     (case (if staged = [] then None else hk_changed H) of
        None \<Rightarrow> finish_apply D H bt batch0 tagged [] applied failed None s
      | Some callback \<Rightarrow>
         (case callback old staged s of
            (None, forward, s1) \<Rightarrow> finish_apply D H bt batch0 tagged forward applied failed None s1
          | (Some msg, _, s1) \<Rightarrow>
              (let s2 = write_back D now bt staged old s1
               in if fst ` set staged \<subseteq> tagged
                  then finish_apply D H bt batch0 tagged [] (remove_keys staged applied) failed (Some (staged, msg)) s2
                  else (Inl (CallbackThrew msg), s2))))"

definition applyStagedParametersImpl :: "'b descriptor \<Rightarrow> 'b hooks \<Rightarrow> (nat \<Rightarrow> usize) \<Rightarrow> 'b settings \<Rightarrow>
    (settings_error + apply_result) \<times> 'b settings" where
  "applyStagedParametersImpl D H clk s =
     (if \<not> ds_reflectable D then
        (Inr \<lparr>ar_forward = [], ar_applied = [], ar_failed = [], ar_tagRefusal = [], ar_untaggedRefusal = [], ar_callbackRefusal = None\<rparr>,
         s\<lparr>ss_contextActivated := False, ss_contextBefore := None, ss_autoBefore := None, ss_staged := [], ss_changed := False\<rparr>)
      else
       (let hasCallback = (hk_changed H \<noteq> None);
            old = (if hasCallback then storeCurrentParameters D (ss_block s) [] else []);
            batch0 = ss_staged s; tagged = ss_tagged s
        in case reset_batch D clk (begin_batch s) (taken s) of
             (Inl e, s1) \<Rightarrow> (Inl e, s1)
           | (Inr bt, s1) \<Rightarrow>
              (let (b, applied, staged, failed) = apply_members D hasCallback (bt_values bt) (ss_block s1, [], [], bt_failed bt);
                   moved = [e \<leftarrow> staged. \<not> same_as old e];
                   named = (if bt_activated bt \<and> hasCallback then AList.update kContextField (cx_context (ss_active s1)) moved else moved);
                   s2 = updateActiveParametersImpl D (s1\<lparr>ss_block := b\<rparr>)
               in call_back D H (clk 3) bt batch0 tagged old named applied failed s2)))"

definition resetDefaults :: "'b descriptor \<Rightarrow> 'b hooks \<Rightarrow> (nat \<Rightarrow> usize) \<Rightarrow> 'b settings \<Rightarrow> settings_error option \<times> 'b settings" where
  "resetDefaults D H clk s =
     (case stageDefaultsImpl D clk s of
        (Inl e, s1) \<Rightarrow> (Some e, s1)
      | (Inr refused, s1) \<Rightarrow>
          if refused \<noteq> [] then (Some (NotSet refused), s1)
          else (case applyStagedParametersImpl D H (\<lambda>i. clk (i + 2)) (s1\<lparr>ss_staged := AList.delete reset_key (ss_staged s1)\<rparr>) of
              (Inl e, s2) \<Rightarrow> (Some e, s2)
            | (Inr result, s2) \<Rightarrow>
                (let (st, au) = removeExpiredStoredParameters (ss_expiry s2) (clk 6) (ss_stored s2, ss_auto s2);
                     s3 = s2\<lparr>ss_stored := st, ss_auto := au\<rparr>;
                     s4 = (case hk_reset H of Some reset \<Rightarrow> reset s3 | None \<Rightarrow> s3)
                 in (if ar_failed result \<noteq> [] then Some (NotSet (ar_failed result)) else None, s4))))"

section \<open>Initialisation and loading\<close>

definition settings_init :: "'b descriptor \<Rightarrow> (nat \<Rightarrow> usize) \<Rightarrow> 'b settings \<Rightarrow> settings_error option \<times> 'b settings" where
  "settings_init D clk s0 =
     (let s = storeDefaults D s0;
          following = value_or (best_auto s (no_context\<lparr>cx_time := clk 0\<rparr>)) (writableMembers D);
          keep = {c \<in> fst ` set (ss_couplings s). map_of (ss_init s) c \<noteq> None \<and> c \<in> following}
      in case setImpl D (\<lambda>i. clk (i + 1)) (ss_init s) no_context s of
           (Inl e, s1) \<Rightarrow> (Some e, s1)
         | (Inr notSet, s1) \<Rightarrow>
             if notSet \<noteq> [] then (Some (NotSet notSet), s1)
             else (case activateContextImpl D (clk 3) no_context s1 of
                 (Inl e, s2) \<Rightarrow> (Some e, s2)
               | (Inr None, s2) \<Rightarrow> (Some NoContext, s2)
               | (Inr (Some _), s2) \<Rightarrow>
                   (None, if keep = {} then s2
                      else (case best_ctx s2 (no_context\<lparr>cx_time := clk 4\<rparr>) of
                          None \<Rightarrow> s2
                        | Some c \<Rightarrow> s2\<lparr>ss_auto := (ss_auto s2)(c := map_option (\<lambda>ks. ks \<union> keep) (ss_auto s2 c))\<rparr>))))"

definition loadParametersFromPropertyMap :: "'b descriptor \<Rightarrow> (nat \<Rightarrow> usize) \<Rightarrow> property_map \<Rightarrow> settings_ctx \<Rightarrow> 'b settings \<Rightarrow>
    settings_error option \<times> 'b settings" where
  "loadParametersFromPropertyMap D clk params ctx s =
     (let new = [e \<leftarrow> params. writableByName D (fst e) \<noteq> None];
          meta = (if string_or [] (cx_context ctx) = [] then [e \<leftarrow> params. writableByName D (fst e) = None] else []);
          s1 = (case ds_meta D of
                  None \<Rightarrow> s
                | Some h \<Rightarrow> s\<lparr>ss_block := mt_write h (stage_all meta (mt_read h (ss_block s))) (ss_block s)\<rparr>)
      in case setImpl D clk new ctx s1 of
           (Inl e, s2) \<Rightarrow> (Some e, s2)
         | (Inr failed, s2) \<Rightarrow> (if failed \<noteq> [] then Some (NotSet failed) else None, s2))"

section \<open>What the apply path relies on\<close>

text \<open>
  The contract of a descriptor's members: \<open>accepts n v\<close> is the value the member \<open>n\<close> takes from \<open>v\<close>, if it takes one,
  \<open>held n b\<close> the value the block \<open>b\<close> holds in it, and \<open>ok b\<close> says that every member holds a value of its type.
\<close>

locale block_members =
  fixes D :: "'b descriptor" and ok :: "'b \<Rightarrow> bool" and accepts :: "string \<Rightarrow> pmt \<Rightarrow> pmt option" and held :: "string \<Rightarrow> 'b \<Rightarrow> pmt"
  assumes reflectable: "ds_reflectable D"
    and names: "distinct (map mb_name (ds_members D))"
    and readable: "m \<in> set (ds_members D) \<Longrightarrow> mb_set m \<noteq> None \<Longrightarrow> mb_read m \<noteq> None"
    and reads: "m \<in> set (ds_members D) \<Longrightarrow> mb_read m = Some r \<Longrightarrow> r b = held (mb_name m) b"
    and rejects: "m \<in> set (ds_members D) \<Longrightarrow> mb_set m \<noteq> None \<Longrightarrow> accepts (mb_name m) v = None \<Longrightarrow> mb_apply m k v b = None"
    and writes: "m \<in> set (ds_members D) \<Longrightarrow> mb_set m \<noteq> None \<Longrightarrow> accepts (mb_name m) v = Some w \<Longrightarrow>
      \<exists>b'. mb_apply m k v b = Some b' \<and> held (mb_name m) b' = w \<and> (\<forall>n. n \<noteq> mb_name m \<longrightarrow> held n b' = held n b) \<and> (ok b \<longrightarrow> ok b')"
    and keeps: "m \<in> set (ds_members D) \<Longrightarrow> mb_set m \<noteq> None \<Longrightarrow> ok b \<Longrightarrow> pmt_eq (held (mb_name m) b) v \<or> held (mb_name m) b = v \<Longrightarrow>
      accepts (mb_name m) v = None \<or> accepts (mb_name m) v = Some v"
begin

definition takes :: "string \<Rightarrow> pmt \<Rightarrow> pmt option" where
  "takes n v = (if writableByName D n = None then None else accepts n v)"

lemma member_named: "writableByName D n = Some m \<Longrightarrow> m \<in> set (ds_members D) \<and> mb_name m = n \<and> mb_set m \<noteq> None"
  by (auto simp: writableByName_def find_Some_iff)

lemma same_member: "m \<in> set (ds_members D) \<Longrightarrow> m' \<in> set (ds_members D) \<Longrightarrow> mb_name m = mb_name m' \<Longrightarrow> m = m'"
  using names by (metis inj_on_contraD distinct_map)

lemma apply_one:
  assumes "writableByName D n = Some m"
  shows "mb_apply m k v b = None \<longleftrightarrow> takes n v = None"
    "mb_apply m k v b = Some b' \<Longrightarrow> takes n v = Some (held n b') \<and> (\<forall>i. i \<noteq> n \<longrightarrow> held i b' = held i b) \<and> (ok b \<longrightarrow> ok b')"
proof -
  note m = member_named [OF assms]
  show "mb_apply m k v b = None \<longleftrightarrow> takes n v = None"
    using rejects [of m v k b] writes [of m v _ k b] m assms by (cases "accepts n v") (auto simp: takes_def)
  show "takes n v = Some (held n b') \<and> (\<forall>i. i \<noteq> n \<longrightarrow> held i b' = held i b) \<and> (ok b \<longrightarrow> ok b')" if a: "mb_apply m k v b = Some b'"
  proof (cases "accepts n v")
    case None
    then show ?thesis using rejects [of m v k b] m a by simp
  next
    case (Some w)
    then show ?thesis using writes [of m v w k b] m a assms by (auto simp: takes_def)
  qed
qed

end

lemma fold_update_miss: "k \<notin> f ` set xs \<Longrightarrow> map_of (fold (\<lambda>x. AList.update (f x) (g x)) xs m) k = map_of m k"
  by (induction xs arbitrary: m) (auto simp: update_conv')

lemma fold_update_hit:
  "distinct (map f xs) \<Longrightarrow> x \<in> set xs \<Longrightarrow> map_of (fold (\<lambda>x. AList.update (f x) (g x)) xs m) (f x) = Some (g x)"
proof (induction xs arbitrary: m)
  case (Cons y xs)
  show ?case
  proof (cases "x = y")
    case True
    then show ?thesis using Cons.prems(1) fold_update_miss [of "f x" f xs g] by (simp add: update_conv')
  next
    case False
    then show ?thesis using Cons by simp
  qed
qed simp

context block_members begin

text \<open>The map of the active parameters, and the one an apply compares with, hold the values of the members.\<close>

lemma read_members_value:
  assumes "m \<in> set (ds_members D)" "mb_read m \<noteq> None"
  shows "map_of (read_members D b p) (mb_name m) = Some (held (mb_name m) b)"
proof -
  have "distinct (map mb_name (readable_members D))" using names by (simp add: readable_members_def distinct_map_filter)
  moreover have "m \<in> set (readable_members D)" using assms by (simp add: readable_members_def)
  ultimately show ?thesis
    using fold_update_hit [of mb_name "readable_members D" m "\<lambda>x. the (mb_read x) b" p] reads [OF assms(1)] assms(2)
    by (auto simp: read_members_def)
qed

lemma read_writable: "writableByName D n \<noteq> None \<Longrightarrow> map_of (read_members D b p) n = Some (held n b)"
  using read_members_value member_named readable by fastforce

lemma apply_members_spec:
  assumes "apply_members D hc ps (b, ap, st, fa) = (b', ap', st', fa')" "distinct (map fst ps)"
  shows "held n b' = (case map_of ps n of None \<Rightarrow> held n b | Some v \<Rightarrow> (case takes n v of None \<Rightarrow> held n b | Some w \<Rightarrow> w)) \<and>
    map_of ap' n = (case map_of ps n of None \<Rightarrow> map_of ap n | Some v \<Rightarrow> if takes n v = None then map_of ap n else Some v) \<and>
    map_of st' n = (case map_of ps n of None \<Rightarrow> map_of st n | Some v \<Rightarrow> if takes n v = None \<or> \<not> hc then map_of st n else Some v) \<and>
    map_of fa' n = (case map_of ps n of None \<Rightarrow> map_of fa n
      | Some v \<Rightarrow> if writableByName D n \<noteq> None \<and> takes n v = None then Some v else map_of fa n) \<and>
    (ok b \<longrightarrow> ok b') \<and> (distinct (map fst st) \<longrightarrow> distinct (map fst st'))"
  using assms
proof (induction ps arbitrary: b ap st fa)
  case (Cons p ps)
  obtain k v where p: "p = (k, v)" by (cases p)
  have d: "distinct (map fst ps)" "map_of ps k = None" using Cons.prems(2) p by (auto simp: map_of_eq_None_iff)
  show ?case
  proof (cases "writableByName D k")
    case None
    then have "apply_members D hc ps (b, ap, st, fa) = (b', ap', st', fa')" using Cons.prems(1) p by simp
    from Cons.IH [OF this d(1)] show ?thesis using None d(2) p by (cases "n = k") (simp_all add: takes_def)
  next
    case (Some m)
    show ?thesis
    proof (cases "mb_apply m k v b")
      case None
      then have "apply_members D hc ps (b, ap, st, AList.update k v fa) = (b', ap', st', fa')" using Cons.prems(1) p Some by simp
      from Cons.IH [OF this d(1)] show ?thesis using None Some d(2) p apply_one(1) [OF Some, of k v b] by (cases "n = k"; cases "map_of ps n") (simp_all add: update_conv')
    next
      case (Some c)
      then have "apply_members D hc ps (c, AList.update k v ap, if hc then AList.update k v st else st, fa) = (b', ap', st', fa')"
        using Cons.prems(1) p \<open>writableByName D k = Some m\<close> by simp
      from Cons.IH [OF this d(1)] show ?thesis
        using Some d(2) p apply_one(2) [OF \<open>writableByName D k = Some m\<close> Some]
        by (cases "n = k"; cases "map_of ps n"; cases "takes n (the (map_of ps n))") (simp_all add: update_conv' distinct_update)
    qed
  qed
qed simp

text \<open>What the writing back of a refused batch does to the members and leaves of the settings.\<close>

lemma restore_one_spec:
  assumes "s' = restore_one D old ctx flag (k, v) s" "flag \<longrightarrow> map_of (ss_stored s) (cx_context ctx) \<noteq> None"
  shows "held n (ss_block s') = (if n = k then (case map_of old k of None \<Rightarrow> held n (ss_block s) | Some p \<Rightarrow> value_or (takes k p) (held n (ss_block s)))
      else held n (ss_block s)) \<and>
    (ok (ss_block s) \<longrightarrow> ok (ss_block s')) \<and> ss_active s' = ss_active s \<and> ss_contextBefore s' = ss_contextBefore s \<and>
    ss_staged s' = ss_staged s \<and> (\<forall>c. map_of (ss_stored s') c = None \<longleftrightarrow> map_of (ss_stored s) c = None)"
proof (cases "writableByName D k")
  case None
  then show ?thesis using assms by (cases "map_of old k") (simp_all add: restore_one_def takes_def value_or_def)
next
  case (Some m)
  show ?thesis
  proof (cases "map_of old k")
    case None
    then show ?thesis using assms Some by (simp add: restore_one_def)
  next
    fix p assume p: "map_of old k = Some p"
    show ?thesis
    proof (cases "mb_apply m k p (ss_block s)")
      case None
      then show ?thesis using assms Some p apply_one(1) [OF Some, of k p "ss_block s"] by (simp add: restore_one_def value_or_def)
    next
      fix b assume b: "mb_apply m k p (ss_block s) = Some b"
      then show ?thesis using assms Some p apply_one(2) [OF Some b]
        by (cases flag) (simp_all add: restore_one_def value_or_def map_of_stored_put)
    qed
  qed
qed

lemma restore_fold_spec:
  assumes "flag \<longrightarrow> map_of (ss_stored s) (cx_context ctx) \<noteq> None" "distinct (map fst refused)"
  shows "let s' = fold (restore_one D old ctx flag) refused s in
    held n (ss_block s') = (if n \<in> fst ` set refused then (case map_of old n of None \<Rightarrow> held n (ss_block s) | Some p \<Rightarrow> value_or (takes n p) (held n (ss_block s)))
      else held n (ss_block s)) \<and>
    (ok (ss_block s) \<longrightarrow> ok (ss_block s')) \<and> ss_active s' = ss_active s \<and> ss_contextBefore s' = ss_contextBefore s \<and>
    ss_staged s' = ss_staged s \<and> (\<forall>c. map_of (ss_stored s') c = None \<longleftrightarrow> map_of (ss_stored s) c = None)"
  using assms
proof (induction refused arbitrary: s)
  case (Cons e es)
  obtain k v where e: "e = (k, v)" by (cases e)
  define t where "t = restore_one D old ctx flag (k, v) s"
  note one = restore_one_spec [OF t_def Cons.prems(1)]
  have "flag \<longrightarrow> map_of (ss_stored t) (cx_context ctx) \<noteq> None" "distinct (map fst es)" using one Cons.prems by auto
  from Cons.IH [OF this] show ?case
    using one [of n] Cons.prems(2) e
    by (cases "n = k"; cases "map_of old n"; cases "n \<in> fst ` set es") (simp_all add: Let_def t_def [symmetric])
qed (simp add: Let_def)

end

section \<open>Applying a batch\<close>

lemma no_reset:
  assumes "map_of (ss_staged s) reset_key = None"
  shows "reset_batch D clk (begin_batch s) (taken s) = (Inr (begin_batch s), taken s)"
  using assms by (simp add: reset_batch_def begin_batch_def)

lemma finish_plain:
  assumes "map_of batch0 reset_key = None"
  shows "\<exists>r s'. finish_apply D H bt batch0 tagged forward applied failed refusal s = (Inr r, s') \<and> ar_applied r = applied \<and>
    ar_failed r = (case refusal of None \<Rightarrow> failed | Some (m, _) \<Rightarrow> insert_missing m failed) \<and> ar_callbackRefusal r = refusal \<and>
    ss_block s' = ss_block s \<and> ss_staged s' = ss_staged s \<and> ss_tagged s' = ss_tagged s \<and> ss_changed s' = (ss_staged s \<noteq> []) \<and>
    ss_active s' = ss_active s \<and> ss_stored s' = ss_stored s \<and> ss_auto s' = ss_auto s \<and> ss_contextActivated s' = ss_contextActivated s \<and>
    ss_activeParams s' = read_members D (ss_block s) (ss_activeParams s)"
  using assms
  by (cases "hk_reset H"; cases "map_of batch0 store_key")
     (simp_all add: finish_apply_def Let_def split_failed_def storeDefaults_def updateActiveParametersImpl_def)

lemma restoreContext_parts:
  "ss_block (restoreContextImpl now earlier refused s) = ss_block s \<and> ss_stored (restoreContextImpl now earlier refused s) = ss_stored s \<and>
   (map_of (ss_stored s) (cx_context earlier) \<noteq> None \<longrightarrow> ss_active s = refused \<longrightarrow> ss_active (restoreContextImpl now earlier refused s) = earlier)"
  by (auto simp: restoreContextImpl_def Let_def split: option.splits)

lemma restore_auto_parts: "ss_block (restore_auto au s) = ss_block s" "ss_active (restore_auto au s) = ss_active s"
  by (simp_all add: restore_auto_def split: option.split)

lemma write_back_parts:
  "ss_block (write_back D now bt staged old s) = ss_block (restoreRefusedImpl D staged old (bt_ctx bt) (bt_activated bt) s)"
  by (cases "bt_before bt") (simp_all add: write_back_def Let_def updateActiveParametersImpl_def restore_auto_parts restoreContext_parts)

context block_members begin

lemma apply_unfolded:
  fixes H :: "'b hooks"
  assumes "map_of (ss_staged s) reset_key = None"
    and hc: "hc = (hk_changed H \<noteq> None)"
  obtains b ap st fa named where
    "apply_members D hc (ss_staged s) (ss_block s, [], [], []) = (b, ap, st, fa)"
    "named = (let moved = [e \<leftarrow> st. \<not> same_as (if hc then read_members D (ss_block s) [] else []) e]
      in if ss_contextActivated s \<and> hc then AList.update kContextField (cx_context (ss_active s)) moved else moved)"
    "applyStagedParametersImpl D H clk s =
       call_back D H (clk 3) (begin_batch s) (ss_staged s) (ss_tagged s) (if hc then read_members D (ss_block s) [] else []) named ap fa
         (updateActiveParametersImpl D ((taken s)\<lparr>ss_block := b\<rparr>))"
proof -
  obtain b ap st fa where a: "apply_members D hc (ss_staged s) (ss_block s, [], [], []) = (b, ap, st, fa)" by (metis prod_cases4)
  have t: "ss_block (taken s) = ss_block s" "ss_active (taken s) = ss_active s" by (simp_all add: taken_def)
  have bt: "bt_values (begin_batch s) = ss_staged s" "bt_failed (begin_batch s) = []" "bt_activated (begin_batch s) = ss_contextActivated s"
    by (simp_all add: begin_batch_def)
  show ?thesis
  proof (rule that [OF a refl])
    show "applyStagedParametersImpl D H clk s =
       call_back D H (clk 3) (begin_batch s) (ss_staged s) (ss_tagged s) (if hc then read_members D (ss_block s) [] else [])
         (let moved = [e \<leftarrow> st. \<not> same_as (if hc then read_members D (ss_block s) [] else []) e]
          in if ss_contextActivated s \<and> hc then AList.update kContextField (cx_context (ss_active s)) moved else moved) ap fa
         (updateActiveParametersImpl D ((taken s)\<lparr>ss_block := b\<rparr>))"
      using a hc by (cases "hk_changed H") (simp_all add: applyStagedParametersImpl_def reflectable Let_def no_reset [OF assms(1)] bt t storeCurrentParameters_def)
  qed
qed

end

lemma map_of_remove_keys: "map_of (remove_keys ks m) n = (if n \<in> fst ` set ks then None else map_of m n)"
proof (induction m)
  case (Cons e m)
  then show ?case by (cases "fst e = n") (simp_all add: remove_keys_def)
qed (simp add: remove_keys_def)

context block_members begin

lemma taken_simps: "ss_block (taken s) = ss_block s" "ss_active (taken s) = ss_active s" "ss_staged (taken s) = []" "ss_tagged (taken s) = {}"
    "ss_stored (taken s) = ss_stored s" "ss_contextActivated (taken s) = False" "ss_contextBefore (taken s) = None"
    "ss_activeParams (taken s) = ss_activeParams s"
  by (simp_all add: taken_def)

text \<open>A batch without a reset whose callback, if any, takes it.\<close>

lemma apply_settles:
  fixes H :: "'b hooks"
  assumes plain: "map_of (ss_staged s) reset_key = None" and dist: "distinct (map fst (ss_staged s))"
    and quiet: "\<forall>callback. hk_changed H = Some callback \<longrightarrow> (\<forall>old new t. fst (callback old new t) = None \<and> snd (snd (callback old new t)) = t)"
  shows "\<exists>r s'. applyStagedParametersImpl D H clk s = (Inr r, s') \<and> ss_staged s' = [] \<and> ss_tagged s' = {} \<and> \<not> ss_changed s' \<and>
      \<not> ss_contextActivated s' \<and> ss_active s' = ss_active s \<and> ss_stored s' = ss_stored s \<and> (ok (ss_block s) \<longrightarrow> ok (ss_block s')) \<and>
      (\<forall>n. held n (ss_block s') = (case map_of (ss_staged s) n of None \<Rightarrow> held n (ss_block s) | Some v \<Rightarrow> value_or (takes n v) (held n (ss_block s)))) \<and>
      (\<forall>n. map_of (ar_applied r) n = (case map_of (ss_staged s) n of None \<Rightarrow> None | Some v \<Rightarrow> if takes n v = None then None else Some v)) \<and>
      (\<forall>n. map_of (ar_failed r) n = (case map_of (ss_staged s) n of None \<Rightarrow> None
         | Some v \<Rightarrow> if writableByName D n \<noteq> None \<and> takes n v = None then Some v else None)) \<and>
      (\<forall>n. writableByName D n \<noteq> None \<longrightarrow> map_of (ss_activeParams s') n = Some (held n (ss_block s')))"
proof -
  define hc where "hc = (hk_changed H \<noteq> None)"
  obtain b ap st fa named where a: "apply_members D hc (ss_staged s) (ss_block s, [], [], []) = (b, ap, st, fa)"
    and eq: "applyStagedParametersImpl D H clk s =
       call_back D H (clk 3) (begin_batch s) (ss_staged s) (ss_tagged s) (if hc then read_members D (ss_block s) [] else []) named ap fa
         (updateActiveParametersImpl D ((taken s)\<lparr>ss_block := b\<rparr>))"
    by (rule apply_unfolded [OF plain hc_def])
  let ?t = "updateActiveParametersImpl D ((taken s)\<lparr>ss_block := b\<rparr>)"
  obtain forward where "applyStagedParametersImpl D H clk s = finish_apply D H (begin_batch s) (ss_staged s) (ss_tagged s) forward ap fa None ?t"
  proof (cases "if named = [] then None else hk_changed H")
    case None
    then show ?thesis using eq that by (simp add: call_back_def)
  next
    case (Some callback)
    define o' where "o' = (if hc then read_members D (ss_block s) [] else [])"
    have "hk_changed H = Some callback" using Some by (simp split: if_splits)
    with quiet have "fst (callback o' named ?t) = None \<and> snd (snd (callback o' named ?t)) = ?t" by blast
    then obtain fw where "callback o' named ?t = (None, fw, ?t)" by (metis prod.collapse)
    then show ?thesis using eq that Some by (simp add: call_back_def o'_def [symmetric])
  qed
  with finish_plain [OF plain, of D H "begin_batch s" "ss_tagged s" forward ap fa None ?t]
  obtain r s' where r: "applyStagedParametersImpl D H clk s = (Inr r, s')" "ar_applied r = ap" "ar_failed r = fa" "ss_block s' = b"
    "ss_staged s' = []" "ss_tagged s' = {}" "\<not> ss_changed s'" "ss_active s' = ss_active s" "ss_stored s' = ss_stored s" "\<not> ss_contextActivated s'"
    "ss_activeParams s' = read_members D b (ss_activeParams ?t)"
    by (auto simp: updateActiveParametersImpl_def taken_simps)
  note spec = apply_members_spec [OF a dist]
  have h: "held n b = (case map_of (ss_staged s) n of None \<Rightarrow> held n (ss_block s) | Some v \<Rightarrow> value_or (takes n v) (held n (ss_block s)))" for n
    using spec [of n] by (simp add: value_or_def split: option.splits)
  have f: "map_of fa n = (case map_of (ss_staged s) n of None \<Rightarrow> None
         | Some v \<Rightarrow> if writableByName D n \<noteq> None \<and> takes n v = None then Some v else None)" for n
    using spec [of n] by (cases "map_of (ss_staged s) n") simp_all
  have p: "map_of ap n = (case map_of (ss_staged s) n of None \<Rightarrow> None | Some v \<Rightarrow> if takes n v = None then None else Some v)" for n
    using spec [of n] by (cases "map_of (ss_staged s) n") simp_all
  have o: "ok (ss_block s) \<longrightarrow> ok b" using spec by blast
  show ?thesis
    using r h f p o read_writable by (intro exI conjI allI impI) (rule r(1), simp_all)
qed

lemma named_distinct: "distinct (map fst st) \<Longrightarrow> distinct (map fst (if c then AList.update k v [e \<leftarrow> st. Q e] else [e \<leftarrow> st. Q e]))"
  by (simp add: distinct_update distinct_map_filter)

lemma same_as_old: "writableByName D n \<noteq> None \<Longrightarrow> same_as (read_members D b []) (n, v) \<longleftrightarrow> pmt_eq (held n b) v"
  by (simp add: same_as_def read_writable)

text \<open>
  A batch without a reset that the callback refuses. The callback may change the settings, but not the members, the
  active context, the contexts that are stored and the one to return to.
\<close>

lemma apply_refused:
  fixes H :: "'b hooks"
  assumes plain: "map_of (ss_staged s) reset_key = None" and dist: "distinct (map fst (ss_staged s))" and ok: "ok (ss_block s)"
    and callback: "hk_changed H = Some callback"
    and throws: "\<forall>old new t. fst (callback old new t) = Some msg \<and> ss_block (snd (snd (callback old new t))) = ss_block t \<and>
      ss_active (snd (snd (callback old new t))) = ss_active t \<and> ss_stored (snd (snd (callback old new t))) = ss_stored t"
    and old: "\<forall>n. writableByName D n \<noteq> None \<longrightarrow> takes n (held n (ss_block s)) \<noteq> None"
    and run: "applyStagedParametersImpl D H clk s = (res, s')"
  shows "(\<forall>n. held n (ss_block s') = held n (ss_block s) \<or> pmt_eq (held n (ss_block s)) (held n (ss_block s'))) \<and>
    (\<forall>c. ss_contextActivated s \<longrightarrow> ss_contextBefore s = Some c \<longrightarrow> map_of (ss_stored s) (cx_context c) \<noteq> None \<longrightarrow> ss_active s' = c) \<and>
    (\<forall>e. res = Inl e \<longrightarrow> e = CallbackThrew msg) \<and>
    (\<forall>r n v. res = Inr r \<longrightarrow> map_of (ar_applied r) n = Some v \<longrightarrow> pmt_eq (held n (ss_block s)) v)"
proof -
  define hc where "hc = (hk_changed H \<noteq> None)"
  have hc: "hc" using callback by (simp add: hc_def)
  obtain b ap st fa named where a: "apply_members D hc (ss_staged s) (ss_block s, [], [], []) = (b, ap, st, fa)"
    and named: "named = (let moved = [e \<leftarrow> st. \<not> same_as (if hc then read_members D (ss_block s) [] else []) e]
      in if ss_contextActivated s \<and> hc then AList.update kContextField (cx_context (ss_active s)) moved else moved)"
    and eq: "applyStagedParametersImpl D H clk s =
       call_back D H (clk 3) (begin_batch s) (ss_staged s) (ss_tagged s) (if hc then read_members D (ss_block s) [] else []) named ap fa
         (updateActiveParametersImpl D ((taken s)\<lparr>ss_block := b\<rparr>))"
    by (rule apply_unfolded [OF plain hc_def])
  note eq = eq [unfolded if_P [OF hc]] and named = named [unfolded if_P [OF hc]]
  note result = apply_members_spec [OF a dist]
  let ?old = "read_members D (ss_block s) []" and ?t = "updateActiveParametersImpl D ((taken s)\<lparr>ss_block := b\<rparr>)"
  have took: "takes n v = Some v" if "takes n v \<noteq> None" "pmt_eq (held n (ss_block s)) v \<or> held n (ss_block s) = v" for n v
    using that keeps [of _ "ss_block s" v] member_named ok by (fastforce simp: takes_def split: if_splits)
  \<comment> \<open>a member the batch does not name holds an equal value already\<close>
  have quiet: "held n b = held n (ss_block s) \<or> pmt_eq (held n (ss_block s)) (held n b)" if "n \<notin> fst ` set named" for n
  proof (cases "map_of (ss_staged s) n")
    case None
    then show ?thesis using result [of n] by simp
  next
    case (Some v)
    show ?thesis
    proof (cases "takes n v")
      case None
      then show ?thesis using result [of n] Some by simp
    next
      fix w assume w: "takes n v = Some w"
      then have "(n, v) \<in> set st" "writableByName D n \<noteq> None" using result [of n] Some hc by (auto simp: takes_def dest: map_of_SomeD split: if_splits)
      then have "pmt_eq (held n (ss_block s)) v"
        using that same_as_old by (force simp: named hc Let_def dom_update split: if_splits)
      then show ?thesis using took [of n v] w Some result [of n] by simp
    qed
  qed
  have same: "pmt_eq (held n (ss_block s)) v" if "map_of ap n = Some v" "n \<notin> fst ` set named" for n v
  proof -
    have "takes n v \<noteq> None" "map_of st n = Some v" using that(1) result [of n] hc by (auto split: option.splits if_splits)
    then show ?thesis using that(2) same_as_old [of n "ss_block s" v]
      by (force simp: named hc Let_def dom_update takes_def dest: map_of_SomeD split: if_splits)
  qed
  show ?thesis
  proof (cases "named = []")
    case True
    then have "applyStagedParametersImpl D H clk s = finish_apply D H (begin_batch s) (ss_staged s) (ss_tagged s) [] ap fa None ?t"
      using eq by (simp add: call_back_def)
    with finish_plain [OF plain, of D H "begin_batch s" "ss_tagged s" "[]" ap fa None ?t] run
    have "\<exists>r. res = Inr r \<and> ar_applied r = ap \<and> ss_block s' = b" by (auto simp: updateActiveParametersImpl_def)
    moreover have "\<not> ss_contextActivated s" using True hc by (cases st) (auto simp: named Let_def)
    ultimately show ?thesis using quiet same True by auto
  next
    case False
    obtain fw s1 where cb: "callback ?old named ?t = (Some msg, fw, s1)" "ss_block s1 = b" "ss_active s1 = ss_active s" "ss_stored s1 = ss_stored s"
      using throws [THEN spec, THEN spec, THEN spec, of ?old named ?t] by (cases "callback ?old named ?t") (auto simp: updateActiveParametersImpl_def taken_simps)
    define s2 where "s2 = write_back D (clk 3) (begin_batch s) named ?old s1"
    have run': "applyStagedParametersImpl D H clk s = (if fst ` set named \<subseteq> ss_tagged s
        then finish_apply D H (begin_batch s) (ss_staged s) (ss_tagged s) [] (remove_keys named ap) fa (Some (named, msg)) s2
        else (Inl (CallbackThrew msg), s2))"
      using eq False callback cb(1) by (simp add: call_back_def s2_def Let_def)
    define flag where "flag = in_batch_set (ss_active s) (ss_contextActivated s) s1"
    have flag: "flag \<longrightarrow> map_of (ss_stored s1) (cx_context (ss_active s)) \<noteq> None"
      by (cases "map_of (ss_stored s1) (cx_context (ss_active s))") (simp_all add: flag_def in_batch_set_def stored_at_def)
    have "distinct (map fst named)" using result named_distinct [of st] hc by (simp add: named Let_def)
    note restored = restore_fold_spec [OF flag this, of ?old, unfolded Let_def]
    let ?r = "fold (restore_one D ?old (ss_active s) flag) named s1"
    have r: "restoreRefusedImpl D named ?old (bt_ctx (begin_batch s)) (bt_activated (begin_batch s)) s1 = ?r"
      by (simp add: restoreRefusedImpl_def begin_batch_def flag_def)
    have block: "held n (ss_block s2) = held n (ss_block s) \<or> pmt_eq (held n (ss_block s)) (held n (ss_block s2))" for n
    proof (cases "n \<in> fst ` set named \<and> writableByName D n \<noteq> None")
      case True
      then have "takes n (held n (ss_block s)) = Some (held n (ss_block s))" "map_of ?old n = Some (held n (ss_block s))"
        using old took read_writable by blast+
      then show ?thesis using True restored [of n] by (simp add: s2_def write_back_parts r value_or_def)
    next
      case False
      have "held n (ss_block s2) = held n b"
        using False restored [of n] by (cases "map_of ?old n") (auto simp: s2_def write_back_parts r value_or_def takes_def cb(2))
      moreover have "held n b = held n (ss_block s)" if "writableByName D n = None"
        using result [of n] that by (simp add: takes_def split: option.splits)
      ultimately show ?thesis using False quiet [of n] by auto
    qed
    have active: "ss_active s2 = c" if "ss_contextBefore s = Some c" "map_of (ss_stored s) (cx_context c) \<noteq> None" for c
    proof -
      have "ss_active ?r = ss_active s" using restored cb(3) by simp
      moreover have "map_of (ss_stored ?r) (cx_context c) \<noteq> None" using restored that(2) cb(4) by simp
      ultimately have "ss_active (restoreContextImpl (clk 3) c (ss_active s) ?r) = c"
        using restoreContext_parts [of "clk 3" c "ss_active s" ?r] by blast
      then show ?thesis using that(1) r
      by (simp add: s2_def write_back_def Let_def r updateActiveParametersImpl_def restore_auto_parts begin_batch_def)
    qed
    have removed: "n \<notin> fst ` set named" "map_of ap n = Some v" if "map_of (remove_keys named ap) n = Some v" for n v
      using that by (auto simp: map_of_remove_keys split: if_splits)
    show ?thesis
    proof (cases "fst ` set named \<subseteq> ss_tagged s")
      case True
      with run run' finish_plain [OF plain, of D H "begin_batch s" "ss_tagged s" "[]" "remove_keys named ap" fa "Some (named, msg)" s2]
      obtain r0 where res: "res = Inr r0" "ar_applied r0 = remove_keys named ap" "ss_block s' = ss_block s2" "ss_active s' = ss_active s2" by auto
      have "\<forall>n v. map_of (ar_applied r0) n = Some v \<longrightarrow> pmt_eq (held n (ss_block s)) v" unfolding res(2) using same removed by blast
      then show ?thesis unfolding res(1,3,4) using block active by blast
    next
      case False
      with run run' have "res = Inl (CallbackThrew msg)" "s' = s2" by auto
      then show ?thesis using block active by auto
    qed
  qed
qed

end

end
