(* ===== verification/Members.thy ===== *)
theory Members
  imports SettingsApply
begin

text \<open>
  The members of a block type (\<^verbatim>\<open>core/include/gnuradio-4.0/Settings.hpp\<close> and \<^verbatim>\<open>annotated.hpp\<close>): the conversion of a
  value to a member's type, the limits of an annotated member, and the accessors a block type contributes to its
  descriptor. The block is the values of its members by name, each held as the value \<^verbatim>\<open>readMember\<close> reads; an
  enumerator is its name. The templates are functions of the member's type. Texts of errors are abridged.
\<close>

section \<open>Member types\<close>

text \<open>Arrays have their size, vectors \<open>None\<close>; the elements of a list are numbers or text.\<close>

datatype member_type = MScalar conv_target | MEnum "string list" | MMap | MVector conv_target "nat option" | MStrings "nat option"

definition element_tag :: "conv_target \<Rightarrow> value_type" where
  "element_tag t = (case t of ToBool \<Rightarrow> TBool
     | ToInt k \<Rightarrow> (case k of I8 \<Rightarrow> TInt8 | I16 \<Rightarrow> TInt16 | I32 \<Rightarrow> TInt32 | I64 \<Rightarrow> TInt64
                   | U8 \<Rightarrow> TUInt8 | U16 \<Rightarrow> TUInt16 | U32 \<Rightarrow> TUInt32 | U64 \<Rightarrow> TUInt64)
     | ToFloat k \<Rightarrow> (case k of FK32 \<Rightarrow> TFloat32 | FK64 \<Rightarrow> TFloat64)
     | ToComplex k \<Rightarrow> (case k of FK32 \<Rightarrow> TComplexFloat32 | FK64 \<Rightarrow> TComplexFloat64)
     | ToString \<Rightarrow> TString)"

definition holds_scalar :: "conv_target \<Rightarrow> pmt \<Rightarrow> bool" where
  "holds_scalar t v \<longleftrightarrow> (if t = ToString then is_string v else target_of v = Some t)"

definition size_fits :: "nat option \<Rightarrow> pmt list \<Rightarrow> bool" where
  "size_fits n es \<longleftrightarrow> (case n of None \<Rightarrow> True | Some k \<Rightarrow> length es = k)"

text \<open>The values a member of a type can hold.\<close>

definition of_type :: "member_type \<Rightarrow> pmt \<Rightarrow> bool" where
  "of_type T v \<longleftrightarrow> (case T of
       MScalar t \<Rightarrow> holds_scalar t v
     | MEnum ns \<Rightarrow> (case v of VString s \<Rightarrow> s \<in> set ns | _ \<Rightarrow> False)
     | MMap \<Rightarrow> is_map v
     | MVector t n \<Rightarrow> (case v of VTensor tt ex es \<Rightarrow> tt = element_tag t \<and> ex = [length es] \<and> size_fits n es | _ \<Rightarrow> False)
     | MStrings n \<Rightarrow> (case v of VTensor tt ex es \<Rightarrow> tt = TValue \<and> ex = [length es] \<and> size_fits n es \<and> list_all is_string es | _ \<Rightarrow> False))"

section \<open>Conversion\<close>

definition tryExtractEnumValue :: "string list \<Rightarrow> pmt \<Rightarrow> string + pmt" where
  "tryExtractEnumValue ns v = (case v of
       VString s \<Rightarrow> if s \<in> set ns then Inr v else Inl ''Invalid enum value''
     | _ \<Rightarrow> Inl ''expects enum string'')"

fun convert_elements :: "float_parser \<Rightarrow> conv_target \<Rightarrow> pmt list \<Rightarrow> string + pmt list" where
  "convert_elements F t [] = Inr []"
| "convert_elements F t (e # es) =
     (case convert_safely F False t e of
        Inl _ \<Rightarrow> Inl ''element does not convert''
      | Inr w \<Rightarrow> map_sum id (\<lambda>ws. w # ws) (convert_elements F t es))"

definition tensor_of :: "value_type \<Rightarrow> pmt list \<Rightarrow> pmt" where
  "tensor_of t es = VTensor t [length es] es"

definition convertParameter :: "float_parser \<Rightarrow> member_type \<Rightarrow> pmt \<Rightarrow> string + pmt" where
  "convertParameter F T v = (case T of
       MEnum ns \<Rightarrow> tryExtractEnumValue ns v
     | MScalar ToString \<Rightarrow> (if is_string v then Inr v else Inl ''wrong type'')
     | MScalar t \<Rightarrow> map_sum (\<lambda>_. ''wrong type'') id (convert_safely F False t v)
     | MMap \<Rightarrow> (if is_map v then Inr v else Inl ''wrong type'')
     | MVector t n \<Rightarrow>
         (case v of
            VTensor tt _ es \<Rightarrow>
              if tt = TValue then
                (if \<not> size_fits n es then Inl ''tensor size'' else map_sum id (tensor_of (element_tag t)) (convert_elements F t es))
              else if tt \<noteq> element_tag t then Inl ''not a tensor of the type''
              else if \<not> size_fits n es then Inl ''tensor size'' else Inr (tensor_of tt es)
          | _ \<Rightarrow> Inl ''not a tensor of the type'')
     | MStrings n \<Rightarrow>
         (case v of
            VTensor TValue _ es \<Rightarrow>
              if \<not> size_fits n es then Inl ''tensor size'' else Inr (tensor_of TValue (map (\<lambda>e. VString (string_or [] e)) es))
          | _ \<Rightarrow> Inl ''not a tensor of the type''))"

text \<open>The list of strings a tag stages.\<close>

definition stagedStringList :: "pmt \<Rightarrow> pmt option" where
  "stagedStringList v = (case v of
       VTensor TString _ es \<Rightarrow> Some (tensor_of TValue es)
     | VTensor TValue ex es \<Rightarrow> if list_all is_string es then Some v else None
     | _ \<Rightarrow> None)"

definition autoUpdateImpl :: "float_parser \<Rightarrow> member_type \<Rightarrow> pmt \<Rightarrow> pmt option" where
  "autoUpdateImpl F T v = (case T of
       MEnum _ \<Rightarrow> if is_string v then Some v else None
     | MMap \<Rightarrow> if is_map v then Some v else None
     | MStrings _ \<Rightarrow> stagedStringList v
     | MVector t _ \<Rightarrow> if holds (RTensor (element_tag t)) v then Some v else None
     | MScalar t \<Rightarrow>
         if holds_scalar t v then Some v
         else (case t of
             ToInt _ \<Rightarrow> (case convert_numerically F t v of Inr w \<Rightarrow> Some w | Inl _ \<Rightarrow> None)
           | ToFloat _ \<Rightarrow> (case convert_numerically F t v of Inr w \<Rightarrow> Some w | Inl _ \<Rightarrow> None)
           | _ \<Rightarrow> None))"

definition extractStagedValue :: "float_parser \<Rightarrow> member_type \<Rightarrow> pmt \<Rightarrow> string + pmt" where
  "extractStagedValue F T v = (case T of
       MEnum ns \<Rightarrow> tryExtractEnumValue ns v
     | MVector t _ \<Rightarrow> if holds (RTensor (element_tag t)) v then convertParameter F T v else Inl ''Unexpected type in stagedValue''
     | MStrings _ \<Rightarrow> if holds (RTensor TValue) v then convertParameter F T v else Inl ''Unexpected type in stagedValue''
     | MMap \<Rightarrow> if is_map v then Inr v else Inl ''Unexpected type in stagedValue''
     | MScalar t \<Rightarrow> if holds_scalar t v then Inr v else Inl ''Unexpected type in stagedValue'')"

section \<open>Limits\<close>

datatype number = NInt int_kind int | NFloat float_kind nat

definition number_of :: "pmt \<Rightarrow> number option" where
  "number_of v = (case int_of v of Some (k, i) \<Rightarrow> Some (NInt k i)
     | None \<Rightarrow> (case float_of v of Some (k, x) \<Rightarrow> Some (NFloat k x) | None \<Rightarrow> None))"

text \<open>\<open>a <= b\<close> of two floating-point numbers of one type.\<close>

definition float_leq :: "float_kind \<Rightarrow> nat \<Rightarrow> nat \<Rightarrow> bool" where
  "float_leq k x y \<longleftrightarrow> (case k of
       FK32 \<Rightarrow> f32_order (of_nat x) (of_nat y) \<in> {Less, Equivalent}
     | FK64 \<Rightarrow> f64_order (of_nat x) (of_nat y) \<in> {Less, Equivalent})"

text \<open>A cast between the floating-point types, which keeps infinity and NaN.\<close>

definition cast_float :: "float_kind \<Rightarrow> float_kind \<Rightarrow> nat \<Rightarrow> nat" where
  "cast_float T S x =
     (if T = S then x
      else if ff_finite (format_of S) x then ff_convert (format_of T) (format_of S) x
      else (if ff_sign (format_of S) x then 2 ^ (ff_p (format_of T) + ff_q (format_of T)) else 0)
         + (2 ^ ff_q (format_of T) - 1) * 2 ^ ff_p (format_of T) + (if ff_mantissa (format_of S) x = 0 then 0 else 2 ^ (ff_p (format_of T) - 1)))"

definition common_float :: "float_kind \<Rightarrow> number \<Rightarrow> nat" where
  "common_float k a = (case a of NInt _ i \<Rightarrow> ff_of_int (format_of k) i | NFloat S x \<Rightarrow> cast_float k S x)"

definition common_kind :: "number \<Rightarrow> number \<Rightarrow> float_kind" where
  "common_kind a b = (let wide = (\<lambda>n. case n of NFloat FK64 _ \<Rightarrow> True | _ \<Rightarrow> False) in if wide a \<or> wide b then FK64 else FK32)"

definition scaled_ceil :: "int \<times> int \<Rightarrow> int" where
  "scaled_ceil x = (let (m, e) = x in - scaled_int (- m, e))"

definition withinBounds :: "number \<Rightarrow> number \<Rightarrow> number \<Rightarrow> bool" where
  "withinBounds v lower upper = (case (v, lower, upper) of
       (NInt _ i, NInt _ l, NInt _ u) \<Rightarrow> l \<le> i \<and> i \<le> u
     | (NFloat k x, NInt B l, NInt _ u) \<Rightarrow>
         (let val = ff_value (format_of k) x; twoToDigits = 2 ^ kind_digits B; low = (if is_signed B then - twoToDigits else 0)
          in if \<not> (ff_finite (format_of k) x \<and> \<not> scaled_less val low \<and> scaled_less val twoToDigits) then False
             else scaled_int val \<ge> l \<and> scaled_ceil val < twoToDigits \<and> scaled_ceil val \<le> u)
     | _ \<Rightarrow>
         (let k = common_kind v lower
          in float_leq k (common_float k lower) (common_float k v) \<and> float_leq k (common_float k v) (common_float k upper)))"

definition castKeepsValue :: "number \<Rightarrow> number \<Rightarrow> bool" where
  "castKeepsValue target v = (case (target, v) of
       (NInt T _, NInt _ i) \<Rightarrow> in_kind T i
     | (NFloat _ _, NInt _ _) \<Rightarrow> True
     | (NInt T _, NFloat S x) \<Rightarrow>
         (let val = ff_value (format_of S) x
          in ff_finite (format_of S) x \<and> scaled_less val (2 ^ kind_digits T) \<and>
             (if is_signed T then \<not> scaled_less val (- (2 ^ kind_digits T)) else \<not> scaled_leq val (- 1)))
     | (NFloat T _, NFloat S x) \<Rightarrow>
         \<not> ff_finite (format_of S) x \<or>
         \<not> scaled_less (ff_value (format_of S) x) (- float_max T) \<and> scaled_leq (ff_value (format_of S) x) (float_max T))"

text \<open>\<open>static_cast\<close> to the type of a bound: towards zero to an integer type, where the cast keeps the value.\<close>

definition cast_to :: "number \<Rightarrow> number \<Rightarrow> number" where
  "cast_to target v = (case (target, v) of
       (NInt T _, NInt _ i) \<Rightarrow> NInt T i
     | (NFloat T _, NInt _ i) \<Rightarrow> NFloat T (ff_of_int (format_of T) i)
     | (NInt T _, NFloat S x) \<Rightarrow>
         (let val = ff_value (format_of S) x in NInt T (if fst val < 0 then scaled_ceil val else scaled_int val))
     | (NFloat T _, NFloat S x) \<Rightarrow> NFloat T (cast_float T S x))"

definition same_number_type :: "number \<Rightarrow> number \<Rightarrow> bool" where
  "same_number_type a b = (case (a, b) of (NInt k _, NInt l _) \<Rightarrow> k = l | (NFloat k _, NFloat l _) \<Rightarrow> k = l | _ \<Rightarrow> False)"

definition pmt_of :: "number \<Rightarrow> pmt" where
  "pmt_of n = (case n of NInt k i \<Rightarrow> of_kind k i | NFloat k x \<Rightarrow> float_of_kind k x)"

text \<open>
  \<^verbatim>\<open>Limits<Lower, Upper, Validator>\<close> with bounds of one numeric type; a validator that throws gives \<open>None\<close>.
\<close>

record limits =
  lm_lower :: number
  lm_upper :: number
  lm_validator :: "(number \<Rightarrow> bool option) option"

definition number_leq :: "number \<Rightarrow> number \<Rightarrow> bool" where
  "number_leq a b = (case (a, b) of
       (NInt _ i, NInt _ j) \<Rightarrow> i \<le> j
     | (NFloat k x, NFloat _ y) \<Rightarrow> float_leq k x y
     | _ \<Rightarrow> False)"

definition unbounded :: "limits \<Rightarrow> bool" where
  "unbounded L \<longleftrightarrow> pmt_eq (pmt_of (lm_lower L)) (pmt_of (lm_upper L))"

definition validator_takes :: "limits \<Rightarrow> number \<Rightarrow> bool" where
  "validator_takes L v = (case lm_validator L of None \<Rightarrow> True | Some f \<Rightarrow> (case f v of None \<Rightarrow> False | Some b \<Rightarrow> b))"

text \<open>\<open>validate\<close> of a value of the bounds' type, and of another number.\<close>

definition validate_same :: "limits \<Rightarrow> number \<Rightarrow> bool" where
  "validate_same L v =
     (if unbounded L then validator_takes L v
      else number_leq (lm_lower L) v \<and> number_leq v (lm_upper L) \<and> validator_takes L v)"

definition validate :: "limits \<Rightarrow> number \<Rightarrow> bool" where
  "validate L v =
     (if same_number_type v (lm_lower L) then validate_same L v
      else if \<not> unbounded L \<and> \<not> withinBounds v (lm_lower L) (lm_upper L) then False
      else if lm_validator L = None then True
      else castKeepsValue (lm_lower L) v \<and> validate_same L (cast_to (lm_lower L) v))"

section \<open>Descriptors\<close>

text \<open>
  A reflected member: its type, whether it is writable (neither const nor immutable), its limits when it is annotated
  with a range, and its annotation: description, documentation, unit and visibility.
\<close>

record member_decl =
  md_name :: string
  md_type :: member_type
  md_writable :: bool
  md_limits :: "limits option"
  md_annotation :: "(string \<times> string \<times> string \<times> bool) option"

type_synonym block = "string \<Rightarrow> pmt"

text \<open>The check of a converted value against the limits; they belong to members of a numeric type.\<close>

definition within_limits :: "limits option \<Rightarrow> pmt \<Rightarrow> bool" where
  "within_limits lim w = (case lim of
       None \<Rightarrow> True
     | Some L \<Rightarrow> (case number_of w of None \<Rightarrow> True | Some n \<Rightarrow> validate L n))"

definition refuseByLimits :: "float_parser \<Rightarrow> member_type \<Rightarrow> limits \<Rightarrow> pmt \<Rightarrow> string option" where
  "refuseByLimits F T L v =
     (case convertParameter F T v of
        Inl _ \<Rightarrow> None
      | Inr w \<Rightarrow> if within_limits (Some L) w then None
          else Some (if unbounded L then ''refused by its validator''
                     else if lm_validator L = None then ''outside the limits'' else ''outside the limits or refused by its validator''))"

definition applyStagedMember :: "float_parser \<Rightarrow> member_decl \<Rightarrow> pmt \<Rightarrow> block \<Rightarrow> block option" where
  "applyStagedMember F d v b =
     (case extractStagedValue F (md_type d) v of
        Inl _ \<Rightarrow> None
      | Inr w \<Rightarrow> if within_limits (md_limits d) w then Some (b(md_name d := w)) else None)"

definition readMember :: "member_decl \<Rightarrow> block \<Rightarrow> pmt" where
  "readMember d b = b (md_name d)"

definition member_of :: "float_parser \<Rightarrow> member_decl \<Rightarrow> block member" where
  "member_of F d = \<lparr>mb_name = md_name d,
     mb_set = (if md_writable d then Some (\<lambda>_. convertParameter F (md_type d)) else None),
     mb_auto = autoUpdateImpl F (md_type d), mb_apply = (\<lambda>_. applyStagedMember F d), mb_read = Some (readMember d),
     mb_limits = (if md_writable d then map_option (\<lambda>L _. refuseByLimits F (md_type d) L) (md_limits d) else None)\<rparr>"

definition blockDescriptor :: "float_parser \<Rightarrow> member_decl list \<Rightarrow> block meta_hook option \<Rightarrow> block descriptor" where
  "blockDescriptor F ds meta = \<lparr>ds_members = map (member_of F) ds, ds_reflectable = True, ds_meta = meta\<rparr>"

text \<open>
  The description of the members that \<^verbatim>\<open>init()\<close> writes to the block's meta information; an enumeration's members are
  listed with the name of its type.
\<close>

definition describe_member :: "(string list \<Rightarrow> string) \<Rightarrow> member_decl \<Rightarrow> property_map \<Rightarrow> property_map" where
  "describe_member type_name d m =
     (let m1 = (case md_type d of
            MEnum ns \<Rightarrow> AList.update (md_name d @ ''::enum_type'') (VString (type_name ns))
                (AList.update (md_name d @ ''::enum_values'') (tensor_of TValue (map VString [n \<leftarrow> ns. n \<noteq> []])) m)
          | _ \<Rightarrow> m)
      in case md_annotation d of
           None \<Rightarrow> m1
         | Some (description, documentation, unit, visible) \<Rightarrow>
             AList.update (md_name d @ ''::visible'') (VBool visible)
               (AList.update (md_name d @ ''::unit'') (VString unit)
                 (AList.update (md_name d @ ''::documentation'') (VString documentation)
                   (AList.update (md_name d @ ''::description'') (VString description) m1))))"

definition describe_block :: "(string list \<Rightarrow> string) \<Rightarrow> string option \<Rightarrow> member_decl list \<Rightarrow> property_map \<Rightarrow> property_map" where
  "describe_block type_name description ds m =
     fold (describe_member type_name) ds (case description of None \<Rightarrow> m | Some t \<Rightarrow> AList.update ''description'' (VString t) m)"

section \<open>Conversions keep the type\<close>

lemma target_of_kind [simp]: "target_of (of_kind k i) = Some (ToInt k)"
  by (cases k) (simp_all add: of_kind_def target_of_def int_of_def)

lemma target_float_of_kind [simp]: "target_of (float_of_kind k x) = Some (ToFloat k)"
  by (cases k) (simp_all add: float_of_kind_def target_of_def int_of_def float_of_def)

lemma target_VBool [simp]: "target_of (VBool b) = Some ToBool"
  by (simp add: target_of_def)

lemma target_complex_of_real [simp]: "target_of v = Some (ToFloat k) \<Longrightarrow> target_of (complex_of_real k v) = Some (ToComplex k)"
  by (cases v) (auto simp: target_of_def complex_of_real_def int_of_def float_of_def split: if_splits)

lemma convert_numbers_target:
  "convert_int T S v = Inr w \<Longrightarrow> target_of w = Some (ToInt T)"
  "convert_int_bool S v = Inr w \<Longrightarrow> target_of w = Some ToBool"
  "convert_int_float K S v = Inr w \<Longrightarrow> target_of w = Some (ToFloat K)"
  "convert_float_int T L x = Inr w \<Longrightarrow> target_of w = Some (ToInt T)"
  "convert_float_bool L x = Inr w \<Longrightarrow> target_of w = Some ToBool"
  "convert_float_float K L x = Inr w \<Longrightarrow> target_of w = Some (ToFloat K)"
  by (auto simp: convert_int_def convert_int_bool_def convert_int_float_def convert_float_int_def convert_float_bool_def
      convert_float_float_def Let_def map_sum_def split: if_splits sum.splits)

lemma convert_real_target:
  assumes "convert_real T v = Inr w"
  shows "target_of w = Some T"
  using assms by (cases T) (auto simp: convert_real_def dest: convert_numbers_target split: option.splits)

lemma convert_text_target:
  assumes "convert_text F T s = Inr w"
  shows "T = ToString \<and> w = VString s \<or> target_of w = Some T"
  using assms by (cases T) (auto simp: convert_text_def map_sum_def split: sum.splits)

lemma convert_safely_target:
  assumes "convert_safely F False T v = Inr w" "T \<noteq> ToString"
  shows "target_of w = Some T"
proof (cases "target_of v = Some T")
  case True
  then show ?thesis using assms(1) by (simp add: convert_safely_def)
next
  case False
  have c: "convert_complex T k x \<noteq> Inr w" for k x
    using assms(2) by (cases T) (auto simp: convert_complex_def)
  have r: "target_of w = Some T" if "(case T of ToComplex k \<Rightarrow> map_sum (\<lambda>_. Unsupported) (complex_of_real k) (convert_real (ToFloat k) v) | _ \<Rightarrow> convert_real T v) = Inr w"
    using that by (cases T) (auto dest: convert_real_target simp: map_sum_def split: sum.splits)
  show ?thesis
    using assms False c r convert_text_target [of F T _ w]
    by (auto simp: convert_safely_def split: pmt.splits if_splits)
qed

text \<open>The types a member can have: a list of text is no list of numbers.\<close>

definition type_ok :: "member_type \<Rightarrow> bool" where
  "type_ok T \<longleftrightarrow> (case T of MVector t _ \<Rightarrow> t \<noteq> ToString | _ \<Rightarrow> True)"

lemma element_tag_value [simp]: "element_tag t \<noteq> TValue"
  by (auto simp: element_tag_def split: conv_target.split int_kind.split float_kind.split)

lemma convert_elements_length: "convert_elements F t es = Inr ws \<Longrightarrow> length ws = length es"
  by (induction es arbitrary: ws) (auto simp: map_sum_def split: sum.splits)

lemma convert_of_type:
  assumes "convertParameter F T v = Inr w"
  shows "of_type T w"
proof (cases T)
  case (MScalar t)
  then show ?thesis
    using assms by (cases t) (auto simp: convertParameter_def of_type_def holds_scalar_def map_sum_def dest: convert_safely_target split: if_splits sum.splits)
next
  case (MVector t n)
  then show ?thesis
    using assms convert_elements_length [of F t]
    by (auto simp: convertParameter_def of_type_def tensor_of_def size_fits_def map_sum_def split: pmt.splits if_splits sum.splits option.splits)
next
  case (MStrings n)
  then show ?thesis
    using assms by (auto simp: convertParameter_def of_type_def tensor_of_def size_fits_def list_all_iff is_string_def container_type_of_def
        split: pmt.splits value_type.splits if_splits option.splits)
qed (use assms in \<open>auto simp: convertParameter_def of_type_def tryExtractEnumValue_def split: if_splits pmt.splits\<close>)

lemma strings_same: "list_all is_string es \<Longrightarrow> map (\<lambda>e. VString (string_or [] e)) es = es"
proof (induction es)
  case (Cons e es)
  then show ?case by (cases e) (simp_all add: is_string_def container_type_of_def string_or_def)
qed simp

text \<open>A value of the member's type passes the apply path as it is.\<close>

lemma extract_same:
  assumes "of_type T w"
  shows "extractStagedValue F T w = Inr w"
proof (cases T)
  case (MVector t n)
  then show ?thesis
    using assms by (auto simp: of_type_def extractStagedValue_def convertParameter_def holds_def is_tensor_def container_type_of_def value_type_of_def
        tensor_of_def split: pmt.splits)
next
  case (MStrings n)
  then show ?thesis
    using assms by (auto simp: of_type_def extractStagedValue_def convertParameter_def holds_def is_tensor_def container_type_of_def value_type_of_def
        tensor_of_def strings_same split: pmt.splits)
qed (use assms in \<open>auto simp: of_type_def extractStagedValue_def tryExtractEnumValue_def split: pmt.splits\<close>)

lemma extract_of_type:
  assumes "extractStagedValue F T v = Inr w"
  shows "of_type T w"
proof (cases T)
  case (MVector t n)
  then show ?thesis using assms by (auto simp: extractStagedValue_def intro: convert_of_type split: if_splits)
next
  case (MStrings n)
  then show ?thesis using assms by (auto simp: extractStagedValue_def intro: convert_of_type split: if_splits)
qed (use assms in \<open>auto simp: of_type_def extractStagedValue_def tryExtractEnumValue_def split: if_splits pmt.splits\<close>)

text \<open>A value equal to one of the type is extracted as it is.\<close>

lemma equal_types: "pmt_eq v w \<Longrightarrow> value_type_of v = value_type_of w \<and> container_type_of v = container_type_of w"
  by (cases v) (auto simp: same_type_def pmt_eq.simps)

lemma target_by_types:
  "target_of v = (case (container_type_of v, value_type_of v) of
     (Scalar, t) \<Rightarrow> (case t of TBool \<Rightarrow> Some ToBool | TInt8 \<Rightarrow> Some (ToInt I8) | TInt16 \<Rightarrow> Some (ToInt I16) | TInt32 \<Rightarrow> Some (ToInt I32)
        | TInt64 \<Rightarrow> Some (ToInt I64) | TUInt8 \<Rightarrow> Some (ToInt U8) | TUInt16 \<Rightarrow> Some (ToInt U16) | TUInt32 \<Rightarrow> Some (ToInt U32)
        | TUInt64 \<Rightarrow> Some (ToInt U64) | TFloat32 \<Rightarrow> Some (ToFloat FK32) | TFloat64 \<Rightarrow> Some (ToFloat FK64) | _ \<Rightarrow> None)
   | (Complex, TComplexFloat32) \<Rightarrow> Some (ToComplex FK32)
   | (Complex, TComplexFloat64) \<Rightarrow> Some (ToComplex FK64)
   | _ \<Rightarrow> None)"
  by (cases v) (simp_all add: target_of_def int_of_def float_of_def container_type_of_def value_type_of_def)

lemma equal_target: "pmt_eq v w \<Longrightarrow> target_of v = target_of w \<and> is_string v = is_string w \<and> is_map v = is_map w"
  using equal_types [of v w] unfolding target_by_types is_string_def is_map_def by simp

lemma string_container: "is_string v \<longleftrightarrow> (\<exists>s. v = VString s)"
  by (cases v) (simp_all add: is_string_def container_type_of_def)

lemma equal_string: "pmt_eq (VString s) w \<longleftrightarrow> w = VString s"
  by (cases w) (auto simp: pmt_simps)

lemma equal_strings: "list_all2 pmt_eq es es' \<Longrightarrow> list_all is_string es \<Longrightarrow> list_all is_string es'"
proof (induction rule: list_all2_induct)
  case (Cons x xs y ys)
  then obtain s where "x = VString s" by (auto simp: string_container)
  then have "y = VString s" using Cons.hyps(1) equal_string by blast
  then show ?case using Cons by (simp add: string_container)
qed simp

lemma equal_of_type:
  assumes "of_type T v" "pmt_eq v w"
  shows "of_type T w"
proof (cases T)
  case (MVector t n)
  then obtain es where v: "v = VTensor (element_tag t) [length es] es" "size_fits n es" using assms(1) by (auto simp: of_type_def split: pmt.splits)
  then obtain es' where w: "w = VTensor (element_tag t) [length es] es'" "list_all2 pmt_eq es es'" using pmt_eq_shape(1) assms(2) by blast
  then show ?thesis using MVector v(2) list_all2_lengthD [OF w(2)] by (simp add: of_type_def size_fits_def split: option.splits)
next
  case (MStrings n)
  then obtain es where v: "v = VTensor TValue [length es] es" "size_fits n es" "list_all is_string es" using assms(1) by (auto simp: of_type_def split: pmt.splits)
  then obtain es' where w: "w = VTensor TValue [length es] es'" "list_all2 pmt_eq es es'" using pmt_eq_shape(1) assms(2) by blast
  then show ?thesis using MStrings v(2) list_all2_lengthD [OF w(2)] equal_strings [OF w(2) v(3)] by (simp add: of_type_def size_fits_def split: option.splits)
next
  case (MEnum ns)
  then obtain s where v: "v = VString s" "s \<in> set ns" using assms(1) by (auto simp: of_type_def split: pmt.splits)
  then have "w = VString s" using assms(2) equal_string by blast
  then show ?thesis using v MEnum by (simp add: of_type_def)
next
  case (MScalar t)
  then show ?thesis using assms(1) equal_target [OF assms(2)] by (simp add: of_type_def holds_scalar_def split: if_splits)
next
  case MMap
  then show ?thesis using assms(1) equal_target [OF assms(2)] by (simp add: of_type_def)
qed

section \<open>The members of a block keep the contract\<close>

text \<open>The value a member takes from a staged one.\<close>

definition member_takes :: "float_parser \<Rightarrow> member_decl list \<Rightarrow> string \<Rightarrow> pmt \<Rightarrow> pmt option" where
  "member_takes F ds n v =
     (case find (\<lambda>d. md_name d = n \<and> md_writable d) ds of
        None \<Rightarrow> None
      | Some d \<Rightarrow>
          (case extractStagedValue F (md_type d) v of
             Inl _ \<Rightarrow> None
           | Inr w \<Rightarrow> if within_limits (md_limits d) w then Some w else None))"

definition block_ok :: "member_decl list \<Rightarrow> block \<Rightarrow> bool" where
  "block_ok ds b \<longleftrightarrow> (\<forall>d \<in> set ds. of_type (md_type d) (b (md_name d)))"

lemma find_member:
  assumes "distinct (map md_name ds)" "d \<in> set ds" "md_writable d"
  shows "find (\<lambda>e. md_name e = md_name d \<and> md_writable e) ds = Some d"
  using assms
proof (induction ds)
  case (Cons e ds)
  then show ?case by (cases "e = d") (auto simp: rev_image_eqI)
qed simp

lemma takes_member:
  assumes "distinct (map md_name ds)" "d \<in> set ds" "md_writable d"
  shows "member_takes F ds (md_name d) v = (case extractStagedValue F (md_type d) v of
      Inl _ \<Rightarrow> None | Inr w \<Rightarrow> if within_limits (md_limits d) w then Some w else None)"
  by (simp add: member_takes_def find_member [OF assms])

lemma apply_takes:
  assumes "distinct (map md_name ds)" "d \<in> set ds" "md_writable d"
  shows "applyStagedMember F d v b = map_option (\<lambda>w. b(md_name d := w)) (member_takes F ds (md_name d) v)"
  by (simp add: applyStagedMember_def takes_member [OF assms] split: sum.split)

lemma takes_of_type:
  assumes "distinct (map md_name ds)" "d \<in> set ds" "md_writable d" "member_takes F ds (md_name d) v = Some w"
  shows "of_type (md_type d) w"
  using assms(4) extract_of_type by (auto simp: takes_member [OF assms(1-3)] split: sum.splits if_splits)

lemma block_ok_update:
  assumes "distinct (map md_name ds)" "d \<in> set ds" "of_type (md_type d) w" "block_ok ds b"
  shows "block_ok ds (b(md_name d := w))"
proof -
  have "e = d" if "e \<in> set ds" "md_name e = md_name d" for e
    using assms(1,2) that by (metis distinct_map inj_on_eq_iff)
  then show ?thesis using assms(3,4) by (auto simp: block_ok_def)
qed

lemma lawful_members:
  assumes "distinct (map md_name ds)"
  shows "block_members (blockDescriptor F ds meta) (block_ok ds) (member_takes F ds) (\<lambda>n b. b n)"
proof
  let ?D = "blockDescriptor F ds meta"
  show "ds_reflectable ?D" by (simp add: blockDescriptor_def)
  have "map mb_name (ds_members ?D) = map md_name ds" by (simp add: blockDescriptor_def member_of_def)
  then show "distinct (map mb_name (ds_members ?D))" using assms by simp
  have m: "\<exists>d \<in> set ds. m = member_of F d" if "m \<in> set (ds_members ?D)" for m
    using that by (auto simp: blockDescriptor_def)
  have w: "\<exists>d \<in> set ds. md_writable d \<and> m = member_of F d" if a: "m \<in> set (ds_members ?D)" "mb_set m \<noteq> None" for m
  proof -
    obtain d where d: "d \<in> set ds" "m = member_of F d" using m [OF a(1)] by blast
    then have "md_writable d" using a(2) by (cases "md_writable d") (simp_all add: member_of_def)
    then show ?thesis using d by blast
  qed
  have s [simp]: "mb_name (member_of F d) = md_name d" "mb_apply (member_of F d) k = applyStagedMember F d" "mb_read (member_of F d) = Some (readMember d)" for d k
    by (simp_all add: member_of_def)
  show "mb_read m \<noteq> None" if "m \<in> set (ds_members ?D)" "mb_set m \<noteq> None" for m
    using m [OF that(1)] by auto
  show "r b = b (mb_name m)" if "m \<in> set (ds_members ?D)" "mb_read m = Some r" for m r b
    using m [OF that(1)] that(2) by (auto simp: readMember_def)
  show "mb_apply m k v b = None" if a: "m \<in> set (ds_members ?D)" "mb_set m \<noteq> None" "member_takes F ds (mb_name m) v = None" for m v k b
  proof -
    obtain d where d: "d \<in> set ds" "md_writable d" "m = member_of F d" using w [OF a(1,2)] by blast
    then have "member_takes F ds (md_name d) v = None" using a(3) by simp
    then show ?thesis using d by (simp add: apply_takes [OF assms d(1,2)])
  qed
  show "\<exists>b'. mb_apply m k v b = Some b' \<and> b' (mb_name m) = x \<and> (\<forall>n. n \<noteq> mb_name m \<longrightarrow> b' n = b n) \<and> (block_ok ds b \<longrightarrow> block_ok ds b')"
    if a: "m \<in> set (ds_members ?D)" "mb_set m \<noteq> None" "member_takes F ds (mb_name m) v = Some x" for m v x k b
  proof -
    obtain d where d: "d \<in> set ds" "md_writable d" "m = member_of F d" using w [OF a(1,2)] by blast
    then have "member_takes F ds (md_name d) v = Some x" using a(3) by simp
    note x = this
    have "block_ok ds (b(md_name d := x))" if "block_ok ds b"
      by (rule block_ok_update [OF assms d(1) takes_of_type [OF assms d(1,2) x] that])
    then show ?thesis using d x by (simp add: apply_takes [OF assms d(1,2)])
  qed
  show "member_takes F ds (mb_name m) v = None \<or> member_takes F ds (mb_name m) v = Some v"
    if a: "m \<in> set (ds_members ?D)" "mb_set m \<noteq> None" "block_ok ds b" "pmt_eq (b (mb_name m)) v \<or> b (mb_name m) = v" for m b v
  proof -
    obtain d where d: "d \<in> set ds" "md_writable d" "m = member_of F d" using w [OF a(1,2)] by blast
    then have "of_type (md_type d) (b (md_name d))" "pmt_eq (b (md_name d)) v \<or> b (md_name d) = v" using a(3,4) d by (simp_all add: block_ok_def)
    then have "of_type (md_type d) v" using equal_of_type by metis
    then show ?thesis using d by (simp add: takes_member [OF assms d(1,2)] extract_same)
  qed
qed

text \<open>
  The eight members \<^verbatim>\<open>Block\<close> declares on behalf of every block, by whether the block declares resampling and a stride
  that can change.
\<close>

definition chunk_limits :: limits where
  "chunk_limits = \<lparr>lm_lower = NInt U64 1, lm_upper = NInt U64 (highest U32), lm_validator = None\<rparr>"

definition framework_members :: "bool \<Rightarrow> bool \<Rightarrow> member_decl list" where
  "framework_members resampling strided =
     (let chunk = ''For each `input_chunk_size` input samples, `output_chunk_size` output samples are published (in>out: Decimate, in<out: Interpolate, in==out: No change)'';
          decl = (\<lambda>name T writable lim annotation. \<lparr>md_name = name, md_type = T, md_writable = writable, md_limits = lim, md_annotation = annotation\<rparr>);
          size_t = MScalar (ToInt U32); text = MScalar ToString
      in [decl ''input_chunk_size'' size_t resampling (Some chunk_limits) (Some (''input_chunk_size'', chunk, [], False)),
          decl ''output_chunk_size'' size_t resampling (Some chunk_limits) (Some (''output_chunk_size'', chunk, [], False)),
          decl ''stride'' size_t strided None (Some (''stride'', ''samples between data processing. <N for overlap, >N for skip, =0 for back-to-back.'', [], False)),
          decl ''disconnect_on_done'' (MScalar ToBool) True None
            (Some (''disconnect on done'', ''If no downstream blocks, declare itself 'DONE' and disconnect from upstream blocks.'', [], False)),
          decl ''compute_domain'' text True None (Some (''compute domain'', ''compute domain/IO thread pool name'', [], False)),
          decl ''unique_name'' text False None None,
          decl ''name'' text True None (Some (''user-defined name'', ''N.B. may not be unique -> ::unique_name'', [], False)),
          decl ''ui_constraints'' MMap True None (Some (''ui-constraints'', ''store non-graph-processing information like UI block position etc.'', [], False))])"

lemma framework_names: "distinct (map md_name (framework_members resampling strided))"
  by (simp add: framework_members_def Let_def)

interpretation framework: block_members "blockDescriptor F (framework_members resampling strided) meta"
    "block_ok (framework_members resampling strided)" "member_takes F (framework_members resampling strided)" "\<lambda>n b. b n"
  for F resampling strided meta
  by (rule lawful_members [OF framework_names])

section \<open>Applying a batch to the members\<close>

lemma writable_decl:
  assumes "distinct (map md_name ds)" "d \<in> set ds"
  shows "writableByName (blockDescriptor F ds meta) (md_name d) \<noteq> None \<longleftrightarrow> md_writable d"
proof -
  have "e = d" if "e \<in> set ds" "md_name e = md_name d" for e
    using assms that by (metis distinct_map inj_on_eq_iff)
  moreover have "writableByName (blockDescriptor F ds meta) (md_name d) = None \<longleftrightarrow> (\<forall>e \<in> set ds. \<not> (md_name e = md_name d \<and> md_writable e))"
    by (auto simp: writableByName_def find_None_iff blockDescriptor_def member_of_def)
  ultimately show ?thesis using assms(2) by metis
qed

lemma takes_eq: "block_members.takes (blockDescriptor F ds meta) (member_takes F ds) n v = member_takes F ds n v"
  if "distinct (map md_name ds)"
proof (cases "find (\<lambda>d. md_name d = n \<and> md_writable d) ds")
  case None
  then show ?thesis by (simp add: block_members.takes_def [OF lawful_members [OF that]] member_takes_def)
next
  case (Some d)
  then have "d \<in> set ds" "md_name d = n" "md_writable d" by (auto simp: find_Some_iff)
  then show ?thesis using writable_decl [OF that, of d F meta] by (auto simp: block_members.takes_def [OF lawful_members [OF that]])
qed

text \<open>
  C1. An apply settles its batch: of the staged values each goes to the member of its name, which then holds it when
  it is of the member's type and within the limits, and keeps its value otherwise; the applied and the failed
  parameters of the result are exactly the values taken and rejected, members the batch does not name keep their
  values, the staged values are used up with the change flag, and the active parameters agree with the block.
\<close>

theorem apply_settles_batch:
  fixes s :: "block settings"
  assumes "distinct (map md_name ds)" "map_of (ss_staged s) reset_key = None" "distinct (map fst (ss_staged s))"
    and "\<forall>callback. hk_changed H = Some callback \<longrightarrow> (\<forall>old new t. fst (callback old new t) = None \<and> snd (snd (callback old new t)) = t)"
  shows "\<exists>r s'. applyStagedParametersImpl (blockDescriptor F ds meta) H clk s = (Inr r, s') \<and>
    ss_staged s' = [] \<and> ss_tagged s' = {} \<and> \<not> ss_changed s' \<and> ss_active s' = ss_active s \<and> ss_stored s' = ss_stored s \<and>
    (\<forall>d \<in> set ds. let n = md_name d in
       if \<not> md_writable d then ss_block s' n = ss_block s n
       else map_of (ss_activeParams s') n = Some (ss_block s' n) \<and>
         (case map_of (ss_staged s) n of
            None \<Rightarrow> ss_block s' n = ss_block s n \<and> map_of (ar_applied r) n = None \<and> map_of (ar_failed r) n = None
          | Some v \<Rightarrow>
              (case member_takes F ds n v of
                 None \<Rightarrow> ss_block s' n = ss_block s n \<and> map_of (ar_applied r) n = None \<and> map_of (ar_failed r) n = Some v
               | Some w \<Rightarrow> ss_block s' n = w \<and> of_type (md_type d) w \<and> within_limits (md_limits d) w \<and>
                   map_of (ar_applied r) n = Some v \<and> map_of (ar_failed r) n = None)))"
proof -
  let ?D = "blockDescriptor F ds meta"
  from block_members.apply_settles [where H = H and s = s and clk = clk, OF lawful_members [OF assms(1), of F meta] assms(2-4)]
  obtain r s' where r: "applyStagedParametersImpl ?D H clk s = (Inr r, s')"
    "ss_staged s' = []" "ss_tagged s' = {}" "\<not> ss_changed s'" "ss_active s' = ss_active s" "ss_stored s' = ss_stored s"
    and b: "\<And>n. ss_block s' n = (case map_of (ss_staged s) n of None \<Rightarrow> ss_block s n | Some v \<Rightarrow> value_or (member_takes F ds n v) (ss_block s n))"
    and a: "\<And>n. map_of (ar_applied r) n = (case map_of (ss_staged s) n of None \<Rightarrow> None | Some v \<Rightarrow> if member_takes F ds n v = None then None else Some v)"
    and f: "\<And>n. map_of (ar_failed r) n = (case map_of (ss_staged s) n of None \<Rightarrow> None
         | Some v \<Rightarrow> if writableByName ?D n \<noteq> None \<and> member_takes F ds n v = None then Some v else None)"
    and p: "\<And>n. writableByName ?D n \<noteq> None \<Longrightarrow> map_of (ss_activeParams s') n = Some (ss_block s' n)"
    unfolding takes_eq [OF assms(1)] by blast
  have none: "member_takes F ds (md_name d) v = None" if "d \<in> set ds" "\<not> md_writable d" for d v
    using that takes_eq [OF assms(1), of F meta "md_name d" v] writable_decl [OF assms(1) that(1), of F meta]
    by (simp add: block_members.takes_def [OF lawful_members [OF assms(1)]])
  show ?thesis
  proof (intro exI conjI ballI)
    fix d assume d: "d \<in> set ds"
    let ?n = "md_name d"
    note w = writable_decl [OF assms(1) d, of F meta]
    show "let n = md_name d in
       if \<not> md_writable d then ss_block s' n = ss_block s n
       else map_of (ss_activeParams s') n = Some (ss_block s' n) \<and>
         (case map_of (ss_staged s) n of
            None \<Rightarrow> ss_block s' n = ss_block s n \<and> map_of (ar_applied r) n = None \<and> map_of (ar_failed r) n = None
          | Some v \<Rightarrow>
              (case member_takes F ds n v of
                 None \<Rightarrow> ss_block s' n = ss_block s n \<and> map_of (ar_applied r) n = None \<and> map_of (ar_failed r) n = Some v
               | Some w \<Rightarrow> ss_block s' n = w \<and> of_type (md_type d) w \<and> within_limits (md_limits d) w \<and>
                   map_of (ar_applied r) n = Some v \<and> map_of (ar_failed r) n = None))"
    proof (cases "md_writable d")
      case False
      then show ?thesis using none [OF d] b [of ?n] by (cases "map_of (ss_staged s) ?n") (simp_all add: value_or_def)
    next
      case True
      note t = takes_member [OF assms(1) d True, of F]
      have "of_type (md_type d) x \<and> within_limits (md_limits d) x" if "member_takes F ds ?n v = Some x" for v x
        using that takes_of_type [OF assms(1) d True that] by (auto simp: t split: sum.splits if_splits)
      then show ?thesis
        using True w p [of ?n] a [of ?n] b [of ?n] f [of ?n]
        by (cases "map_of (ss_staged s) ?n"; cases "member_takes F ds ?n (the (map_of (ss_staged s) ?n))") (simp_all add: Let_def value_or_def)
    qed
  qed (use r in simp_all)
qed

text \<open>
  C2. A refusal by the callback leaves the block as it was: when \<open>settingsChanged()\<close> throws, every member holds its
  value from before the apply again, or one equal to it, provided the limits take that value; the context that was
  active before the batch activated another is active again; the only exception that leaves the apply is the one
  thrown, and otherwise the result reports no value as applied that the block did not hold before.
\<close>

theorem refused_batch_restored:
  fixes s :: "block settings"
  assumes "distinct (map md_name ds)" "map_of (ss_staged s) reset_key = None" "distinct (map fst (ss_staged s))"
    and "block_ok ds (ss_block s)" "\<forall>d \<in> set ds. within_limits (md_limits d) (ss_block s (md_name d))"
    and "hk_changed H = Some callback"
    and "\<forall>old new t. fst (callback old new t) = Some msg \<and> ss_block (snd (snd (callback old new t))) = ss_block t \<and>
      ss_active (snd (snd (callback old new t))) = ss_active t \<and> ss_stored (snd (snd (callback old new t))) = ss_stored t"
    and "applyStagedParametersImpl (blockDescriptor F ds meta) H clk s = (res, s')"
  shows "(\<forall>n. ss_block s' n = ss_block s n \<or> pmt_eq (ss_block s n) (ss_block s' n)) \<and>
    (\<forall>c. ss_contextActivated s \<longrightarrow> ss_contextBefore s = Some c \<longrightarrow> map_of (ss_stored s) (cx_context c) \<noteq> None \<longrightarrow> ss_active s' = c) \<and>
    (\<forall>e. res = Inl e \<longrightarrow> e = CallbackThrew msg) \<and>
    (\<forall>r n v. res = Inr r \<longrightarrow> map_of (ar_applied r) n = Some v \<longrightarrow> pmt_eq (ss_block s n) v)"
proof -
  let ?D = "blockDescriptor F ds meta"
  have "\<forall>n. writableByName ?D n \<noteq> None \<longrightarrow> block_members.takes ?D (member_takes F ds) n (ss_block s n) \<noteq> None"
  proof (intro allI impI)
    fix n assume w: "writableByName ?D n \<noteq> None"
    then obtain d where d: "d \<in> set ds" "md_name d = n" "md_writable d"
      by (auto simp: writableByName_def find_None_iff blockDescriptor_def member_of_def split: if_splits)
    have "of_type (md_type d) (ss_block s n)" "within_limits (md_limits d) (ss_block s n)" using assms(4,5) d by (auto simp: block_ok_def)
    then show "block_members.takes ?D (member_takes F ds) n (ss_block s n) \<noteq> None"
      using takes_member [OF assms(1) d(1,3), of F "ss_block s n"] d(2) by (simp add: takes_eq [OF assms(1)] extract_same)
  qed
  from block_members.apply_refused [OF lawful_members [OF assms(1), of F meta] assms(2-4,6,7) this assms(8)] show ?thesis .
qed

definition demo_block :: block where
  "demo_block = (\<lambda>n. if n = ''stride'' \<or> n = ''input_chunk_size'' \<or> n = ''output_chunk_size'' then VUInt32 1 else if n = ''disconnect_on_done'' then VBool True
     else if n = ''ui_constraints'' then VMap [] else VString ''x'')"

definition demo_staged :: "block settings" where
  "demo_staged = (new_settings demo_block)\<lparr>ss_staged := [(''stride'', VUInt32 4), (''input_chunk_size'', VUInt32 0)]\<rparr>"

definition quiet_hooks :: "block hooks" where
  "quiet_hooks = \<lparr>hk_changed = None, hk_reset = None\<rparr>"

definition refusing_hooks :: "block hooks" where
  "refusing_hooks = \<lparr>hk_changed = Some (\<lambda>old new t. (Some ''no'', [], t)), hk_reset = None\<rparr>"

lemma demo_staged_simps [simp]:
  "ss_staged demo_staged = [(''stride'', VUInt32 4), (''input_chunk_size'', VUInt32 0)]" "ss_block demo_staged = demo_block"
  "ss_active demo_staged = no_context" "ss_stored demo_staged = []"
  by (simp_all add: demo_staged_def new_settings_def)

lemma demo_takes:
  "member_takes F (framework_members True True) ''stride'' (VUInt32 4) = Some (VUInt32 4)"
  "member_takes F (framework_members True True) ''input_chunk_size'' (VUInt32 0) = None"
  by (simp_all add: member_takes_def framework_members_def Let_def extractStagedValue_def holds_scalar_def target_of_def int_of_def within_limits_def
      number_of_def float_of_def validate_def same_number_type_def chunk_limits_def unbounded_def pmt_of_def of_kind_def withinBounds_def
      highest_def kind_digits_def kind_bits_def is_signed_def pmt_simps)

lemma demo_members: "distinct (map md_name (framework_members True True))" "block_ok (framework_members True True) demo_block"
  "\<forall>d \<in> set (framework_members True True). within_limits (md_limits d) (demo_block (md_name d))"
  by (simp_all add: framework_members_def Let_def block_ok_def demo_block_def of_type_def holds_scalar_def target_of_def int_of_def float_of_def is_string_def
      is_map_def container_type_of_def within_limits_def number_of_def validate_def same_number_type_def chunk_limits_def unbounded_def pmt_of_def
      of_kind_def withinBounds_def highest_def kind_digits_def kind_bits_def is_signed_def pmt_simps)

lemma demo_decls:
  "\<exists>d \<in> set (framework_members True True). md_name d = ''stride'' \<and> md_writable d"
  "\<exists>d \<in> set (framework_members True True). md_name d = ''input_chunk_size'' \<and> md_writable d"
  by (simp_all add: framework_members_def Let_def)

lemma apply_settles_batch_witness:
  "\<exists>r s'. applyStagedParametersImpl (blockDescriptor (\<lambda>_ _. None) (framework_members True True) None) quiet_hooks (\<lambda>_. 5) demo_staged = (Inr r, s') \<and>
    ss_block s' ''stride'' = VUInt32 4 \<and> ss_block s' ''input_chunk_size'' = VUInt32 1 \<and>
    map_of (ar_applied r) ''stride'' = Some (VUInt32 4) \<and> map_of (ar_failed r) ''input_chunk_size'' = Some (VUInt32 0)"
proof -
  have h: "map_of (ss_staged demo_staged) reset_key = None" "distinct (map fst (ss_staged demo_staged))"
    "\<forall>callback. hk_changed quiet_hooks = Some callback \<longrightarrow> (\<forall>old new t. fst (callback old new t) = None \<and> snd (snd (callback old new t)) = t)"
    by (simp_all add: reset_key_def gr_key_def quiet_hooks_def)
  obtain r s' where r: "applyStagedParametersImpl (blockDescriptor (\<lambda>_ _. None) (framework_members True True) None) quiet_hooks (\<lambda>_. 5) demo_staged = (Inr r, s')"
    and m: "\<forall>d \<in> set (framework_members True True). let n = md_name d in
       if \<not> md_writable d then ss_block s' n = ss_block demo_staged n
       else map_of (ss_activeParams s') n = Some (ss_block s' n) \<and>
         (case map_of (ss_staged demo_staged) n of
            None \<Rightarrow> ss_block s' n = ss_block demo_staged n \<and> map_of (ar_applied r) n = None \<and> map_of (ar_failed r) n = None
          | Some v \<Rightarrow>
              (case member_takes (\<lambda>_ _. None) (framework_members True True) n v of
                 None \<Rightarrow> ss_block s' n = ss_block demo_staged n \<and> map_of (ar_applied r) n = None \<and> map_of (ar_failed r) n = Some v
               | Some w \<Rightarrow> ss_block s' n = w \<and> of_type (md_type d) w \<and> within_limits (md_limits d) w \<and>
                   map_of (ar_applied r) n = Some v \<and> map_of (ar_failed r) n = None))"
    using apply_settles_batch [OF demo_members(1) h, of "\<lambda>_ _. None" None "\<lambda>_. 5"] by blast
  obtain d e where de: "d \<in> set (framework_members True True)" "md_name d = ''stride''" "md_writable d"
    "e \<in> set (framework_members True True)" "md_name e = ''input_chunk_size''" "md_writable e" using demo_decls by blast
  have "ss_block s' ''stride'' = VUInt32 4" "map_of (ar_applied r) ''stride'' = Some (VUInt32 4)"
    "ss_block s' ''input_chunk_size'' = VUInt32 1" "map_of (ar_failed r) ''input_chunk_size'' = Some (VUInt32 0)"
    using bspec [OF m de(1)] bspec [OF m de(4)] de(2,3,5,6) by (simp_all add: Let_def demo_takes demo_block_def)
  with r show ?thesis by blast
qed

lemma refused_batch_restored_witness:
  "ss_block (snd (applyStagedParametersImpl (blockDescriptor (\<lambda>_ _. None) (framework_members True True) None) refusing_hooks (\<lambda>_. 5) demo_staged)) ''stride'' = VUInt32 1"
proof -
  have h: "map_of (ss_staged demo_staged) reset_key = None" "distinct (map fst (ss_staged demo_staged))"
    "block_ok (framework_members True True) (ss_block demo_staged)"
    "\<forall>d \<in> set (framework_members True True). within_limits (md_limits d) (ss_block demo_staged (md_name d))"
    using demo_members by (simp_all add: reset_key_def gr_key_def)
  have "hk_changed refusing_hooks = Some (\<lambda>old new t. (Some ''no'', [], t))" by (simp add: refusing_hooks_def)
  from refused_batch_restored [OF demo_members(1) h this, of "''no''" "\<lambda>_ _. None" None "\<lambda>_. 5"]
  have "ss_block (snd (applyStagedParametersImpl (blockDescriptor (\<lambda>_ _. None) (framework_members True True) None) refusing_hooks (\<lambda>_. 5) demo_staged)) n = demo_block n \<or>
      pmt_eq (demo_block n) (ss_block (snd (applyStagedParametersImpl (blockDescriptor (\<lambda>_ _. None) (framework_members True True) None) refusing_hooks (\<lambda>_. 5) demo_staged)) n)" for n
    by (metis (no_types, lifting) demo_staged_simps(2) fst_conv prod.collapse snd_conv)
  moreover have "pmt_eq (VUInt32 1) v \<longleftrightarrow> v = VUInt32 1" for v by (cases v) (auto simp: pmt_simps)
  ultimately show ?thesis by (metis demo_block_def)
qed

section \<open>Limits\<close>

lemma le_div_int: "0 < (d :: int) \<Longrightarrow> l \<le> m div d \<longleftrightarrow> l * d \<le> m"
proof
  assume d: "0 < d"
  show "l * d \<le> m" if "l \<le> m div d"
  proof -
    have "(m div d) * d \<le> m" using pos_mod_sign [OF d, of m] by (simp add: minus_mod_eq_div_mult [symmetric])
    then show ?thesis using mult_right_mono [OF that, of d] d by linarith
  qed
  show "l \<le> m div d" if "l * d \<le> m"
    using zdiv_mono1 [OF that d] d by simp
qed

lemma floor_bound: "l \<le> scaled_int x \<longleftrightarrow> \<not> scaled_less x l"
  by (cases x) (auto simp: scaled_int_def scaled_less_def le_div_int not_less)

lemma ceil_bound: "scaled_ceil x \<le> u \<longleftrightarrow> scaled_leq x u"
proof -
  obtain m e where x: "x = (m, e)" by (cases x)
  have "- u \<le> (- m) div 2 ^ nat (- e) \<longleftrightarrow> m \<le> u * 2 ^ nat (- e)" by (subst le_div_int) auto
  then show ?thesis using x by (auto simp: scaled_ceil_def scaled_int_def scaled_leq_def)
qed

lemma scaled_order: "scaled_less x k \<Longrightarrow> k \<le> l \<Longrightarrow> scaled_less x l" "scaled_leq x k \<Longrightarrow> k < l \<Longrightarrow> scaled_less x l"
    "scaled_leq x k \<Longrightarrow> k \<le> l \<Longrightarrow> scaled_leq x l"
proof -
  have p: "a * 2 ^ n \<le> b * 2 ^ n" if "a \<le> b" for a b :: int and n using that by simp
  have q: "a * 2 ^ n < b * 2 ^ n" if "a < b" for a b :: int and n using that by simp
  show "scaled_less x k \<Longrightarrow> k \<le> l \<Longrightarrow> scaled_less x l" "scaled_leq x k \<Longrightarrow> k < l \<Longrightarrow> scaled_less x l" "scaled_leq x k \<Longrightarrow> k \<le> l \<Longrightarrow> scaled_leq x l"
    using p [of k l] q [of k l] by (cases x; force simp: scaled_less_def scaled_leq_def intro: less_le_trans le_less_trans order_trans split: if_splits)+
qed

lemma integer_equal: "pmt_eq (VInt8 a1) v \<longleftrightarrow> v = VInt8 a1" "pmt_eq (VInt16 a2) v \<longleftrightarrow> v = VInt16 a2" "pmt_eq (VInt32 a3) v \<longleftrightarrow> v = VInt32 a3"
    "pmt_eq (VInt64 a4) v \<longleftrightarrow> v = VInt64 a4" "pmt_eq (VUInt8 b1) v \<longleftrightarrow> v = VUInt8 b1" "pmt_eq (VUInt16 b2) v \<longleftrightarrow> v = VUInt16 b2"
    "pmt_eq (VUInt32 b3) v \<longleftrightarrow> v = VUInt32 b3" "pmt_eq (VUInt64 b4) v \<longleftrightarrow> v = VUInt64 b4"
  by (cases v; auto simp: pmt_simps)+

lemma of_kind_equal:
  assumes "in_kind B l" "in_kind B u"
  shows "pmt_eq (of_kind B l) (of_kind B u) \<longleftrightarrow> l = u"
proof -
  have "pmt_eq (of_kind B l) w \<longleftrightarrow> w = of_kind B l" for w
    unfolding of_kind_def by (cases B) (simp_all only: int_kind.case integer_equal)
  moreover have "of_kind B u = of_kind B l \<longleftrightarrow> l = u"
    using int_of_of_kind [OF assms(1)] int_of_of_kind [OF assms(2)] by (metis option.inject prod.inject)
  ultimately show ?thesis by (simp only:)
qed



end
