(* ===== verification/MemberTypes.thy ===== *)
theory MemberTypes
  imports Members
begin

text \<open>
  The types of a block's members are an invariant of its settings: whatever is set, activated, removed and applied, the
  block, the defaults and every stored set hold values of the members' types only. Staged values may be of another type,
  for a tag stages the text of an enumeration as it is; the apply converts or rejects them.
\<close>

section \<open>Well-typed settings\<close>

definition typed_map :: "member_decl list \<Rightarrow> property_map \<Rightarrow> bool" where
  "typed_map ds m \<longleftrightarrow> (\<forall>d \<in> set ds. \<forall>v. md_writable d \<longrightarrow> map_of m (md_name d) = Some v \<longrightarrow> of_type (md_type d) v)"

definition typed_stored :: "member_decl list \<Rightarrow> stored \<Rightarrow> bool" where
  "typed_stored ds st \<longleftrightarrow> (\<forall>e \<in> set st. \<forall>p \<in> set (snd e). typed_map ds (snd p))"

definition well_typed :: "member_decl list \<Rightarrow> block settings \<Rightarrow> bool" where
  "well_typed ds s \<longleftrightarrow> block_ok ds (ss_block s) \<and> typed_map ds (ss_defaults s) \<and> typed_stored ds (ss_stored s)"

text \<open>Writing the meta information touches no member with a type.\<close>

definition meta_apart :: "member_decl list \<Rightarrow> block meta_hook option \<Rightarrow> bool" where
  "meta_apart ds meta \<longleftrightarrow> (\<forall>h m b. meta = Some h \<longrightarrow> (\<forall>d \<in> set ds. mt_write h m b (md_name d) = b (md_name d)))"

lemma typed_map_Nil [simp]: "typed_map ds []"
  by (simp add: typed_map_def)

lemma typed_map_update:
  assumes "typed_map ds m" "\<And>d. d \<in> set ds \<Longrightarrow> md_name d = k \<Longrightarrow> md_writable d \<Longrightarrow> of_type (md_type d) v"
  shows "typed_map ds (AList.update k v m)"
  using assms by (auto simp: typed_map_def update_conv' split: if_splits)

lemma typed_at: "typed_stored ds st \<Longrightarrow> p \<in> set (stored_at c st) \<Longrightarrow> typed_map ds (snd p)"
  by (cases "map_of st c") (auto simp: typed_stored_def stored_at_def dest: map_of_SomeD)

lemma typed_put:
  assumes "typed_stored ds st" "\<And>p. p \<in> set v \<Longrightarrow> typed_map ds (snd p)"
  shows "typed_stored ds (stored_put c v st)"
  using assms set_stored_put_pairs [of c v st] by (fastforce simp: typed_stored_def)

lemma typed_prune: "typed_stored ds st \<Longrightarrow> typed_stored ds (map (\<lambda>(c, vec). (c, prune e now vec)) st)"
  by (fastforce simp: typed_stored_def prune_def drop_expired_def Let_def dest: in_set_dropD split: if_splits)

lemma typed_added:
  assumes "typed_stored ds st" "typed_map ds new"
  shows "typed_stored ds (fst (addStoredParameters P w new ctx (st, au)))"
  using assms typed_at by (fastforce simp: addStoredParameters_def set_insert_sorted intro!: typed_put)

lemma typed_removed: "typed_stored ds st \<Longrightarrow> typed_stored ds (fst (removeExpiredStoredParameters e now (st, au)))"
  by (simp add: removeExpiredStoredParameters_def typed_prune)

lemma typed_best: "typed_stored ds (ss_stored s) \<Longrightarrow> best_stored s c = Some m \<Longrightarrow> typed_map ds m"
  using typed_at by (fastforce simp: best_stored_def getBestMatchStoredParameters_def dest!: map_of_SomeD split: option.splits)

section \<open>Operations on the stored sets\<close>

lemma writable_found:
  assumes "writableByName (blockDescriptor F ds meta) k = Some m"
  shows "\<exists>d \<in> set ds. md_name d = k \<and> md_writable d \<and> m = member_of F d"
proof -
  have m: "m \<in> set (map (member_of F) ds)" "mb_name m = k" "mb_set m \<noteq> None"
    using assms by (auto simp: writableByName_def find_Some_iff blockDescriptor_def)
  then obtain d where d: "d \<in> set ds" "m = member_of F d" by auto
  moreover have "md_writable d" using m(3) d(2) by (cases "md_writable d") (simp_all add: member_of_def)
  moreover have "md_name d = k" using m(2) d(2) by (simp add: member_of_def)
  ultimately show ?thesis by blast
qed

lemma set_params_typed:
  assumes "distinct (map md_name ds)"
  shows "set_params (blockDescriptor F ds meta) ps (new, auto, ret) = Inr (new', auto', ret') \<Longrightarrow> typed_map ds new \<Longrightarrow> typed_map ds new'"
proof (induction ps arbitrary: new auto ret)
  case (Cons p ps)
  obtain k v where p: "p = (k, v)" by (cases p)
  show ?case
  proof (cases "is_monostate v")
    case True
    then show ?thesis using Cons p by simp
  next
    case False
    show ?thesis
    proof (cases "writableByName (blockDescriptor F ds meta) k")
      case None
      then show ?thesis using Cons p False by simp
    next
      case (Some m)
      then obtain d where d: "d \<in> set ds" "md_name d = k" "md_writable d" "m = member_of F d" using writable_found by blast
      have only: "e = d" if "e \<in> set ds" "md_name e = k" for e
        using assms that d by (metis distinct_map inj_on_eq_iff)
      obtain w where w: "convertParameter F (md_type d) v = Inr w"
        and rest: "set_params (blockDescriptor F ds meta) ps (AList.update k w new, auto - {k}, ret) = Inr (new', auto', ret')"
        using Cons.prems(1) p False Some d(3,4) by (auto simp: member_of_def split: sum.splits if_splits)
      show ?thesis
        using convert_of_type [OF w] only by (intro Cons.IH [OF rest] typed_map_update [OF Cons.prems(2)]) blast
    qed
  qed
qed simp

lemma set_typed:
  assumes "distinct (map md_name ds)" "meta_apart ds meta" "well_typed ds s"
  shows "well_typed ds (snd (setImpl (blockDescriptor F ds meta) clk params ctx s))"
proof -
  let ?D = "blockDescriptor F ds meta" and ?c = "at_now (clk 0) ctx"
  have refl: "ds_reflectable ?D" by (simp add: blockDescriptor_def)
  have meta: "block_ok ds (to_meta ?D ret (ss_block s))" for ret
    using assms(2,3) by (cases meta) (auto simp: to_meta_def blockDescriptor_def block_ok_def well_typed_def meta_apart_def)
  have start: "typed_map ds (value_or (best_stored s ?c) (ss_defaults s))"
    using assms(3) typed_best [of ds s ?c] by (auto simp: value_or_def well_typed_def split: option.split)
  show ?thesis
  proof (cases "refuseStoredSet (ss_stored s) ?c (clk 0 < cx_time ?c) (clk 0)")
    case (Some r)
    then show ?thesis using assms(3) refl by (simp add: setImpl_def Let_def)
  next
    case None
    show ?thesis
    proof (cases "set_params ?D params (value_or (best_stored s ?c) (ss_defaults s), start_auto ?D ?c s, [])")
      case (Inl e)
      then show ?thesis using assms(3) refl None by (simp add: setImpl_def Let_def)
    next
      case (Inr x)
      obtain new auto ret where x: "x = (new, auto, ret)" by (cases x)
      have new: "typed_map ds new" by (rule set_params_typed [OF assms(1) Inr [unfolded x] start])
      have "typed_stored ds (ss_stored (store_set ?D (clk 1) new auto ?c s))"
        using typed_removed [OF typed_added [OF _ new]] assms(3)
        by (simp add: store_set_def well_typed_def split_beta) (metis prod.collapse)
      moreover have "ss_defaults (store_set ?D (clk 1) new auto ?c s) = ss_defaults s" by (simp add: store_set_def split_beta)
      ultimately show ?thesis using assms(3) refl None Inr x meta by (simp add: setImpl_def Let_def well_typed_def)
    qed
  qed
qed

section \<open>Contexts\<close>

text \<open>What an operation leaves of the parts that have types.\<close>

definition same_values :: "'b settings \<Rightarrow> 'b settings \<Rightarrow> bool" where
  "same_values s s' \<longleftrightarrow> ss_block s' = ss_block s \<and> ss_defaults s' = ss_defaults s \<and> ss_stored s' = ss_stored s"

lemma same_values_typed: "same_values s s' \<Longrightarrow> well_typed ds s' \<longleftrightarrow> well_typed ds s"
  by (simp add: same_values_def well_typed_def)

lemma setStaged_same: "same_values s (snd (setStagedImpl D ps s))"
  by (simp add: setStagedImpl_def same_values_def Let_def split: sum.split prod.split)

lemma activate_same: "same_values s (snd (activateContextImpl D now ctx s))"
proof -
  have "ss_block s2 = ss_block s \<and> ss_defaults s2 = ss_defaults s \<and> ss_stored s2 = ss_stored s"
    if "setStagedImpl D ps (fill_auto D b s) = (r, s2)" for ps b r s2
    using setStaged_same [of "fill_auto D b s" D ps] that by (simp add: same_values_def fill_auto_def del: setStaged_stored split: if_splits)
  then show ?thesis by (auto simp: activateContextImpl_def Let_def same_values_def split: option.split sum.split prod.split)
qed

lemma remove_set_typed: "well_typed ds s \<Longrightarrow> well_typed ds (remove_set c i now s)"
proof -
  assume ok: "well_typed ds s"
  let ?vec = "stored_at c (ss_stored s)"
  have st: "typed_stored ds (ss_stored s)" using ok by (simp add: well_typed_def)
  have "typed_map ds (snd p)" if "p \<in> set (take i ?vec @ drop (i + 1) ?vec)" for p
    using that typed_at [OF st, of p c] by (auto dest: in_set_takeD in_set_dropD)
  then have "typed_stored ds (stored_put c (take i ?vec @ drop (i + 1) ?vec) (ss_stored s))" by (intro typed_put [OF st])
  moreover have "typed_stored ds (AList.delete c (ss_stored s))" using st set_delete_pairs [of c "ss_stored s"] by (auto simp: typed_stored_def)
  moreover have "ss_block (remove_set c i now s) = ss_block s" "ss_defaults (remove_set c i now s) = ss_defaults s"
    "ss_stored (remove_set c i now s) = (if take i ?vec @ drop (i + 1) ?vec = [] then AList.delete c (ss_stored s)
       else stored_put c (take i ?vec @ drop (i + 1) ?vec) (ss_stored s))"
    by (simp_all add: remove_set_def Let_def)
  ultimately show ?thesis using ok by (simp add: well_typed_def)
qed

lemma remove_typed:
  assumes "well_typed ds s"
  shows "well_typed ds (snd (removeContextImpl D clk ctx s))"
proof -
  have "same_values t (snd (leave_context D now c t))" for now c t
    using activate_same [of t D now no_context]
    by (auto simp: leave_context_def same_values_def simp del: activate_stored split: sum.split prod.split)
  then have "well_typed ds (snd (leave_context D now c (remove_set c i t s)))" for now c i t
    using remove_set_typed [OF assms] same_values_typed by blast
  then show ?thesis using assms by (simp add: removeContextImpl_def Let_def)
qed

section \<open>Applying and resetting\<close>

lemma read_typed:
  assumes "distinct (map md_name ds)" "block_ok ds b"
  shows "typed_map ds (read_members (blockDescriptor F ds meta) b m)"
proof -
  have "map_of (read_members (blockDescriptor F ds meta) b m) (md_name d) = Some (b (md_name d))" if "d \<in> set ds" "md_writable d" for d
    using block_members.read_writable [OF lawful_members [OF assms(1), of F meta]] writable_decl [OF assms(1) that(1), of F meta] that(2) by blast
  then show ?thesis using assms(2) by (simp add: typed_map_def block_ok_def)
qed

lemma defaults_typed: "distinct (map md_name ds) \<Longrightarrow> well_typed ds s \<Longrightarrow> well_typed ds (storeDefaults (blockDescriptor F ds meta) s)"
  using read_typed [of ds "ss_block s" F meta "ss_defaults s"] by (simp add: storeDefaults_def storeCurrentParameters_def well_typed_def)

lemma stage_defaults_typed:
  assumes "well_typed ds s"
  shows "well_typed ds (snd (stageDefaultsImpl D clk s))"
proof (cases "refused_defaults D (cx_context (ss_active s) \<noteq> VString []) (value_or (best_auto s (no_context\<lparr>cx_time := clk 0\<rparr>)) (writableMembers D)) (ss_defaults s) = []")
  case False
  then show ?thesis using assms by (simp add: stageDefaultsImpl_def Let_def)
next
  case True
  obtain st au where a: "addStoredParameters (ss_pred s) (writableMembers D) (ss_defaults s) (no_context\<lparr>cx_time := clk 0\<rparr>) (ss_stored s, ss_auto s) = (st, au)"
    by (metis surj_pair)
  let ?t = "s\<lparr>ss_stored := st, ss_auto := au\<rparr>"
  have "typed_stored ds (ss_stored s)" "typed_map ds (ss_defaults s)" using assms by (simp_all add: well_typed_def)
  from typed_added [OF this, of "ss_pred s" "writableMembers D" "no_context\<lparr>cx_time := clk 0\<rparr>" "ss_auto s"]
  have "well_typed ds ?t" using assms a by (simp add: well_typed_def)
  then have w: "well_typed ds (snd (activateContextImpl D (clk 1) no_context ?t))" using activate_same same_values_typed by blast
  then show ?thesis using True a
    by (cases "activateContextImpl D (clk 1) no_context ?t") (auto simp: stageDefaultsImpl_def Let_def all_follow_def well_typed_def simp del: activate_stored split: sum.split)
qed

lemma reset_typed:
  assumes "well_typed ds s"
  shows "well_typed ds (snd (reset_batch D clk bt s))"
proof (cases "map_of (bt_values bt) reset_key = None")
  case False
  obtain r s1 where r: "stageDefaultsImpl D clk s = (r, s1)" by (metis surj_pair)
  then have "well_typed ds s1" using stage_defaults_typed [OF assms, of D clk] by simp
  moreover have "typed_stored ds (fst (removeExpiredStoredParameters (ss_expiry s1) (clk 2) (ss_stored s1, ss_auto s1)))"
    using calculation by (simp add: well_typed_def typed_removed)
  ultimately show ?thesis using False r
    by (cases "removeExpiredStoredParameters (ss_expiry s1) (clk 2) (ss_stored s1, ss_auto s1)"; cases r) (auto simp: reset_batch_def Let_def well_typed_def)
qed (use assms in \<open>simp add: reset_batch_def\<close>)

lemma apply_members_typed:
  assumes "distinct (map md_name ds)"
  shows "apply_members (blockDescriptor F ds meta) hc ps (b, ap, st, fa) = (b', ap', st', fa') \<Longrightarrow> block_ok ds b \<Longrightarrow> block_ok ds b'"
proof (induction ps arbitrary: b ap st fa)
  case (Cons p ps)
  obtain k v where p: "p = (k, v)" by (cases p)
  show ?case
  proof (cases "writableByName (blockDescriptor F ds meta) k")
    case None
    then show ?thesis using Cons p by simp
  next
    case (Some m)
    show ?thesis
    proof (cases "mb_apply m k v b")
      case None
      then show ?thesis using Cons p Some by simp
    next
      fix c assume c: "mb_apply m k v b = Some c"
      then have "block_ok ds c"
        using block_members.apply_one(2) [OF lawful_members [OF assms] Some c] Cons.prems(2) by blast
      then show ?thesis using Cons p Some c by simp
    qed
  qed
qed simp

lemma restore_one_typed:
  assumes "distinct (map md_name ds)" "well_typed ds s" "typed_map ds old"
  shows "well_typed ds (restore_one (blockDescriptor F ds meta) old ctx flag e s)"
proof -
  obtain k v where e: "e = (k, v)" by (cases e)
  show ?thesis
  proof (cases "writableByName (blockDescriptor F ds meta) k")
    case None
    then show ?thesis using assms e by (simp add: restore_one_def)
  next
    case (Some m)
    show ?thesis
    proof (cases "map_of old k")
      case None
      then show ?thesis using assms e Some by (simp add: restore_one_def)
    next
      fix q assume q: "map_of old k = Some q"
      show ?thesis
      proof (cases "mb_apply m k q (ss_block s)")
        case None
        then show ?thesis using assms e Some q by (simp add: restore_one_def)
      next
        fix c assume c: "mb_apply m k q (ss_block s) = Some c"
        then have ok: "block_ok ds c"
          using block_members.apply_one(2) [OF lawful_members [OF assms(1)] Some c] assms(2) by (simp add: well_typed_def)
        let ?f = "\<lambda>m. case map_of m k of None \<Rightarrow> m | Some w \<Rightarrow> if pmt_eq w v then AList.update k q m else m"
        have st: "typed_stored ds (ss_stored s)" using assms(2) by (simp add: well_typed_def)
        have f: "typed_map ds (?f m)" if "typed_map ds m" for m
          using that assms(3) q by (auto intro!: typed_map_update simp: typed_map_def [of ds old] split: option.split)
        have "typed_map ds (snd p)" if "\<forall>p \<in> set vec. typed_map ds (snd p)" "p \<in> set (put_first c ?f vec)" for c vec p
          using that f by (induction vec) (auto split: if_splits)
        then have "typed_stored ds (stored_put x (put_first y ?f (stored_at x (ss_stored s))) (ss_stored s))" for x y
          using typed_at [OF st] by (intro typed_put [OF st]) blast
        then show ?thesis using assms(2) e Some q c ok by (cases flag) (simp_all add: restore_one_def well_typed_def)
      qed
    qed
  qed
qed

lemma restore_typed:
  assumes "distinct (map md_name ds)" "typed_map ds old"
  shows "well_typed ds s \<Longrightarrow> well_typed ds (fold (restore_one (blockDescriptor F ds meta) old ctx flag) refused s)"
  by (induction refused arbitrary: s) (simp_all add: restore_one_typed [OF assms(1) _ assms(2)])

lemma write_back_typed:
  assumes "distinct (map md_name ds)" "typed_map ds old" "well_typed ds s"
  shows "well_typed ds (write_back (blockDescriptor F ds meta) now bt staged old s)"
proof -
  let ?r = "restoreRefusedImpl (blockDescriptor F ds meta) staged old (bt_ctx bt) (bt_activated bt) s"
  have r: "well_typed ds ?r" unfolding restoreRefusedImpl_def by (rule restore_typed [OF assms])
  have c: "same_values t (restoreContextImpl now e x t)" for e x t
    by (simp add: restoreContextImpl_def same_values_def Let_def split: option.split)
  have a: "same_values t (restore_auto au t)" for au t by (simp add: restore_auto_def same_values_def split: option.split)
  have u: "same_values t (updateActiveParametersImpl D t)" for D t by (simp add: updateActiveParametersImpl_def same_values_def)
  note same = same_values_typed [OF c] same_values_typed [OF a] same_values_typed [OF u]
  show ?thesis using r by (simp add: write_back_def Let_def same split: option.split)
qed

lemma finish_typed:
  assumes "distinct (map md_name ds)" "well_typed ds s" "\<forall>reset t. hk_reset H = Some reset \<longrightarrow> well_typed ds t \<longrightarrow> well_typed ds (reset t)"
  shows "well_typed ds (snd (finish_apply (blockDescriptor F ds meta) H bt batch0 tagged forward applied failed refusal s))"
proof -
  let ?D = "blockDescriptor F ds meta"
  have ch: "same_values t (t\<lparr>ss_changed := x\<rparr>)" for t :: "block settings" and x by (simp add: same_values_def)
  have u: "same_values t (updateActiveParametersImpl ?D t)" for t by (simp add: updateActiveParametersImpl_def same_values_def)
  have s1: "well_typed ds (updateActiveParametersImpl ?D s)" using assms(2) same_values_typed [OF u] by blast
  then have s2: "well_typed ds (storeDefaults ?D (updateActiveParametersImpl ?D s))" by (rule defaults_typed [OF assms(1)])
  show ?thesis
    using s1 s2 assms(3)
    by (cases "hk_reset H"; cases "map_of batch0 store_key") (simp_all add: finish_apply_def Let_def split_failed_def same_values_typed [OF ch])
qed

lemma apply_typed:
  assumes "distinct (map md_name ds)" "well_typed ds s"
    and "\<forall>callback old new t. hk_changed H = Some callback \<longrightarrow> well_typed ds t \<longrightarrow> well_typed ds (snd (snd (callback old new t)))"
    and "\<forall>reset t. hk_reset H = Some reset \<longrightarrow> well_typed ds t \<longrightarrow> well_typed ds (reset t)"
  shows "well_typed ds (snd (applyStagedParametersImpl (blockDescriptor F ds meta) H clk s))"
proof -
  define D where D: "D = blockDescriptor F ds meta"
  have refl: "ds_reflectable D" by (simp add: D blockDescriptor_def)
  define hc where hc: "hc = (hk_changed H \<noteq> None)"
  define old where old_def: "old = (if hc then storeCurrentParameters D (ss_block s) [] else [])"
  have old: "typed_map ds old" using assms(1,2) by (simp add: old_def D storeCurrentParameters_def read_typed well_typed_def)
  have u: "same_values t (updateActiveParametersImpl D t)" for t by (simp add: updateActiveParametersImpl_def same_values_def)
  have taken: "well_typed ds (taken s)" using assms(2) by (simp add: taken_def well_typed_def)
  obtain r s1 where r: "reset_batch D clk (begin_batch s) (taken s) = (r, s1)" by (metis surj_pair)
  have s1: "well_typed ds s1" using reset_typed [OF taken, of D clk "begin_batch s"] r by simp
  show ?thesis
  proof (cases r)
    case (Inl e)
    then show ?thesis using r s1 by (simp add: D [symmetric] applyStagedParametersImpl_def Let_def refl)
  next
    case (Inr bt)
    obtain b ap st fa where a: "apply_members D hc (bt_values bt) (ss_block s1, [], [], bt_failed bt) = (b, ap, st, fa)" by (metis prod_cases4)
    have "block_ok ds b" using apply_members_typed [OF assms(1) a [unfolded D]] s1 by (simp add: well_typed_def)
    then have "well_typed ds (s1\<lparr>ss_block := b\<rparr>)" using s1 by (simp add: well_typed_def)
    then have s2: "well_typed ds (updateActiveParametersImpl D (s1\<lparr>ss_block := b\<rparr>))" using same_values_typed [OF u] by blast
    have call: "well_typed ds (snd (call_back D H now bt batch0 tagged old named ap fa t))" if tt: "well_typed ds t" for now batch0 tagged named t
    proof (cases "if named = [] then None else hk_changed H")
      case None
      then show ?thesis using finish_typed [OF assms(1) tt assms(4), of F meta, folded D] by (simp add: call_back_def)
    next
      case (Some callback)
      obtain m fw t1 where c: "callback old named t = (m, fw, t1)" by (metis prod_cases3)
      have "hk_changed H = Some callback" using Some by (simp split: if_splits)
      with assms(3) tt have "well_typed ds (snd (snd (callback old named t)))" by blast
      then have t1: "well_typed ds t1" unfolding c by simp
      note wb = write_back_typed [OF assms(1) old t1, of F meta, folded D]
      show ?thesis
        using Some c finish_typed [OF assms(1) t1 assms(4), of F meta, folded D] wb finish_typed [OF assms(1) wb assms(4), of F meta, folded D]
        by (cases m) (simp_all add: call_back_def Let_def)
    qed
    show ?thesis using call [OF s2] r Inr a
      by (simp add: D [symmetric] applyStagedParametersImpl_def Let_def refl hc [symmetric] old_def [symmetric] del: not_None_eq)
  qed
qed

lemma keep_typed: "same_values t t' \<Longrightarrow> well_typed ds t \<Longrightarrow> well_typed ds t'"
  using same_values_typed by blast

lemma autoUpdate_same: "same_values s (snd (autoUpdate D F clk t s))"
proof -
  have act: "same_values s s'" if "activateContextImpl D now c s = (r, s')" for now c r s'
    using activate_same [of s D now c] that by simp
  have coupled: "same_values u (snd (fold (\<lambda>c (changed, t). case coupled_value D ps ch auto u0 c of
       None \<Rightarrow> (changed, t)
     | Some v \<Rightarrow> (True, t\<lparr>ss_staged := AList.update (fst c) v (ss_staged t), ss_tagged := insert (fst c) (ss_tagged t)\<rparr>)) cs (fl, t)))"
    if "same_values u t" for u u0 t fl cs ps ch auto
    using that by (induction cs arbitrary: fl t) (auto simp: same_values_def split: option.splits)
  have st: "same_values u (snd (stage_coupled D ps ch auto u))" for u ps ch auto
    unfolding stage_coupled_def by (rule coupled) (simp add: same_values_def)
  have au: "same_values u (snd (auto_update_of D now c u))" for now c u
    by (simp add: auto_update_of_def same_values_def Let_def fill_auto_def)
  define c0 where "c0 = createSettingsCtxFromTag F (clk 0) t"
  obtain r :: "settings_error + settings_ctx" and s1 where r: "(case c0 of None \<Rightarrow> (Inr (ss_active s), s)
      | Some c \<Rightarrow> (case activateContextImpl D (clk 1) c s of
            (Inl e, s') \<Rightarrow> (Inl e, s')
          | (Inr best, s') \<Rightarrow> (Inr (value_or best (ss_active s')), s'\<lparr>ss_tagged := tagged_by_activation s s'\<rparr>))) = (r, s1)"
    by (cases "case c0 of None \<Rightarrow> (Inr (ss_active s), s)
      | Some c \<Rightarrow> (case activateContextImpl D (clk 1) c s of
            (Inl e, s') \<Rightarrow> (Inl e, s')
          | (Inr best, s') \<Rightarrow> (Inr (value_or best (ss_active s')), s'\<lparr>ss_tagged := tagged_by_activation s s'\<rparr>))") (rule that)
  have s1: "same_values s s1"
    using r act by (auto simp: same_values_def split: option.splits prod.splits sum.splits)
  show ?thesis
  proof (cases "ds_reflectable D")
    case False
    then show ?thesis by (simp add: autoUpdate_def same_values_def)
  next
    case refl: True
    show ?thesis
    proof (cases r)
      case (Inl e)
      have "autoUpdate D F clk t s = (Some e, s1)"
        unfolding autoUpdate_def Let_def c0_def [symmetric] r Inl using refl by simp
      then show ?thesis using s1 by simp
    next
      case (Inr ctx)
      obtain auto s2 where s2: "auto_update_of D (clk 2) ctx s1 = (auto, s2)" by (metis surj_pair)
      let ?s3 = "s2\<lparr>ss_staged := control_staged (tag_map t) (ss_staged s2)\<rparr>"
      obtain coupled s4 where s4: "stage_coupled D (tag_map t) (ss_active s \<noteq> ctx) auto ?s3 = (coupled, s4)" by (metis surj_pair)
      have same: "same_values s s4"
        using s1 au [of s1 "clk 2" ctx] st [of ?s3 "tag_map t" "ss_active s \<noteq> ctx" auto] s2 s4 by (simp add: same_values_def)
      have same_changed: "same_values s (s4\<lparr>ss_changed := x\<rparr>)" for x using same by (simp add: same_values_def)
      have "snd (autoUpdate D F clk t s) \<in> {s4, s4\<lparr>ss_changed := False\<rparr>, s4\<lparr>ss_changed := True\<rparr>}"
        unfolding autoUpdate_def Let_def c0_def [symmetric] r Inr prod.case sum.case s2 s4 using refl by simp
      then show ?thesis using same same_changed by auto
    qed
  qed
qed

section \<open>Everything a client can do with a block's settings\<close>

text \<open>One call of the settings' interface; the clock readings of each call are arbitrary.\<close>

inductive settings_step :: "'b descriptor \<Rightarrow> 'b hooks \<Rightarrow> float_parser \<Rightarrow> 'b settings \<Rightarrow> 'b settings \<Rightarrow> bool"
  for D H F where
  step_set: "settings_step D H F s (snd (setImpl D clk params ctx s))"
| step_stage: "settings_step D H F s (snd (setStagedImpl D params s))"
| step_activate: "settings_step D H F s (snd (activateContextImpl D now ctx s))"
| step_remove: "settings_step D H F s (snd (removeContextImpl D clk ctx s))"
| step_tag: "settings_step D H F s (snd (autoUpdate D F clk t s))"
| step_keys: "settings_step D H F s (snd (autoUpdateParameters ctx s))"
| step_couple: "settings_step D H F s (snd (setTagCouplings D cs s))"
| step_defaults: "settings_step D H F s (storeDefaults D s)"
| step_apply: "settings_step D H F s (snd (applyStagedParametersImpl D H clk s))"
| step_reset: "settings_step D H F s (snd (resetDefaults D H clk s))"
| step_init: "settings_step D H F s (snd (settings_init D clk s))"
| step_load: "settings_step D H F s (snd (loadParametersFromPropertyMap D clk params ctx s))"

definition keeps_types :: "member_decl list \<Rightarrow> block hooks \<Rightarrow> bool" where
  "keeps_types ds H \<longleftrightarrow>
     (\<forall>callback old new t. hk_changed H = Some callback \<longrightarrow> well_typed ds t \<longrightarrow> well_typed ds (snd (snd (callback old new t)))) \<and>
     (\<forall>reset t. hk_reset H = Some reset \<longrightarrow> well_typed ds t \<longrightarrow> well_typed ds (reset t))"

lemma resetDefaults_typed:
  assumes "distinct (map md_name ds)" "keeps_types ds H" "well_typed ds s"
  shows "well_typed ds (snd (resetDefaults (blockDescriptor F ds meta) H clk s))"
proof -
  define D where D: "D = blockDescriptor F ds meta"
  have drop: "well_typed ds (t\<lparr>ss_stored := fst (removeExpiredStoredParameters (ss_expiry t) now (ss_stored t, ss_auto t)), ss_auto := au\<rparr>)"
    if "well_typed ds t" for t :: "block settings" and now au using that typed_removed by (simp add: well_typed_def)
  obtain r s1 where r: "stageDefaultsImpl D clk s = (r, s1)" by (metis surj_pair)
  have s1: "well_typed ds s1" using stage_defaults_typed [OF assms(3), of D clk] r by simp
  let ?t = "s1\<lparr>ss_staged := AList.delete reset_key (ss_staged s1)\<rparr>"
  have t: "well_typed ds ?t" using s1 by (simp add: well_typed_def)
  obtain r2 s2 where r2: "applyStagedParametersImpl D H (\<lambda>i. clk (i + 2)) ?t = (r2, s2)" by (metis surj_pair)
  have s2: "well_typed ds s2"
    using apply_typed [OF assms(1) t, of H F meta "\<lambda>i. clk (i + 2)"] assms(2) r2 by (simp add: keeps_types_def D)
  obtain st au where e: "removeExpiredStoredParameters (ss_expiry s2) (clk 6) (ss_stored s2, ss_auto s2) = (st, au)" by (metis surj_pair)
  have s3: "well_typed ds (s2\<lparr>ss_stored := st, ss_auto := au\<rparr>)" using drop [OF s2, of au "clk 6"] e by simp
  show ?thesis unfolding D [symmetric]
    using r r2 e s1 s2 s3 assms(2) by (cases r; cases r2; cases "hk_reset H") (simp_all add: resetDefaults_def keeps_types_def)
qed

lemma init_typed:
  assumes "distinct (map md_name ds)" "meta_apart ds meta" "well_typed ds s"
  shows "well_typed ds (snd (settings_init (blockDescriptor F ds meta) clk s))"
proof -
  define D where D: "D = blockDescriptor F ds meta"
  let ?s = "storeDefaults D s"
  obtain r s1 where r: "setImpl D (\<lambda>i. clk (i + 1)) (ss_init ?s) no_context ?s = (r, s1)" by (metis surj_pair)
  have s1: "well_typed ds s1"
    using set_typed [OF assms(1,2) defaults_typed [OF assms(1,3), of F meta], of F "\<lambda>i. clk (i + 1)" "ss_init ?s" no_context] r by (simp add: D)
  obtain r2 s2 where r2: "activateContextImpl D (clk 3) no_context s1 = (r2, s2)" by (metis surj_pair)
  have s2: "well_typed ds s2" using keep_typed [OF activate_same s1, of D "clk 3" no_context] r2 by simp
  have au: "well_typed ds (s2\<lparr>ss_auto := x\<rparr>)" for x using s2 by (simp add: well_typed_def)
  have best: "best_ctx (storeDefaults D s) = best_ctx s" by (rule ext) (simp add: storeDefaults_def best_ctx_def)
  show ?thesis unfolding D [symmetric]
    using r r2 s1 s2 au by (cases r; cases r2; cases "projr r2") (simp_all add: settings_init_def Let_def split: option.split)
qed

lemma load_typed:
  assumes "distinct (map md_name ds)" "meta_apart ds meta" "well_typed ds s"
  shows "well_typed ds (snd (loadParametersFromPropertyMap (blockDescriptor F ds meta) clk ps ctx s))"
proof -
  have w: "well_typed ds (case meta of None \<Rightarrow> s | Some h \<Rightarrow> s\<lparr>ss_block := mt_write h m (ss_block s)\<rparr>)" if "\<forall>h. meta = Some h \<longrightarrow> m = f h" for m f
    using assms(2,3) by (cases meta) (simp_all add: well_typed_def block_ok_def meta_apart_def)
  have s: "snd (loadParametersFromPropertyMap (blockDescriptor F ds meta) clk ps ctx s) =
      snd (setImpl (blockDescriptor F ds meta) clk qs ctx (case meta of None \<Rightarrow> s | Some h \<Rightarrow> s\<lparr>ss_block := mt_write h (stage_all ms (mt_read h (ss_block s))) (ss_block s)\<rparr>))"
    if "qs = [e \<leftarrow> ps. writableByName (blockDescriptor F ds meta) (fst e) \<noteq> None]"
      "ms = (if string_or [] (cx_context ctx) = [] then [e \<leftarrow> ps. writableByName (blockDescriptor F ds meta) (fst e) = None] else [])" for qs ms
    unfolding loadParametersFromPropertyMap_def Let_def that by (simp add: blockDescriptor_def split: sum.split prod.split)
  have "well_typed ds (case meta of None \<Rightarrow> s | Some h \<Rightarrow> s\<lparr>ss_block := mt_write h (stage_all ms (mt_read h (ss_block s))) (ss_block s)\<rparr>)" for ms
    using assms(2,3) by (cases meta) (simp_all add: well_typed_def block_ok_def meta_apart_def)
  then show ?thesis unfolding s [OF refl refl] by (rule set_typed [OF assms(1,2)])
qed

lemma step_typed:
  assumes "distinct (map md_name ds)" "meta_apart ds meta" "keeps_types ds H" "settings_step (blockDescriptor F ds meta) H F s t" "well_typed ds s"
  shows "well_typed ds t"
  using assms(4,5)
proof (cases rule: settings_step.cases)
  case step_set
  then show ?thesis using set_typed [OF assms(1,2,5)] by simp
next
  case step_stage
  then show ?thesis using keep_typed [OF setStaged_same assms(5)] by simp
next
  case step_activate
  then show ?thesis using keep_typed [OF activate_same assms(5)] by simp
next
  case step_remove
  then show ?thesis using remove_typed [OF assms(5)] by simp
next
  case step_tag
  then show ?thesis using keep_typed [OF autoUpdate_same assms(5)] by simp
next
  case step_keys
  have "same_values s (snd (autoUpdateParameters c s))" for c by (simp add: autoUpdateParameters_def same_values_def split: option.split)
  then show ?thesis using keep_typed assms(5) step_keys by blast
next
  case step_couple
  have "same_values s (snd (setTagCouplings D cs s))" for D cs by (simp add: setTagCouplings_def same_values_def split: sum.split prod.split)
  then show ?thesis using keep_typed assms(5) step_couple by blast
next
  case step_defaults
  then show ?thesis using defaults_typed [OF assms(1,5)] by simp
next
  case step_apply
  then show ?thesis using apply_typed [OF assms(1,5)] assms(3) by (simp add: keeps_types_def)
next
  case step_reset
  then show ?thesis using resetDefaults_typed [OF assms(1,3,5)] by simp
next
  case step_init
  then show ?thesis using init_typed [OF assms(1,2,5)] by simp
next
  case step_load
  then show ?thesis using load_typed [OF assms(1,2,5)] by simp
qed

section \<open>The property\<close>

text \<open>
  C3. Types are an invariant. Whatever a client does with a block's settings - any sequence of sets, staged values,
  activations, removals, tags, couplings, resets and applies - every member of the block keeps a value of its declared
  type, and so do the recorded defaults and every stored set, whether the calls succeed or not, provided the block's own
  callbacks keep to the types.
\<close>

theorem member_types_kept:
  assumes "distinct (map md_name ds)" "meta_apart ds meta" "keeps_types ds H" "well_typed ds s"
    and "(settings_step (blockDescriptor F ds meta) H F)\<^sup>*\<^sup>* s t"
  shows "well_typed ds t"
  using assms(5,4) by (induction rule: rtranclp_induct) (auto intro: step_typed [OF assms(1,2,3)])

lemma member_types_kept_witness:
  "well_typed (framework_members True True)
     (snd (applyStagedParametersImpl (blockDescriptor (\<lambda>_ _. None) (framework_members True True) None) quiet_hooks (\<lambda>_. 7)
       (snd (setImpl (blockDescriptor (\<lambda>_ _. None) (framework_members True True) None) (\<lambda>_. 5) [(''stride'', VFloat64 0)] no_context demo_staged))))"
proof -
  let ?D = "blockDescriptor (\<lambda>_ _. None) (framework_members True True) None :: block descriptor"
  let ?s = "snd (setImpl ?D (\<lambda>_. 5) [(''stride'', VFloat64 0)] no_context demo_staged)"
  have w: "well_typed (framework_members True True) demo_staged"
    using demo_members(2) by (simp add: well_typed_def typed_stored_def) (simp add: demo_staged_def new_settings_def)
  have "settings_step ?D quiet_hooks (\<lambda>_ _. None) demo_staged ?s" by (rule step_set)
  moreover have "settings_step ?D quiet_hooks (\<lambda>_ _. None) ?s (snd (applyStagedParametersImpl ?D quiet_hooks (\<lambda>_. 7) ?s))" by (rule step_apply)
  ultimately have "(settings_step ?D quiet_hooks (\<lambda>_ _. None))\<^sup>*\<^sup>* demo_staged (snd (applyStagedParametersImpl ?D quiet_hooks (\<lambda>_. 7) ?s))" by simp
  moreover have "meta_apart (framework_members True True) None" "keeps_types (framework_members True True) quiet_hooks"
    by (simp_all add: meta_apart_def keeps_types_def quiet_hooks_def)
  ultimately show ?thesis using member_types_kept [OF framework_names _ _ w] by blast
qed

end
