(* ===== verification/BlockSizing.thy ===== *)
theory BlockSizing
  imports SettingsApply
begin

text \<open>
  How a block sizes a call (\<^verbatim>\<open>core/include/gnuradio-4.0/Block.hpp\<close>): the cached limits of its ports (\<^verbatim>\<open>PortCache\<close>), the next
  tag and the end of its streams, the stride, the chunk ratio, and how long a block at the end of its streams waits. A
  \<open>std::size_t\<close> is a natural number up to \<open>size_max\<close>; products that can wrap are written with \<open>mul64\<close>.
\<close>

definition mul64 :: "nat \<Rightarrow> nat \<Rightarrow> nat" where
  "mul64 a b = a * b mod 2 ^ 64"

lemma mul64_exact [simp]: "a * b \<le> size_max \<Longrightarrow> mul64 a b = a * b"
  by (simp add: mul64_def size_max_def)

text \<open>\<^verbatim>\<open>std::clamp\<close>, which needs \<open>lo \<le> hi\<close>.\<close>

definition clamp :: "nat \<Rightarrow> nat \<Rightarrow> nat \<Rightarrow> nat" where
  "clamp v lo hi = (if v < lo then lo else if hi < v then hi else v)"

section \<open>Ports\<close>

text \<open>What a port shows the block: its declaration, its limits, the samples it can read or the slots it can write, and its
  position in the stream. An input has the tags its ring holds, an output the size of its ring.\<close>

record port =
  pt_sync :: bool
  pt_optional :: bool
  pt_connected :: bool
  pt_min :: nat
  pt_max :: nat
  pt_available :: nat
  pt_position :: nat

record in_port = port +
  ip_tags :: "gr_tag list"

record out_port = port +
  op_bufferSize :: nat

text \<open>\<^verbatim>\<open>port::BitMask\<close>: whether the port is synchronous, optional and connected; the patterns ask for the first.\<close>

type_synonym port_mask = "bool \<times> bool \<times> bool"

definition encodeMask :: "'a port_scheme \<Rightarrow> port_mask" where
  "encodeMask p = (pt_sync p, pt_optional p, pt_connected p)"

definition min_element_masked :: "bool \<Rightarrow> nat list \<Rightarrow> port_mask list \<Rightarrow> nat option" where
  "min_element_masked sync xs masks =
     fold (\<lambda>(x, m) r. if fst m = sync \<and> (case r of None \<Rightarrow> True | Some y \<Rightarrow> x < y) then Some x else r) (zip xs masks) None"

definition max_element_masked :: "bool \<Rightarrow> nat list \<Rightarrow> port_mask list \<Rightarrow> nat option" where
  "max_element_masked sync xs masks =
     fold (\<lambda>(x, m) r. if fst m = sync \<and> (case r of None \<Rightarrow> True | Some y \<Rightarrow> x > y) then Some x else r) (zip xs masks) None"

definition compareRangesMasked :: "bool \<Rightarrow> nat list \<Rightarrow> nat list \<Rightarrow> port_mask list \<Rightarrow> bool" where
  "compareRangesMasked sync a b masks = list_ex (\<lambda>(x, y, m). fst m = sync \<and> x \<ge> y) (zip a (zip b masks))"

definition value_else :: "nat \<Rightarrow> nat option \<Rightarrow> nat" where
  "value_else d x = (case x of None \<Rightarrow> d | Some v \<Rightarrow> v)"

section \<open>The port cache\<close>

record port_cache =
  pc_dirtyConfig :: bool
  pc_types :: "port_mask list"
  pc_dirtyConstraints :: bool
  pc_minSamples :: "nat list"
  pc_maxSamples :: "nat list"
  pc_dirtyAvailable :: bool
  pc_available :: "nat list"
  pc_minSyncRequirement :: nat
  pc_maxSyncRequirement :: nat
  pc_maxSyncAvailable :: nat
  pc_hasASyncAvailable :: bool

definition new_cache :: port_cache where
  "new_cache = \<lparr>pc_dirtyConfig = True, pc_types = [], pc_dirtyConstraints = True, pc_minSamples = [], pc_maxSamples = [],
     pc_dirtyAvailable = True, pc_available = [], pc_minSyncRequirement = 0, pc_maxSyncRequirement = undefined_size,
     pc_maxSyncAvailable = undefined_size, pc_hasASyncAvailable = False\<rparr>"

definition vec_resize :: "nat \<Rightarrow> 'a \<Rightarrow> 'a list \<Rightarrow> 'a list" where
  "vec_resize n d xs = take n xs @ replicate (n - length xs) d"

definition updateConfig :: "'a port_scheme list \<Rightarrow> port_cache \<Rightarrow> port_cache" where
  "updateConfig ports c = (let types = map encodeMask ports; n = length types in
     c\<lparr>pc_dirtyConstraints := True, pc_dirtyAvailable := True, pc_types := types, pc_available := vec_resize n 0 (pc_available c),
       pc_minSamples := vec_resize n 0 (pc_minSamples c), pc_maxSamples := vec_resize n undefined_size (pc_maxSamples c),
       pc_dirtyConfig := False\<rparr>)"

text \<open>The storage has a slot for every port.\<close>

definition getPortConstraints :: "('a port_scheme \<Rightarrow> nat) \<Rightarrow> 'a port_scheme list \<Rightarrow> nat list \<Rightarrow> nat list" where
  "getPortConstraints f ports storage = (if storage = [] then storage else map f ports)"

definition updateConstraints :: "'a port_scheme list \<Rightarrow> port_cache \<Rightarrow> port_cache" where
  "updateConstraints ports c0 =
     (let c = (if pc_dirtyConfig c0 then updateConfig ports c0 else c0)
      in if \<not> pc_dirtyConstraints c then c
         else (let mins = getPortConstraints (\<lambda>p. if pt_optional p then if pt_connected p then pt_min p else 0 else pt_min p) ports (pc_minSamples c);
                   maxs = getPortConstraints pt_max ports (pc_maxSamples c)
               in c\<lparr>pc_minSamples := mins, pc_maxSamples := maxs,
                    pc_minSyncRequirement := value_else 0 (max_element_masked True mins (pc_types c)),
                    pc_maxSyncRequirement := value_else undefined_size (min_element_masked True maxs (pc_types c)),
                    pc_dirtyConstraints := False\<rparr>))"

definition updateAvailable :: "'a port_scheme list \<Rightarrow> port_cache \<Rightarrow> port_cache" where
  "updateAvailable ports c0 =
     (let c = updateConstraints ports c0
      in if \<not> pc_dirtyAvailable c then c
         else (let avail = getPortConstraints (\<lambda>p. if pt_optional p then if pt_connected p then pt_available p else undefined_size else pt_available p)
                     ports (pc_available c)
               in c\<lparr>pc_available := avail,
                    pc_maxSyncAvailable := value_else undefined_size (min_element_masked True avail (pc_types c)),
                    pc_hasASyncAvailable := compareRangesMasked False avail (pc_minSamples c) (pc_types c),
                    pc_dirtyAvailable := False\<rparr>))"

definition invalidateConfig :: "port_cache \<Rightarrow> port_cache" where
  "invalidateConfig c = c\<lparr>pc_dirtyConfig := True\<rparr>"

definition invalidateStatistic :: "port_cache \<Rightarrow> port_cache" where
  "invalidateStatistic c = c\<lparr>pc_dirtyConstraints := True, pc_dirtyAvailable := True\<rparr>"

definition minSyncRequirement :: "'a port_scheme list \<Rightarrow> port_cache \<Rightarrow> nat \<times> port_cache" where
  "minSyncRequirement ports c = (let c' = updateConstraints ports c in (pc_minSyncRequirement c', c'))"

definition maxSyncRequirement :: "'a port_scheme list \<Rightarrow> port_cache \<Rightarrow> nat \<times> port_cache" where
  "maxSyncRequirement ports c = (let c' = updateConstraints ports c in (pc_maxSyncRequirement c', c'))"

definition maxSyncAvailable :: "'a port_scheme list \<Rightarrow> port_cache \<Rightarrow> nat \<times> port_cache" where
  "maxSyncAvailable ports c = (let c' = (if pc_dirtyAvailable c then updateAvailable ports c else c) in (pc_maxSyncAvailable c', c'))"

definition hasASyncAvailable :: "'a port_scheme list \<Rightarrow> port_cache \<Rightarrow> bool \<times> port_cache" where
  "hasASyncAvailable ports c = (let c' = (if pc_dirtyAvailable c then updateAvailable ports c else c) in (pc_hasASyncAvailable c', c'))"

section \<open>The next tag and the end of the streams\<close>

definition defaultTagMatcher :: "gr_tag \<Rightarrow> nat \<Rightarrow> bool" where
  "defaultTagMatcher t readPosition \<longleftrightarrow> tag_index t \<ge> readPosition"

definition defaultEOSTagMatcher :: "gr_tag \<Rightarrow> nat \<Rightarrow> bool" where
  "defaultEOSTagMatcher t readPosition \<longleftrightarrow> tag_index t \<ge> readPosition \<and>
     (case map_of (tag_map t) (gr_key ''end_of_stream'') of None \<Rightarrow> False | Some v \<Rightarrow> pmt_eq v (VBool True))"

definition nSamplesToNextTagConditional :: "in_port \<Rightarrow> (gr_tag \<Rightarrow> nat \<Rightarrow> bool) \<Rightarrow> nat \<Rightarrow> nat option" where
  "nSamplesToNextTagConditional p predicate readOffset =
     (if \<not> pt_connected p \<or> ip_tags p = [] then None
      else map_option (\<lambda>t. tag_index t - pt_position p) (find (\<lambda>t. predicate t (pt_position p + readOffset)) (ip_tags p)))"

definition samples_to_eos_tag :: "in_port \<Rightarrow> nat option" where
  "samples_to_eos_tag p = nSamplesToNextTagConditional p defaultEOSTagMatcher 0"

text \<open>The result of the scan, with the three flags it keeps while it walks over the ports.\<close>

record tag_scan =
  ts_hasTag :: bool
  ts_hasAnyTag :: bool
  ts_nextTag :: nat
  ts_nextEosTag :: nat
  ts_asyncEoS :: bool
  ts_draining :: bool
  ts_asyncOwed :: bool
  ts_inputStillToCome :: bool
  ts_asyncInputAtEnd :: bool
  ts_holdsSamples :: bool

definition no_scan :: tag_scan where
  "no_scan = \<lparr>ts_hasTag = False, ts_hasAnyTag = False, ts_nextTag = size_max, ts_nextEosTag = size_max, ts_asyncEoS = False,
     ts_draining = False, ts_asyncOwed = False, ts_inputStillToCome = False, ts_asyncInputAtEnd = False, ts_holdsSamples = False\<rparr>"

definition scan_port :: "in_port \<Rightarrow> tag_scan \<Rightarrow> tag_scan" where
  "scan_port p s =
     (if \<not> pt_connected p then s
      else if ip_tags p = [] then s\<lparr>ts_inputStillToCome := True, ts_asyncOwed := (ts_asyncOwed s \<or> \<not> pt_sync p)\<rparr>
      else
        (let readPosition = pt_position p;
             eos = find (\<lambda>t. defaultEOSTagMatcher t readPosition) (ip_tags p)
         in if pt_sync p then
              (let next = find (\<lambda>t. defaultTagMatcher t (readPosition + 1)) (ip_tags p);
                   s1 = (case next of None \<Rightarrow> s | Some t \<Rightarrow> s\<lparr>ts_nextTag := min (ts_nextTag s) (tag_index t - readPosition)\<rparr>);
                   s2 = (case eos of
                           Some t \<Rightarrow> s1\<lparr>ts_nextEosTag := min (ts_nextEosTag s1) (tag_index t - readPosition),
                                        ts_holdsSamples := (ts_holdsSamples s1 \<or> tag_index t > readPosition)\<rparr>
                         | None \<Rightarrow> s1\<lparr>ts_inputStillToCome := True\<rparr>)
               in s2\<lparr>ts_hasAnyTag := True,
                     ts_hasTag := (ts_hasTag s2 \<or> (tag_index (hd (ip_tags p)) = readPosition \<and> tag_map (hd (ip_tags p)) \<noteq> []))\<rparr>)
            else
              (case eos of
                 Some t \<Rightarrow>
                   (let nBeforeEoS = tag_index t - readPosition
                    in if nBeforeEoS = 0 \<or> nBeforeEoS < pt_min p then s\<lparr>ts_asyncInputAtEnd := True\<rparr>
                       else s\<lparr>ts_holdsSamples := True, ts_asyncOwed := True\<rparr>)
               | None \<Rightarrow> s\<lparr>ts_inputStillToCome := True, ts_asyncOwed := True\<rparr>)))"

definition getNextTagAndEosPosition :: "in_port list \<Rightarrow> tag_scan" where
  "getNextTagAndEosPosition ports =
     (let s = fold scan_port ports no_scan
      in s\<lparr>ts_asyncEoS := (ts_asyncInputAtEnd s \<and> \<not> ts_holdsSamples s \<and> \<not> ts_inputStillToCome s),
           ts_draining := (ts_holdsSamples s \<and> \<not> ts_inputStillToCome s)\<rparr>)"

section \<open>Stride and chunk ratio\<close>

text \<open>What the block's type says (\<^verbatim>\<open>Resampling<>\<close>, \<^verbatim>\<open>Stride<>\<close>) with the members that configure it, and the counter of samples
  that are left to skip.\<close>

record chunking =
  ck_resampling :: bool
  ck_strided :: bool
  ck_input :: nat
  ck_output :: nat
  ck_stride :: nat
  ck_strideCounter :: nat

definition isStrideActiveAndNotDefault :: "chunking \<Rightarrow> bool" where
  "isStrideActiveAndNotDefault c \<longleftrightarrow> ck_stride c \<noteq> 0 \<and> ck_stride c \<noteq> ck_input c"

definition inputSamplesToSkipBeforeNextChunk :: "nat \<Rightarrow> chunking \<Rightarrow> nat \<times> chunking" where
  "inputSamplesToSkipBeforeNextChunk availableSamples c =
     (if ck_strided c then
        (if isStrideActiveAndNotDefault c \<and> ck_strideCounter c > 0 then
           (let toSkip = min (ck_strideCounter c) availableSamples in (toSkip, c\<lparr>ck_strideCounter := ck_strideCounter c - toSkip\<rparr>))
         else (0, c))
      else (0, c))"

definition inputSamplesToConsumeAdjustedWithStride :: "nat \<Rightarrow> chunking \<Rightarrow> nat \<times> chunking" where
  "inputSamplesToConsumeAdjustedWithStride remainingSamples c =
     (if ck_strided c then
        (if isStrideActiveAndNotDefault c \<and> ck_strideCounter c = 0 \<and> remainingSamples > 0 then
           (let toSkip = min (ck_stride c) remainingSamples in (toSkip, c\<lparr>ck_strideCounter := ck_stride c - toSkip\<rparr>))
         else (0, c))
      else (0, c))"

datatype work_status = WORK_ERROR | INSUFFICIENT_OUTPUT_ITEMS | INSUFFICIENT_INPUT_ITEMS | DONE | OK

record resampling =
  rs_in :: nat
  rs_out :: nat
  rs_status :: work_status

definition insufficient :: "work_status \<Rightarrow> resampling" where
  "insufficient st = \<lparr>rs_in = 0, rs_out = 0, rs_status = st\<rparr>"

definition one_to_one :: "nat \<Rightarrow> nat \<Rightarrow> nat \<Rightarrow> nat \<Rightarrow> nat \<Rightarrow> resampling" where
  "one_to_one minSyncIn maxSyncIn minSyncOut maxSyncOut requested =
     (let maxSync = min maxSyncIn maxSyncOut
      in if maxSync < minSyncIn then insufficient INSUFFICIENT_INPUT_ITEMS
         else if maxSync < minSyncOut then insufficient INSUFFICIENT_OUTPUT_ITEMS
         else (let resampled = clamp requested (max minSyncIn minSyncOut) maxSync in \<lparr>rs_in = resampled, rs_out = resampled, rs_status = OK\<rparr>))"

definition n_chunks :: "chunking \<Rightarrow> nat \<Rightarrow> nat \<Rightarrow> nat" where
  "n_chunks c maxSyncIn maxSyncOut =
     (if ck_strided c \<and> isStrideActiveAndNotDefault c then if ck_input c \<le> maxSyncIn \<and> ck_output c \<le> maxSyncOut then 1 else 0
      else min (maxSyncIn div ck_input c) (maxSyncOut div ck_output c))"

definition computeResampling :: "chunking \<Rightarrow> nat \<Rightarrow> nat \<Rightarrow> nat \<Rightarrow> nat \<Rightarrow> nat \<Rightarrow> resampling" where
  "computeResampling c minSyncIn maxSyncIn minSyncOut maxSyncOut requestedWork =
     (let requested = (if requestedWork = 0 then size_max else requestedWork)
      in if \<not> ck_resampling c \<or> (ck_input c = 1 \<and> ck_output c = 1) then one_to_one minSyncIn maxSyncIn minSyncOut maxSyncOut requested
         else
           (let n = n_chunks c maxSyncIn maxSyncOut; full = \<lparr>rs_in = mul64 n (ck_input c), rs_out = mul64 n (ck_output c), rs_status = OK\<rparr>
            in if mul64 n (ck_input c) < minSyncIn then insufficient INSUFFICIENT_INPUT_ITEMS
               else if mul64 n (ck_output c) < minSyncOut then insufficient INSUFFICIENT_OUTPUT_ITEMS
               else if requested < mul64 n (ck_input c) then
                 (let r = clamp requested (max minSyncIn (ck_input c)) maxSyncIn;
                      n2 = min (r div ck_input c) (maxSyncOut div ck_output c)
                  in if mul64 n2 (ck_input c) \<ge> minSyncIn \<and> mul64 n2 (ck_output c) \<ge> minSyncOut
                     then \<lparr>rs_in = mul64 n2 (ck_input c), rs_out = mul64 n2 (ck_output c), rs_status = OK\<rparr>
                     else full)
               else full))"

section \<open>The limits of a call\<close>

record sample_limits =
  sl_resampledIn :: nat
  sl_resampledOut :: nat
  sl_inputSkipBefore :: nat
  sl_resampledStatus :: work_status
  sl_hasTag :: bool
  sl_hasAnyTag :: bool
  sl_asyncEoS :: bool
  sl_isEosPresent :: bool
  sl_hasAsyncIn :: bool
  sl_hasAsyncOut :: bool
  sl_draining :: bool

text \<open>The eight readings of the two caches, in the order of the code.\<close>

record cache_reading =
  cr_minSync :: nat
  cr_maxSync :: nat
  cr_maxSyncAvailable :: nat
  cr_hasAsync :: bool

definition read_cache :: "'a port_scheme list \<Rightarrow> port_cache \<Rightarrow> cache_reading \<times> port_cache" where
  "read_cache ports c =
     (let (minSync, c1) = minSyncRequirement ports c; (maxSync, c2) = maxSyncRequirement ports c1;
          (avail, c3) = maxSyncAvailable ports c2; (hasAsync, c4) = hasASyncAvailable ports c3
      in (\<lparr>cr_minSync = minSync, cr_maxSync = maxSync, cr_maxSyncAvailable = avail, cr_hasAsync = hasAsync\<rparr>, c4))"

definition limits_of :: "nat \<Rightarrow> nat \<Rightarrow> cache_reading \<Rightarrow> cache_reading \<Rightarrow> tag_scan \<Rightarrow> chunking \<Rightarrow> sample_limits \<times> chunking" where
  "limits_of requestedWork maxChunk ci co scan c =
     (let nextTag = ts_nextTag scan; nextEosTag = ts_nextEosTag scan; minSyncIn = cr_minSync ci;
          (skip, c') = inputSamplesToSkipBeforeNextChunk (min (cr_maxSyncAvailable ci) nextEosTag) c;
          nextTagAfterSkip = nextTag - skip;
          availAfterSkip = cr_maxSyncAvailable ci - skip;
          eosAfterSkip = nextEosTag - skip;
          nextTagLimit = (if nextTagAfterSkip \<ge> minSyncIn then nextTagAfterSkip else size_max);
          ensureMinimalDecimation = (if nextTagLimit \<ge> ck_input c then nextTagLimit else ck_input c);
          availableToProcess = min (cr_maxSync ci) (min maxChunk (min availAfterSkip (min ensureMinimalDecimation eosAfterSkip)));
          availableToPublish = min (cr_maxSync co) (cr_maxSyncAvailable co);
          r = computeResampling c' (min minSyncIn nextEosTag) availableToProcess (cr_minSync co) availableToPublish requestedWork;
          isEosPresent = (\<not> ts_asyncOwed scan \<and>
             (nextEosTag = 0 \<or> eosAfterSkip < minSyncIn \<or> eosAfterSkip < ck_input c \<or>
              mul64 (ck_output c) (eosAfterSkip div ck_input c) < cr_minSync co))
      in (\<lparr>sl_resampledIn = rs_in r, sl_resampledOut = rs_out r, sl_inputSkipBefore = skip, sl_resampledStatus = rs_status r,
           sl_hasTag = ts_hasTag scan, sl_hasAnyTag = ts_hasAnyTag scan, sl_asyncEoS = ts_asyncEoS scan, sl_isEosPresent = isEosPresent,
           sl_hasAsyncIn = cr_hasAsync ci, sl_hasAsyncOut = cr_hasAsync co, sl_draining = ts_draining scan\<rparr>, c'))"

record sizing =
  sz_chunking :: chunking
  sz_in :: port_cache
  sz_out :: port_cache

text \<open>\<open>maxChunk\<close> is \<^verbatim>\<open>getMergedBlockLimit()\<close>: the maximum of the type but for merged blocks and groups of blocks.\<close>

definition computeSampleLimits :: "nat \<Rightarrow> nat \<Rightarrow> in_port list \<Rightarrow> out_port list \<Rightarrow> sizing \<Rightarrow> sample_limits \<times> sizing" where
  "computeSampleLimits maxChunk requestedWork ins outs s =
     (let (ci, cin) = read_cache ins (sz_in s); (co, cout) = read_cache outs (sz_out s);
          (limits, c) = limits_of requestedWork maxChunk ci co (getNextTagAndEosPosition ins) (sz_chunking s)
      in (limits, \<lparr>sz_chunking = c, sz_in = cin, sz_out = cout\<rparr>))"

text \<open>The check of the parameters in a debug build: the refusals in the order of the code.\<close>

datatype parameter_error = Not_resampling | Not_strided | Min_in_above_max | Min_out_above_max | Chunk_in_above_max | Chunk_out_above_max

definition checkBlockParameterConsistency :: "in_port list \<Rightarrow> out_port list \<Rightarrow> sizing \<Rightarrow> parameter_error option \<times> sizing" where
  "checkBlockParameterConsistency ins outs s =
     (let c = sz_chunking s
      in if \<not> ck_resampling c \<and> (ck_input c \<noteq> 1 \<or> ck_output c \<noteq> 1) then (Some Not_resampling, s)
         else if \<not> ck_strided c \<and> ck_stride c \<noteq> 0 then (Some Not_strided, s)
         else
           (let (minIn, i1) = minSyncRequirement ins (invalidateConfig (sz_in s)); (maxIn, i2) = maxSyncRequirement ins i1;
                (minOut, o1) = minSyncRequirement outs (invalidateConfig (sz_out s)); (maxOut, o2) = maxSyncRequirement outs o1;
                s' = s\<lparr>sz_in := invalidateConfig i2, sz_out := invalidateConfig o2\<rparr>
            in (if minIn > maxIn then Some Min_in_above_max
                else if minOut > maxOut then Some Min_out_above_max
                else if ck_input c > maxIn then Some Chunk_in_above_max
                else if ck_output c > maxOut then Some Chunk_out_above_max else None, s')))"

section \<open>Waiting at the end of the streams\<close>

record drain_mark =
  dm_moved :: nat
  dm_room :: nat

definition no_mark :: drain_mark where
  "no_mark = \<lparr>dm_moved = 0, dm_room = 0\<rparr>"

definition drainWatermark :: "in_port list \<Rightarrow> out_port list \<Rightarrow> drain_mark" where
  "drainWatermark ins outs = \<lparr>
     dm_moved = (sum_list (map pt_position [p \<leftarrow> ins. pt_connected p]) + sum_list (map pt_position outs)) mod 2 ^ 64,
     dm_room = sum_list (map pt_available outs) mod 2 ^ 64\<rparr>"

definition kStallLimit :: nat where
  "kStallLimit = 1024"

record stall =
  st_waitedOnOutput :: bool
  st_drainMark :: drain_mark
  st_nDrainStalls :: nat
  st_epilogueWaitMark :: drain_mark
  st_nEpilogueWaits :: nat
  st_drainingCalls :: nat

definition isWaitingOnOutput :: "nat \<Rightarrow> out_port list \<Rightarrow> stall \<Rightarrow> bool" where
  "isWaitingOnOutput chunk outs s \<longleftrightarrow> st_waitedOnOutput s \<or>
     list_ex (\<lambda>p. pt_connected p \<and> pt_available p < max (pt_min p) (if pt_sync p then chunk else 1)) outs"

definition isDrainStalled :: "nat \<Rightarrow> in_port list \<Rightarrow> out_port list \<Rightarrow> bool \<Rightarrow> stall \<Rightarrow> bool \<times> stall" where
  "isDrainStalled chunk ins outs isDraining s =
     (if \<not> isDraining \<or> isWaitingOnOutput chunk outs s then (False, s\<lparr>st_nDrainStalls := 0, st_drainMark := no_mark\<rparr>)
      else
        (let s1 = s\<lparr>st_drainingCalls := st_drainingCalls s + 1\<rparr>; mark = drainWatermark ins outs
         in if mark \<noteq> st_drainMark s1 then (False, s1\<lparr>st_drainMark := mark, st_nDrainStalls := 0\<rparr>)
            else (let n = st_nDrainStalls s1 + 1 in (n \<ge> kStallLimit, s1\<lparr>st_nDrainStalls := n\<rparr>))))"

definition isEpilogueWaitStalled :: "in_port list \<Rightarrow> out_port list \<Rightarrow> stall \<Rightarrow> bool \<times> stall" where
  "isEpilogueWaitStalled ins outs s =
     (let mark = drainWatermark ins outs
      in if mark \<noteq> st_epilogueWaitMark s then (False, s\<lparr>st_epilogueWaitMark := mark, st_nEpilogueWaits := 0\<rparr>)
         else (let n = st_nEpilogueWaits s + 1
               in (n \<ge> kStallLimit, s\<lparr>st_drainingCalls := st_drainingCalls s + 1, st_nEpilogueWaits := n\<rparr>)))"

text \<open>The smallest ring and the least free space of the connected synchronous outputs.\<close>

definition syncOutputRoom :: "out_port list \<Rightarrow> nat \<times> nat" where
  "syncOutputRoom outs =
     fold (\<lambda>p (ring, free). if pt_sync p \<and> pt_connected p then (min ring (op_bufferSize p), min free (pt_available p)) else (ring, free))
       outs (size_max, size_max)"

text \<open>How many output slots the epilogue is given: \<open>None\<close> while it waits for room.\<close>

definition epilogue_slots :: "chunking \<Rightarrow> bool \<Rightarrow> nat \<Rightarrow> in_port list \<Rightarrow> out_port list \<Rightarrow> stall \<Rightarrow> nat option \<times> stall" where
  "epilogue_slots c stopping trailing ins outs s =
     (let (ring, free) = syncOutputRoom outs;
          wanted = (if ck_input c > 0 then ((trailing * ck_output c + ck_input c + 2 ^ 64 - 1) mod 2 ^ 64) div ck_input c else trailing);
          requestedOut = min (max wanted (ck_output c)) ring;
          (waited, s') = (if stopping \<or> free \<ge> requestedOut then (False, s) else isEpilogueWaitStalled ins outs s);
          size = (if stopping \<or> (free < requestedOut \<and> waited) then min requestedOut free else requestedOut)
      in (if free < size then None else Some size, s'))"

section \<open>What a call reports\<close>

definition sanitiseProcessStatus :: "work_status \<Rightarrow> nat \<times> nat \<Rightarrow> nat \<times> nat" where
  "sanitiseProcessStatus st n = (if st \<in> {INSUFFICIENT_OUTPUT_ITEMS, INSUFFICIENT_INPUT_ITEMS, WORK_ERROR} then (0, 0) else n)"

definition computePerformedWork :: "work_status \<Rightarrow> nat \<Rightarrow> nat \<Rightarrow> bool \<Rightarrow> nat" where
  "computePerformedWork st processedIn processedOut isSource = (if st \<noteq> OK then 0 else if isSource then processedOut else processedIn)"

text \<open>A span of a call: whether its port is connected and synchronous, and how many samples it was asked to release.\<close>

record span =
  sn_connected :: bool
  sn_sync :: bool
  sn_requested :: "nat option"

definition accountedStreamWork :: "bool \<Rightarrow> span list \<Rightarrow> span list \<Rightarrow> nat \<Rightarrow> nat \<Rightarrow> nat \<times> nat" where
  "accountedStreamWork hasProcessBulk ins outs processedIn processedOut =
     (let side = (\<lambda>spans n. if \<exists>x \<in> set spans. sn_connected x \<and> sn_sync x then n
                  else sum_list (map (\<lambda>x. value_else 0 (sn_requested x)) [x \<leftarrow> spans. sn_connected x \<and> \<not> sn_sync x]) mod 2 ^ 64)
      in if \<not> hasProcessBulk then (processedIn, processedOut) else (side ins processedIn, side outs processedOut))"

text \<open>How many samples past its read position each connected input was handed, and the samples an ending block drops.\<close>

definition keepHandedPastRead :: "(bool \<times> nat \<times> nat option) list \<Rightarrow> nat list \<Rightarrow> nat list" where
  "keepHandedPastRead spans handed =
     (let connected = [x \<leftarrow> spans. fst x];
          one = (\<lambda>(_, nHanded, requested) earlier. let nConsumed = value_else 0 requested in max (nHanded - nConsumed) (earlier - nConsumed))
      in map2 one connected (handed @ replicate (length connected - length handed) 0) @ drop (length connected) handed)"

definition droppedTail :: "in_port list \<Rightarrow> nat list \<Rightarrow> (nat \<times> nat) list" where
  "droppedTail ins handed =
     (let held = map (\<lambda>p. case samples_to_eos_tag p of None \<Rightarrow> pt_available p | Some n \<Rightarrow> n) [p \<leftarrow> ins. pt_connected p]
      in [(i, h - n) . (i, h, n) \<leftarrow> zip [0..<length held] (zip held (handed @ replicate (length held) 0)), h > n])"

section \<open>The cache reads the ports as they are\<close>

lemma sync_mask [simp]: "fst (encodeMask p) = pt_sync p"
  by (simp add: encodeMask_def)

lemma fold_some: "fold (\<lambda>x r. Some (case r of None \<Rightarrow> x | Some y \<Rightarrow> f x y)) xs (Some y) = Some (fold f xs y)"
  by (induction xs arbitrary: y) simp_all

lemma masked_fold:
  "fold (\<lambda>(x, m) r. if fst m = True \<and> (case r of None \<Rightarrow> True | Some y \<Rightarrow> P x y) then Some x else r) (zip (map g ports) (map encodeMask ports)) r =
   fold (\<lambda>x r. Some (case r of None \<Rightarrow> x | Some y \<Rightarrow> if P x y then x else y)) (map g [p \<leftarrow> ports. pt_sync p]) r"
proof (induction ports arbitrary: r)
  case (Cons p ports)
  show ?case
  proof (cases "pt_sync p")
    case True
    show ?thesis unfolding list.map zip_Cons_Cons fold_simps filter.simps using True Cons.IH by (cases r) simp_all
  next
    case False
    show ?thesis unfolding list.map zip_Cons_Cons fold_simps filter.simps using False Cons.IH by simp
  qed
qed simp

lemma min_masked:
  "min_element_masked True (map f ports) (map encodeMask ports) =
     (if [p \<leftarrow> ports. pt_sync p] = [] then None else Some (Min (f ` set [p \<leftarrow> ports. pt_sync p])))"
proof (cases "[p \<leftarrow> ports. pt_sync p]")
  case (Cons p ps)
  have m: "(\<lambda>x y :: nat. if x < y then x else y) = min" by (intro ext) (simp add: min_def)
  have "fold min (map f ps) (f p) = Min (set (f p # map f ps))" by (rule Min.set_eq_fold [symmetric])
  then show ?thesis
    unfolding min_element_masked_def masked_fold by (simp add: Cons fold_some m)
next
  case Nil
  then show ?thesis unfolding min_element_masked_def masked_fold by simp
qed

lemma max_masked:
  "max_element_masked True (map f ports) (map encodeMask ports) =
     (if [p \<leftarrow> ports. pt_sync p] = [] then None else Some (Max (f ` set [p \<leftarrow> ports. pt_sync p])))"
proof (cases "[p \<leftarrow> ports. pt_sync p]")
  case (Cons p ps)
  have m: "(\<lambda>x y :: nat. if y < x then x else y) = max" by (intro ext) (simp add: max_def)
  have "fold max (map f ps) (f p) = Max (set (f p # map f ps))" by (rule Max.set_eq_fold [symmetric])
  then show ?thesis
    unfolding max_element_masked_def masked_fold by (simp add: Cons fold_some m)
next
  case Nil
  then show ?thesis unfolding max_element_masked_def masked_fold by simp
qed

lemma compare_masked:
  "compareRangesMasked False (map f ports) (map g ports) (map encodeMask ports) \<longleftrightarrow> (\<exists>p \<in> set ports. \<not> pt_sync p \<and> f p \<ge> g p)"
  by (induction ports) (auto simp: compareRangesMasked_def)

text \<open>What the ports show: an optional input that is not connected asks for nothing and holds nothing back.\<close>

definition needs :: "'a port_scheme \<Rightarrow> nat" where
  "needs p = (if pt_optional p \<and> \<not> pt_connected p then 0 else pt_min p)"

definition offers :: "'a port_scheme \<Rightarrow> nat" where
  "offers p = (if pt_optional p \<and> \<not> pt_connected p then undefined_size else pt_available p)"

definition port_limits :: "'a port_scheme list \<Rightarrow> cache_reading" where
  "port_limits ports = (let sync = set [p \<leftarrow> ports. pt_sync p] in
     \<lparr>cr_minSync = (if sync = {} then 0 else Max (needs ` sync)), cr_maxSync = (if sync = {} then undefined_size else Min (pt_max ` sync)),
      cr_maxSyncAvailable = (if sync = {} then undefined_size else Min (offers ` sync)),
      cr_hasAsync = (\<exists>p \<in> set ports. \<not> pt_sync p \<and> offers p \<ge> needs p)\<rparr>)"

lemma needs_eq: "(\<lambda>p. if pt_optional p then if pt_connected p then pt_min p else 0 else pt_min p) = needs"
  by (rule ext) (simp add: needs_def)

lemma offers_eq: "(\<lambda>p. if pt_optional p then if pt_connected p then pt_available p else undefined_size else pt_available p) = offers"
  by (rule ext) (simp add: offers_def)

text \<open>A cache that reads the ports anew: after \<^verbatim>\<open>invalidateConfig()\<close>, or with the current layout after \<^verbatim>\<open>invalidateStatistic()\<close>.\<close>

definition reads_anew :: "'a port_scheme list \<Rightarrow> port_cache \<Rightarrow> bool" where
  "reads_anew ports c \<longleftrightarrow> pc_dirtyConfig c \<or>
     (pc_types c = map encodeMask ports \<and> length (pc_minSamples c) = length ports \<and> length (pc_maxSamples c) = length ports \<and>
      length (pc_available c) = length ports \<and> pc_dirtyConstraints c \<and> pc_dirtyAvailable c)"

lemma length_resize [simp]: "length (vec_resize n d xs) = n"
  by (simp add: vec_resize_def)

lemma constraints_map: "length storage = length ports \<Longrightarrow> getPortConstraints f ports storage = map f ports"
  by (auto simp: getPortConstraints_def)

lemma limits_masked:
  "value_else 0 (max_element_masked True (map needs ports) (map encodeMask ports)) = cr_minSync (port_limits ports)"
  "value_else undefined_size (min_element_masked True (map pt_max ports) (map encodeMask ports)) = cr_maxSync (port_limits ports)"
  "value_else undefined_size (min_element_masked True (map offers ports) (map encodeMask ports)) = cr_maxSyncAvailable (port_limits ports)"
  "compareRangesMasked False (map offers ports) (map needs ports) (map encodeMask ports) = cr_hasAsync (port_limits ports)"
  unfolding min_masked max_masked compare_masked port_limits_def Let_def value_else_def
  by (cases "[p \<leftarrow> ports. pt_sync p]"; simp)+

lemma constraints_anew:
  assumes "reads_anew ports c"
  shows "updateConstraints ports c =
    (let c0 = (if pc_dirtyConfig c then updateConfig ports c else c)
     in c0\<lparr>pc_minSamples := map needs ports, pc_maxSamples := map pt_max ports, pc_minSyncRequirement := cr_minSync (port_limits ports),
           pc_maxSyncRequirement := cr_maxSync (port_limits ports), pc_dirtyConstraints := False\<rparr>)"
proof -
  define d where d: "d = (if pc_dirtyConfig c then updateConfig ports c else c)"
  have "pc_types d = map encodeMask ports" "length (pc_minSamples d) = length ports" "length (pc_maxSamples d) = length ports"
    "pc_dirtyConstraints d" using assms by (auto simp: reads_anew_def updateConfig_def Let_def d)
  then show ?thesis
    unfolding updateConstraints_def d [symmetric] Let_def needs_eq by (simp add: constraints_map limits_masked del: map_eq_conv)
qed

lemma available_anew:
  assumes "reads_anew ports c"
  shows "updateAvailable ports c =
    (updateConstraints ports c)\<lparr>pc_available := map offers ports, pc_maxSyncAvailable := cr_maxSyncAvailable (port_limits ports),
       pc_hasASyncAvailable := cr_hasAsync (port_limits ports), pc_dirtyAvailable := False\<rparr>"
proof -
  let ?c = "updateConstraints ports c"
  have c: "pc_types ?c = map encodeMask ports" "length (pc_available ?c) = length ports" "pc_dirtyAvailable ?c" "pc_minSamples ?c = map needs ports"
    using assms unfolding constraints_anew [OF assms] by (auto simp: reads_anew_def updateConfig_def Let_def)
  show ?thesis
    using c unfolding updateAvailable_def Let_def offers_eq
    by (simp add: constraints_map limits_masked del: map_eq_conv)
qed

text \<open>
  C4. The port cache is transparent. A call that reads the port cache after it was invalidated sees the limits of the ports as
  they are - the largest minimum, the smallest maximum and the least number of samples over the synchronous ports, and whether
  an asynchronous port can take part - and every later reading gives the same values until the cache is invalidated again,
  whatever happens to the ports.
\<close>

theorem port_cache_exact:
  fixes ports ports' :: "'a port_scheme list"
  assumes "reads_anew ports c" and "length ports' = length ports"
  shows "fst (read_cache ports c) = port_limits ports \<and> fst (read_cache ports' (snd (read_cache ports c))) = port_limits ports \<and>
    reads_anew ports (invalidateStatistic (snd (read_cache ports c))) \<and> reads_anew ports' (invalidateConfig (snd (read_cache ports c)))"
proof -
  let ?c1 = "updateConstraints ports c"
  have c1: "\<not> pc_dirtyConfig ?c1" "\<not> pc_dirtyConstraints ?c1" "pc_dirtyAvailable ?c1" "pc_types ?c1 = map encodeMask ports"
    "pc_minSyncRequirement ?c1 = cr_minSync (port_limits ports)" "pc_maxSyncRequirement ?c1 = cr_maxSync (port_limits ports)"
    "length (pc_minSamples ?c1) = length ports" "length (pc_maxSamples ?c1) = length ports" "length (pc_available ?c1) = length ports"
    using assms(1) unfolding constraints_anew [OF assms(1)] by (auto simp: reads_anew_def updateConfig_def Let_def)
  have again: "updateConstraints p d = d" if "\<not> pc_dirtyConfig d" "\<not> pc_dirtyConstraints d" for p :: "'a port_scheme list" and d
    using that by (simp add: updateConstraints_def)
  let ?c2 = "?c1\<lparr>pc_available := map offers ports, pc_maxSyncAvailable := cr_maxSyncAvailable (port_limits ports),
       pc_hasASyncAvailable := cr_hasAsync (port_limits ports), pc_dirtyAvailable := False\<rparr>"
  have avail: "updateAvailable ports ?c1 = ?c2"
    using available_anew [OF assms(1)] again [OF c1(1,2)] by (simp add: updateAvailable_def)
  have read: "read_cache ports c = (port_limits ports, ?c2)"
    using c1 avail again [OF c1(1,2)]
    by (simp add: read_cache_def minSyncRequirement_def maxSyncRequirement_def maxSyncAvailable_def hasASyncAvailable_def Let_def)
  have "fst (read_cache ports' ?c2) = port_limits ports"
    using c1 again [of ?c2]
    by (simp add: read_cache_def minSyncRequirement_def maxSyncRequirement_def maxSyncAvailable_def hasASyncAvailable_def Let_def)
  then show ?thesis using read c1 by (simp add: reads_anew_def invalidateStatistic_def invalidateConfig_def)
qed

lemma port_cache_exact_witness:
  "fst (read_cache [\<lparr>pt_sync = True, pt_optional = False, pt_connected = True, pt_min = 2, pt_max = 8, pt_available = 5, pt_position = 0\<rparr>] new_cache) =
     \<lparr>cr_minSync = 2, cr_maxSync = 8, cr_maxSyncAvailable = 5, cr_hasAsync = False\<rparr>"
proof -
  let ?p = "[\<lparr>pt_sync = True, pt_optional = False, pt_connected = True, pt_min = 2, pt_max = 8, pt_available = 5, pt_position = 0\<rparr>] :: port list"
  have "reads_anew ?p new_cache" by (simp add: reads_anew_def new_cache_def)
  from port_cache_exact [OF this, of ?p] show ?thesis by (simp add: port_limits_def needs_def offers_def)
qed

section \<open>A call takes whole chunks\<close>

definition one_chunk_only :: "chunking \<Rightarrow> bool" where
  "one_chunk_only c \<longleftrightarrow> ck_resampling c \<and> \<not> (ck_input c = 1 \<and> ck_output c = 1) \<and> ck_strided c \<and> isStrideActiveAndNotDefault c"

text \<open>Whether \<open>n\<close> chunks respect the limits.\<close>

definition chunks_fit :: "chunking \<Rightarrow> nat \<Rightarrow> nat \<Rightarrow> nat \<Rightarrow> nat \<Rightarrow> nat \<Rightarrow> bool" where
  "chunks_fit c minSyncIn maxSyncIn minSyncOut maxSyncOut n \<longleftrightarrow>
     minSyncIn \<le> n * ck_input c \<and> n * ck_input c \<le> maxSyncIn \<and> minSyncOut \<le> n * ck_output c \<and> n * ck_output c \<le> maxSyncOut \<and>
     (one_chunk_only c \<longrightarrow> n \<le> 1)"

definition chunking_ok :: "chunking \<Rightarrow> bool" where
  "chunking_ok c \<longleftrightarrow> ck_input c \<ge> 1 \<and> ck_output c \<ge> 1 \<and> (\<not> ck_resampling c \<longrightarrow> ck_input c = 1 \<and> ck_output c = 1)"

lemma clamp_bounds: "lo \<le> hi \<Longrightarrow> lo \<le> clamp v lo hi \<and> clamp v lo hi \<le> hi \<and> (v \<le> hi \<longrightarrow> clamp v lo hi \<le> max v lo)"
  by (simp add: clamp_def)

lemma one_to_one_spec:
  assumes "r = one_to_one minIn maxIn minOut maxOut req"
  shows "(rs_status r = OK \<longleftrightarrow> max minIn minOut \<le> min maxIn maxOut) \<and>
    (rs_status r = OK \<longrightarrow> rs_in r = clamp req (max minIn minOut) (min maxIn maxOut) \<and> rs_out r = rs_in r) \<and>
    (rs_status r \<noteq> OK \<longrightarrow> rs_in r = 0 \<and> rs_out r = 0 \<and> rs_status r \<in> {INSUFFICIENT_INPUT_ITEMS, INSUFFICIENT_OUTPUT_ITEMS})"
  using assms by (auto simp: one_to_one_def insufficient_def Let_def)

lemma n_chunks_most:
  assumes "chunking_ok c" "ck_resampling c" "\<not> (ck_input c = 1 \<and> ck_output c = 1)"
  shows "n_chunks c maxIn maxOut * ck_input c \<le> maxIn \<and> n_chunks c maxIn maxOut * ck_output c \<le> maxOut \<and>
    (one_chunk_only c \<longrightarrow> n_chunks c maxIn maxOut \<le> 1) \<and>
    (\<forall>n. n * ck_input c \<le> maxIn \<longrightarrow> n * ck_output c \<le> maxOut \<longrightarrow> (one_chunk_only c \<longrightarrow> n \<le> 1) \<longrightarrow> n \<le> n_chunks c maxIn maxOut)"
proof (cases "one_chunk_only c")
  case True
  then have s: "ck_strided c \<and> isStrideActiveAndNotDefault c" by (simp add: one_chunk_only_def)
  have "n \<le> (if ck_input c \<le> maxIn \<and> ck_output c \<le> maxOut then 1 else 0)" if "n * ck_input c \<le> maxIn" "n * ck_output c \<le> maxOut" "n \<le> 1" for n
    using that by (cases n) auto
  then show ?thesis using s True by (simp add: n_chunks_def)
next
  case False
  then have s: "\<not> (ck_strided c \<and> isStrideActiveAndNotDefault c)" using assms by (auto simp: one_chunk_only_def)
  have io: "ck_input c > 0" "ck_output c > 0" using assms(1) by (auto simp: chunking_ok_def)
  have "min a b * ck_input c \<le> maxIn" if "a = maxIn div ck_input c" for a b
    using that by (metis div_times_less_eq_dividend min.cobounded1 mult_le_mono1 order_trans)
  moreover have "min a b * ck_output c \<le> maxOut" if "b = maxOut div ck_output c" for a b
    using that by (metis div_times_less_eq_dividend min.cobounded2 mult_le_mono1 order_trans)
  moreover have "n \<le> maxIn div ck_input c" if "n * ck_input c \<le> maxIn" for n using that io by (simp add: less_eq_div_iff_mult_less_eq)
  moreover have "n \<le> maxOut div ck_output c" if "n * ck_output c \<le> maxOut" for n using that io by (simp add: less_eq_div_iff_mult_less_eq)
  moreover have "n_chunks c maxIn maxOut = min (maxIn div ck_input c) (maxOut div ck_output c)" using s by (auto simp: n_chunks_def)
  ultimately show ?thesis using False by simp
qed

lemma soft_cut:
  assumes "chunking_ok c" "ck_resampling c" "\<not> (ck_input c = 1 \<and> ck_output c = 1)"
    and "N = n_chunks c maxIn maxOut" "minIn \<le> N * ck_input c" "minOut \<le> N * ck_output c" "req < N * ck_input c"
    and "n2 = min (clamp req (max minIn (ck_input c)) maxIn div ck_input c) (maxOut div ck_output c)"
  shows "max minIn (ck_input c) \<le> maxIn \<and> n2 * ck_input c \<le> maxIn \<and> n2 * ck_output c \<le> maxOut \<and> (one_chunk_only c \<longrightarrow> n2 \<le> 1)"
proof -
  note most = n_chunks_most [OF assms(1,2,3), of maxIn maxOut, folded assms(4)]
  have io: "ck_input c > 0" "ck_output c > 0" using assms(1) by (auto simp: chunking_ok_def)
  have "N \<ge> 1" using assms(7) by (cases N) auto
  then have "ck_input c \<le> N * ck_input c" by simp
  then have lo: "max minIn (ck_input c) \<le> N * ck_input c" "max minIn (ck_input c) \<le> maxIn" using assms(5) most by (simp_all add: order_trans [OF _ conjunct1 [OF most]])
  note cl = clamp_bounds [OF lo(2), of req]
  have "n2 * ck_input c \<le> clamp req (max minIn (ck_input c)) maxIn"
    unfolding assms(8) by (metis div_times_less_eq_dividend min.cobounded1 mult_le_mono1 order_trans)
  moreover have "clamp req (max minIn (ck_input c)) maxIn \<le> N * ck_input c"
    using cl lo assms(7) most by (auto simp: clamp_def)
  ultimately have le: "n2 * ck_input c \<le> N * ck_input c" by linarith
  then have "n2 \<le> N" using io by simp
  moreover have "n2 * ck_output c \<le> maxOut" unfolding assms(8) by (metis div_times_less_eq_dividend min.cobounded2 mult_le_mono1 order_trans)
  ultimately show ?thesis using lo most order_trans [OF le conjunct1 [OF most]] by auto
qed

lemma one_to_one_chunks:
  assumes "ck_input c = 1" "ck_output c = 1" "r = one_to_one minIn maxIn minOut maxOut req" "maxIn \<le> req \<or> any"
  shows "(rs_status r = OK \<longleftrightarrow> (\<exists>n. chunks_fit c minIn maxIn minOut maxOut n)) \<and>
    (rs_status r = OK \<longrightarrow> (\<exists>n. chunks_fit c minIn maxIn minOut maxOut n \<and> rs_in r = n * ck_input c \<and> rs_out r = n * ck_output c \<and>
       (maxIn \<le> req \<longrightarrow> (\<forall>k. chunks_fit c minIn maxIn minOut maxOut k \<longrightarrow> k \<le> n)))) \<and>
    (rs_status r \<noteq> OK \<longrightarrow> rs_in r = 0 \<and> rs_out r = 0 \<and> rs_status r \<in> {INSUFFICIENT_INPUT_ITEMS, INSUFFICIENT_OUTPUT_ITEMS})"
proof -
  let ?lo = "max minIn minOut" and ?hi = "min maxIn maxOut"
  note r = one_to_one_spec [OF assms(3)]
  have f: "chunks_fit c minIn maxIn minOut maxOut n \<longleftrightarrow> ?lo \<le> n \<and> n \<le> ?hi" for n
    using assms(1,2) by (auto simp: chunks_fit_def one_chunk_only_def)
  have ok: "rs_status r = OK \<longleftrightarrow> (\<exists>n. chunks_fit c minIn maxIn minOut maxOut n)"
    using r unfolding f by (meson order_refl order_trans)
  have "chunks_fit c minIn maxIn minOut maxOut (rs_in r) \<and> rs_out r = rs_in r \<and>
      (maxIn \<le> req \<longrightarrow> (\<forall>k. chunks_fit c minIn maxIn minOut maxOut k \<longrightarrow> k \<le> rs_in r))" if "rs_status r = OK"
  proof -
    have b: "?lo \<le> ?hi" "rs_in r = clamp req ?lo ?hi" "rs_out r = rs_in r" using r that by blast+
    have "clamp req ?lo ?hi = ?hi" if "maxIn \<le> req" using that b(1) by (auto simp: clamp_def)
    then show ?thesis using b clamp_bounds [OF b(1), of req] unfolding f by auto
  qed
  then show ?thesis using ok r assms(1,2) by auto
qed

text \<open>The size of a resampling call, with the products written out.\<close>

definition chunked :: "nat \<Rightarrow> chunking \<Rightarrow> resampling" where
  "chunked n c = \<lparr>rs_in = n * ck_input c, rs_out = n * ck_output c, rs_status = OK\<rparr>"

lemma computed_chunks:
  assumes "chunking_ok c" "ck_resampling c" "\<not> (ck_input c = 1 \<and> ck_output c = 1)" "maxIn \<le> size_max" "maxOut \<le> size_max"
    and N: "N = n_chunks c maxIn maxOut" and R: "R = (if req = 0 then size_max else req)"
    and n2: "n2 = min (clamp R (max minIn (ck_input c)) maxIn div ck_input c) (maxOut div ck_output c)"
  shows "computeResampling c minIn maxIn minOut maxOut req =
    (if N * ck_input c < minIn then insufficient INSUFFICIENT_INPUT_ITEMS
     else if N * ck_output c < minOut then insufficient INSUFFICIENT_OUTPUT_ITEMS
     else if R < N * ck_input c \<and> minIn \<le> n2 * ck_input c \<and> minOut \<le> n2 * ck_output c then chunked n2 c else chunked N c)"
proof -
  have w: "mul64 n a = n * a" if "n * a \<le> m" "m \<le> size_max" for n a m using that by simp
  note most = n_chunks_most [OF assms(1,2,3), of maxIn maxOut, folded N]
  have wN: "mul64 N (ck_input c) = N * ck_input c" "mul64 N (ck_output c) = N * ck_output c"
    using w [OF conjunct1 [OF most] assms(4)] w [OF conjunct1 [OF conjunct2 [OF most]] assms(5)] by simp_all
  have w2: "mul64 n2 (ck_input c) = n2 * ck_input c" "mul64 n2 (ck_output c) = n2 * ck_output c"
    if "\<not> N * ck_input c < minIn" "\<not> N * ck_output c < minOut" "R < N * ck_input c"
  proof -
    have "minIn \<le> N * ck_input c" "minOut \<le> N * ck_output c" using that by simp_all
    from soft_cut [OF assms(1-3) N this that(3) n2] have "n2 * ck_input c \<le> maxIn" "n2 * ck_output c \<le> maxOut" by blast+
    then show "mul64 n2 (ck_input c) = n2 * ck_input c" "mul64 n2 (ck_output c) = n2 * ck_output c" using w assms(4,5) by blast+
  qed
  have neg: "(\<not> ck_resampling c \<or> (ck_input c = 1 \<and> ck_output c = 1)) = False" using assms(2,3) by blast
  have "computeResampling c minIn maxIn minOut maxOut req =
    (if N * ck_input c < minIn then insufficient INSUFFICIENT_INPUT_ITEMS
     else if N * ck_output c < minOut then insufficient INSUFFICIENT_OUTPUT_ITEMS
     else if R < N * ck_input c then
       (if mul64 n2 (ck_input c) \<ge> minIn \<and> mul64 n2 (ck_output c) \<ge> minOut
        then \<lparr>rs_in = mul64 n2 (ck_input c), rs_out = mul64 n2 (ck_output c), rs_status = OK\<rparr> else chunked N c)
     else chunked N c)"
    unfolding computeResampling_def Let_def R [symmetric] N [symmetric] n2 [symmetric] wN chunked_def neg if_False by (rule refl)
  then show ?thesis using w2 by (simp add: chunked_def)
qed

lemma resampling_spec:
  assumes "chunking_ok c" "maxIn \<le> size_max" "maxOut \<le> size_max" and "r = computeResampling c minIn maxIn minOut maxOut req"
  shows "(rs_status r = OK \<longleftrightarrow> (\<exists>n. chunks_fit c minIn maxIn minOut maxOut n)) \<and>
    (rs_status r = OK \<longrightarrow> (\<exists>n. chunks_fit c minIn maxIn minOut maxOut n \<and> rs_in r = n * ck_input c \<and> rs_out r = n * ck_output c \<and>
       (req = 0 \<or> maxIn \<le> req \<longrightarrow> (\<forall>k. chunks_fit c minIn maxIn minOut maxOut k \<longrightarrow> k \<le> n)))) \<and>
    (rs_status r \<noteq> OK \<longrightarrow> rs_in r = 0 \<and> rs_out r = 0 \<and> rs_status r \<in> {INSUFFICIENT_INPUT_ITEMS, INSUFFICIENT_OUTPUT_ITEMS})"
proof (cases "\<not> ck_resampling c \<or> (ck_input c = 1 \<and> ck_output c = 1)")
  case True
  let ?req = "if req = 0 then size_max else req"
  have io: "ck_input c = 1" "ck_output c = 1" using True assms(1) by (auto simp: chunking_ok_def)
  have r: "r = one_to_one minIn maxIn minOut maxOut ?req" using True assms(4) by (simp add: computeResampling_def)
  have "maxIn \<le> ?req" if "req = 0 \<or> maxIn \<le> req" using that assms(2) by auto
  then show ?thesis using one_to_one_chunks [OF io r, of True] by blast
next
  case False
  then have d: "ck_resampling c" "\<not> (ck_input c = 1 \<and> ck_output c = 1)" by auto
  define N R where "N = n_chunks c maxIn maxOut" and "R = (if req = 0 then size_max else req)"
  define n2 where "n2 = min (clamp R (max minIn (ck_input c)) maxIn div ck_input c) (maxOut div ck_output c)"
  note most = n_chunks_most [OF assms(1) d, of maxIn maxOut, folded N_def]
  note r = computed_chunks [OF assms(1) d assms(2,3) N_def R_def n2_def, where minOut = minOut, folded assms(4)]
  let ?fit = "chunks_fit c minIn maxIn minOut maxOut"
  have le: "k \<le> N" if "?fit k" for k using that most by (simp add: chunks_fit_def)
  show ?thesis
  proof (cases "N * ck_input c < minIn \<or> N * ck_output c < minOut")
    case True
    have "\<not> ?fit k" for k
    proof
      assume k: "?fit k"
      then have "k * ck_input c \<le> N * ck_input c" "k * ck_output c \<le> N * ck_output c" using mult_le_mono1 [OF le] by blast+
      then show False using True k unfolding chunks_fit_def by linarith
    qed
    moreover have "r \<in> {insufficient INSUFFICIENT_INPUT_ITEMS, insufficient INSUFFICIENT_OUTPUT_ITEMS}" using True r by auto
    ultimately show ?thesis by (auto simp: insufficient_def)
  next
    case room: False
    then have lo: "minIn \<le> N * ck_input c" "minOut \<le> N * ck_output c" by auto
    let ?cut = "R < N * ck_input c \<and> minIn \<le> n2 * ck_input c \<and> minOut \<le> n2 * ck_output c"
    have "?fit n2" if ?cut using soft_cut [OF assms(1) d N_def lo conjunct1 [OF that] n2_def] that by (simp add: chunks_fit_def)
    moreover have "\<not> (req = 0 \<or> maxIn \<le> req)" if ?cut
      using that most assms(2) by (auto simp: R_def split: if_splits)
    moreover have "?fit N" using most lo by (simp add: chunks_fit_def)
    moreover have "r = chunked (if ?cut then n2 else N) c" using r lo by simp
    ultimately show ?thesis using le by (auto simp: chunked_def)
  qed
qed



section \<open>A call stays within its streams\<close>

lemma skip_spec:
  assumes "inputSamplesToSkipBeforeNextChunk m c = (skip, c')"
  shows "skip \<le> m \<and> c' = c\<lparr>ck_strideCounter := ck_strideCounter c - skip\<rparr> \<and> skip \<le> ck_strideCounter c \<and>
    (ck_strided c \<and> isStrideActiveAndNotDefault c \<longrightarrow> skip = min (ck_strideCounter c) m) \<and>
    (\<not> (ck_strided c \<and> isStrideActiveAndNotDefault c) \<longrightarrow> skip = 0)"
  using assms by (auto simp: inputSamplesToSkipBeforeNextChunk_def Let_def split: if_splits)

lemma active_counter [simp]: "isStrideActiveAndNotDefault (c\<lparr>ck_strideCounter := k\<rparr>) = isStrideActiveAndNotDefault c"
  by (simp add: isStrideActiveAndNotDefault_def)

lemma one_chunk_counter [simp]: "one_chunk_only (c\<lparr>ck_strideCounter := k\<rparr>) = one_chunk_only c"
  by (simp add: one_chunk_only_def)

lemma resampling_counter [simp]: "computeResampling (c\<lparr>ck_strideCounter := k\<rparr>) = computeResampling c"
proof -
  have "n_chunks (c\<lparr>ck_strideCounter := k\<rparr>) = n_chunks c" by (intro ext) (simp add: n_chunks_def)
  moreover have "ck_input (c\<lparr>ck_strideCounter := k\<rparr>) = ck_input c" "ck_output (c\<lparr>ck_strideCounter := k\<rparr>) = ck_output c"
    "ck_resampling (c\<lparr>ck_strideCounter := k\<rparr>) = ck_resampling c" by simp_all
  ultimately show ?thesis by (intro ext) (simp only: computeResampling_def)
qed

text \<open>How far the chunk may reach past the skipped samples: to the next tag, unless the minimum or the chunk needs more.\<close>

definition tag_reach :: "cache_reading \<Rightarrow> tag_scan \<Rightarrow> chunking \<Rightarrow> nat \<Rightarrow> nat" where
  "tag_reach ci scan c skip =
     (let nextTagLimit = (if ts_nextTag scan - skip \<ge> cr_minSync ci then ts_nextTag scan - skip else size_max)
      in if nextTagLimit \<ge> ck_input c then nextTagLimit else ck_input c)"

definition reach :: "nat \<Rightarrow> cache_reading \<Rightarrow> tag_scan \<Rightarrow> chunking \<Rightarrow> nat \<Rightarrow> nat" where
  "reach maxChunk ci scan c skip =
     min (cr_maxSync ci) (min maxChunk (min (cr_maxSyncAvailable ci - skip) (min (tag_reach ci scan c skip) (ts_nextEosTag scan - skip))))"

lemma limits_of_eq:
  assumes "limits_of req maxChunk ci co scan c = (l, c')"
  obtains skip r where "inputSamplesToSkipBeforeNextChunk (min (cr_maxSyncAvailable ci) (ts_nextEosTag scan)) c = (skip, c')"
    "r = computeResampling c (min (cr_minSync ci) (ts_nextEosTag scan)) (reach maxChunk ci scan c skip) (cr_minSync co) (min (cr_maxSync co) (cr_maxSyncAvailable co)) req"
    "sl_inputSkipBefore l = skip" "sl_resampledIn l = rs_in r" "sl_resampledOut l = rs_out r" "sl_resampledStatus l = rs_status r"
    "sl_isEosPresent l \<longleftrightarrow> \<not> ts_asyncOwed scan \<and> (ts_nextEosTag scan = 0 \<or> ts_nextEosTag scan - skip < cr_minSync ci \<or>
       ts_nextEosTag scan - skip < ck_input c \<or> mul64 (ck_output c) ((ts_nextEosTag scan - skip) div ck_input c) < cr_minSync co)"
proof -
  obtain skip d where s: "inputSamplesToSkipBeforeNextChunk (min (cr_maxSyncAvailable ci) (ts_nextEosTag scan)) c = (skip, d)" by (metis surj_pair)
  then have d: "d = c\<lparr>ck_strideCounter := ck_strideCounter c - skip\<rparr>" using skip_spec by blast
  let ?r = "computeResampling c (min (cr_minSync ci) (ts_nextEosTag scan)) (reach maxChunk ci scan c skip) (cr_minSync co) (min (cr_maxSync co) (cr_maxSyncAvailable co)) req"
  have "limits_of req maxChunk ci co scan c = (\<lparr>sl_resampledIn = rs_in ?r, sl_resampledOut = rs_out ?r, sl_inputSkipBefore = skip,
      sl_resampledStatus = rs_status ?r, sl_hasTag = ts_hasTag scan, sl_hasAnyTag = ts_hasAnyTag scan, sl_asyncEoS = ts_asyncEoS scan,
      sl_isEosPresent = (\<not> ts_asyncOwed scan \<and> (ts_nextEosTag scan = 0 \<or> ts_nextEosTag scan - skip < cr_minSync ci \<or>
        ts_nextEosTag scan - skip < ck_input c \<or> mul64 (ck_output c) ((ts_nextEosTag scan - skip) div ck_input c) < cr_minSync co)),
      sl_hasAsyncIn = cr_hasAsync ci, sl_hasAsyncOut = cr_hasAsync co, sl_draining = ts_draining scan\<rparr>, d)"
    unfolding limits_of_def reach_def tag_reach_def Let_def s prod.case unfolding d resampling_counter by (rule refl)
  with assms have "l = \<lparr>sl_resampledIn = rs_in ?r, sl_resampledOut = rs_out ?r, sl_inputSkipBefore = skip,
      sl_resampledStatus = rs_status ?r, sl_hasTag = ts_hasTag scan, sl_hasAnyTag = ts_hasAnyTag scan, sl_asyncEoS = ts_asyncEoS scan,
      sl_isEosPresent = (\<not> ts_asyncOwed scan \<and> (ts_nextEosTag scan = 0 \<or> ts_nextEosTag scan - skip < cr_minSync ci \<or>
        ts_nextEosTag scan - skip < ck_input c \<or> mul64 (ck_output c) ((ts_nextEosTag scan - skip) div ck_input c) < cr_minSync co)),
      sl_hasAsyncIn = cr_hasAsync ci, sl_hasAsyncOut = cr_hasAsync co, sl_draining = ts_draining scan\<rparr>" and c: "c' = d" by simp_all
  then show ?thesis by (intro that [of skip ?r, unfolded c, OF s refl]) (simp_all only: sample_limits.select_convs)
qed

lemma reach_bound: "cr_maxSync ci \<le> size_max \<Longrightarrow> reach m ci scan c skip \<le> size_max"
  by (simp add: reach_def)

lemma size_within:
  assumes "chunking_ok c" "maxIn \<le> size_max" "maxOut \<le> size_max" and "r = computeResampling c minIn maxIn minOut maxOut req"
  shows "\<exists>n. rs_in r = n * ck_input c \<and> rs_out r = n * ck_output c \<and> rs_in r \<le> maxIn \<and> rs_out r \<le> maxOut \<and> (one_chunk_only c \<longrightarrow> n \<le> 1)"
proof (cases "rs_status r = OK")
  case True
  then show ?thesis using resampling_spec [OF assms] unfolding chunks_fit_def by fastforce
next
  case False
  then have "rs_in r = 0 * ck_input c" "rs_out r = 0 * ck_output c" using resampling_spec [OF assms] by simp_all
  then show ?thesis by (metis mult_0 zero_le)
qed



section \<open>The stride over many calls\<close>

text \<open>
  One work call of a block that consumes what it is given, on the position of its inputs: the samples skipped before the chunk
  (\<^verbatim>\<open>skipInputSamples\<close>) and those consumed after it (\<^verbatim>\<open>finaliseIO\<close>). What the ports hold, the tags, the request and
  the room in the outputs are arbitrary in every call. The chunks processed are recorded with their start and length.
\<close>

type_synonym call_input = "nat \<times> nat \<times> cache_reading \<times> cache_reading \<times> tag_scan"

type_synonym stride_state = "nat \<times> chunking \<times> (nat \<times> nat) list"

definition strided_call :: "call_input \<Rightarrow> stride_state \<Rightarrow> stride_state" where
  "strided_call = (\<lambda>(req, maxChunk, ci, co, scan) (pos, c, chunks).
     (let (l, c1) = limits_of req maxChunk ci co scan c; start = pos + sl_inputSkipBefore l; processedIn = sl_resampledIn l
      in if processedIn = 0 then (start, c1, chunks)
         else (let (k, c2) = inputSamplesToConsumeAdjustedWithStride processedIn c1
               in (start + (if k > 0 then k else processedIn), c2, chunks @ [(start, processedIn)]))))"

definition call_ok :: "call_input \<Rightarrow> bool" where
  "call_ok = (\<lambda>(_, _, ci, co, _). cr_maxSync ci \<le> size_max \<and> cr_maxSync co \<le> size_max)"

definition stride_inv :: "chunking \<Rightarrow> stride_state \<Rightarrow> bool" where
  "stride_inv c0 = (\<lambda>(pos, c, chunks). c = c0\<lparr>ck_strideCounter := ck_strideCounter c\<rparr> \<and>
     pos + ck_strideCounter c = length chunks * ck_stride c0 \<and>
     (\<forall>i < length chunks. fst (chunks ! i) = i * ck_stride c0 \<and> (one_chunk_only c0 \<longrightarrow> snd (chunks ! i) = ck_input c0)))"

lemma strided_call_inv:
  assumes "chunking_ok c0" "ck_strided c0" "isStrideActiveAndNotDefault c0" "call_ok x" "stride_inv c0 (pos, c, chunks)"
  shows "stride_inv c0 (strided_call x (pos, c, chunks))"
proof -
  obtain req maxChunk ci co scan where x: "x = (req, maxChunk, ci, co, scan)" by (cases x)
  have c: "c = c0\<lparr>ck_strideCounter := ck_strideCounter c\<rparr>" and pos: "pos + ck_strideCounter c = length chunks * ck_stride c0"
    and chunks: "\<forall>i < length chunks. fst (chunks ! i) = i * ck_stride c0 \<and> (one_chunk_only c0 \<longrightarrow> snd (chunks ! i) = ck_input c0)"
    using assms(5) unfolding stride_inv_def prod.case by blast+
  have same: "chunking_ok c" "ck_strided c" "isStrideActiveAndNotDefault c" "one_chunk_only c = one_chunk_only c0" "ck_input c = ck_input c0" "ck_stride c = ck_stride c0"
    using assms(1-3) by (subst c; simp add: chunking_ok_def)+
  obtain l c1 where l: "limits_of req maxChunk ci co scan c = (l, c1)" by (metis surj_pair)
  obtain skip r where s: "inputSamplesToSkipBeforeNextChunk (min (cr_maxSyncAvailable ci) (ts_nextEosTag scan)) c = (skip, c1)"
    and r: "r = computeResampling c (min (cr_minSync ci) (ts_nextEosTag scan)) (reach maxChunk ci scan c skip) (cr_minSync co) (min (cr_maxSync co) (cr_maxSyncAvailable co)) req"
    and l': "sl_inputSkipBefore l = skip" "sl_resampledIn l = rs_in r"
    by (rule limits_of_eq [OF l])
  have k: "skip = min (ck_strideCounter c) (min (cr_maxSyncAvailable ci) (ts_nextEosTag scan))" "c1 = c\<lparr>ck_strideCounter := ck_strideCounter c - skip\<rparr>"
    "skip \<le> ck_strideCounter c" using skip_spec [OF s] same by blast+
  have bounds: "cr_maxSync ci \<le> size_max" "min (cr_maxSync co) (cr_maxSyncAvailable co) \<le> size_max" using assms(4) by (auto simp: call_ok_def x intro: min.coboundedI1)
  obtain n where n: "rs_in r = n * ck_input c" "rs_in r \<le> reach maxChunk ci scan c skip" "one_chunk_only c \<longrightarrow> n \<le> 1"
    using size_within [OF same(1) reach_bound [OF bounds(1)] bounds(2) r] by blast
  show ?thesis
  proof (cases "rs_in r = 0")
    case True
    then show ?thesis
      using c pos chunks k by (simp add: strided_call_def x l l' stride_inv_def) (metis chunking.surjective chunking.update_convs(6))
  next
    case False
    have "rs_in r \<le> cr_maxSyncAvailable ci - skip" "rs_in r \<le> ts_nextEosTag scan - skip" using n(2) by (simp_all add: reach_def)
    then have fin: "ck_strideCounter c = skip" using False k(1) by (auto simp: min_def split: if_splits)
    then have c1: "ck_strideCounter c1 = 0" using k(2) by simp
    let ?k = "min (ck_stride c) (rs_in r)"
    have cons: "inputSamplesToConsumeAdjustedWithStride (rs_in r) c1 = (?k, c1\<lparr>ck_strideCounter := ck_stride c - ?k\<rparr>)"
      using False same(2,3) c1 k(2) by (simp add: inputSamplesToConsumeAdjustedWithStride_def Let_def)
    have pos_k: "?k > 0" "?k \<le> ck_stride c" using False same(3) by (auto simp: isStrideActiveAndNotDefault_def)
    have one: "one_chunk_only c0 \<longrightarrow> rs_in r = ck_input c0" using n False same(4,5) by (cases n) auto
    have "strided_call x (pos, c, chunks) = (pos + skip + ?k, c1\<lparr>ck_strideCounter := ck_stride c - ?k\<rparr>, chunks @ [(pos + skip, rs_in r)])"
      using False pos_k(1) cons by (simp add: strided_call_def x l l' Let_def)
    moreover have "c1\<lparr>ck_strideCounter := y\<rparr> = c0\<lparr>ck_strideCounter := y\<rparr>" for y using c k(2) by (metis chunking.surjective chunking.update_convs(6))
    moreover have "pos + skip = length chunks * ck_stride c0" using pos fin by simp
    ultimately show ?thesis
      using chunks one pos_k(2) same(6) by (simp add: stride_inv_def nth_append less_Suc_eq)
  qed
qed


lemma strided_calls_inv:
  assumes "chunking_ok c0" "ck_strided c0" "isStrideActiveAndNotDefault c0"
  shows "\<forall>x \<in> set xs. call_ok x \<Longrightarrow> stride_inv c0 s \<Longrightarrow> stride_inv c0 (fold strided_call xs s)"
proof (induction xs arbitrary: s)
  case (Cons x xs)
  obtain pos c chunks where s: "s = (pos, c, chunks)" by (cases s)
  have "stride_inv c0 (strided_call x s)" unfolding s using strided_call_inv [OF assms] Cons.prems s by simp
  then show ?case using Cons by simp
qed simp

text \<open>
  C7. The stride. A block with a stride processes its chunks at the positions 0, \<open>stride\<close>, 2 * \<open>stride\<close> and so on of its input stream,
  each of \<open>input_chunk_size\<close> samples, whether the chunks overlap or leave a gap, and however the samples arrive, the
  outputs fill, the tags lie or the calls are limited: a skip that a call cannot finish continues in the next.
\<close>

theorem stride_positions:
  assumes "chunking_ok c" "ck_resampling c" "\<not> (ck_input c = 1 \<and> ck_output c = 1)" "ck_strided c" "isStrideActiveAndNotDefault c"
    and "ck_strideCounter c = 0" "\<forall>x \<in> set calls. call_ok x" and "fold strided_call calls (0, c, []) = (pos, c', chunks)"
  shows "chunks = map (\<lambda>i. (i * ck_stride c, ck_input c)) [0..<length chunks] \<and>
    pos + ck_strideCounter c' = length chunks * ck_stride c"
proof -
  have "stride_inv c (0, c, [])" using assms(6) by (simp add: stride_inv_def)
  then have inv: "stride_inv c (pos, c', chunks)" using strided_calls_inv [OF assms(1,4,5,7)] unfolding assms(8) [symmetric] by blast
  moreover have "one_chunk_only c" using assms(2-5) by (simp add: one_chunk_only_def)
  ultimately have "\<forall>i < length chunks. chunks ! i = (i * ck_stride c, ck_input c)" by (simp add: stride_inv_def prod_eq_iff)
  then have "chunks = map (\<lambda>i. (i * ck_stride c, ck_input c)) [0..<length chunks]" by (intro nth_equalityI) simp_all
  then show ?thesis using inv by (simp add: stride_inv_def)
qed

lemma stride_positions_witness:
  "let c = \<lparr>ck_resampling = True, ck_strided = True, ck_input = 2, ck_output = 2, ck_stride = 3, ck_strideCounter = 0\<rparr>;
       r = \<lambda>n. \<lparr>cr_minSync = 0, cr_maxSync = 100, cr_maxSyncAvailable = n, cr_hasAsync = False\<rparr>;
       (pos, c', chunks) = fold strided_call [(0, 50, r 2, r 9, no_scan), (0, 50, r 1, r 9, no_scan), (0, 50, r 2, r 9, no_scan)] (0, c, [])
   in chunks = map (\<lambda>i. (i * 3, 2)) [0..<length chunks] \<and> pos + ck_strideCounter c' = length chunks * 3"
proof -
  let ?c = "\<lparr>ck_resampling = True, ck_strided = True, ck_input = 2, ck_output = 2, ck_stride = 3, ck_strideCounter = 0\<rparr>"
  let ?r = "\<lambda>n. \<lparr>cr_minSync = 0, cr_maxSync = 100, cr_maxSyncAvailable = n, cr_hasAsync = False\<rparr>"
  let ?calls = "[(0, 50, ?r 2, ?r 9, no_scan), (0, 50, ?r 1, ?r 9, no_scan), (0, 50, ?r 2, ?r 9, no_scan)]"
  obtain pos c' chunks where f: "fold strided_call ?calls (0, ?c, []) = (pos, c', chunks)" by (metis prod_cases3)
  have "chunking_ok ?c" "isStrideActiveAndNotDefault ?c" "\<forall>x \<in> set ?calls. call_ok x"
    by (simp_all add: chunking_ok_def isStrideActiveAndNotDefault_def call_ok_def size_max_def)
  from stride_positions [OF this(1) _ _ _ this(2) _ this(3) f] show ?thesis unfolding Let_def f by simp
qed

section \<open>A block moves while it has a chunk\<close>

lemma size_positive:
  assumes "chunking_ok c" "maxIn \<le> size_max" "maxOut \<le> size_max" "minIn \<le> ck_input c" "ck_input c \<le> maxIn" "minOut \<le> ck_output c" "ck_output c \<le> maxOut"
    and r: "r = computeResampling c minIn maxIn minOut maxOut req"
  shows "rs_status r = OK \<and> 0 < rs_in r"
proof (cases "\<not> ck_resampling c \<or> (ck_input c = 1 \<and> ck_output c = 1)")
  case True
  let ?req = "if req = 0 then size_max else req"
  have io: "ck_input c = 1" "ck_output c = 1" using True assms(1) by (auto simp: chunking_ok_def)
  have o: "r = one_to_one minIn maxIn minOut maxOut ?req" using True r by (simp add: computeResampling_def)
  have "max minIn minOut \<le> min maxIn maxOut" "0 < ?req" "0 < min maxIn maxOut" using assms(4-7) io by (auto simp: size_max_def)
  then show ?thesis using one_to_one_spec [OF o] by (auto simp: clamp_def)
next
  case False
  then have d: "ck_resampling c" "\<not> (ck_input c = 1 \<and> ck_output c = 1)" by auto
  define N R where "N = n_chunks c maxIn maxOut" and "R = (if req = 0 then size_max else req)"
  define n2 where "n2 = min (clamp R (max minIn (ck_input c)) maxIn div ck_input c) (maxOut div ck_output c)"
  have io: "0 < ck_input c" "0 < ck_output c" using assms(1) by (auto simp: chunking_ok_def)
  have "1 * ck_input c \<le> maxIn" "1 * ck_output c \<le> maxOut" using assms(5,7) by simp_all
  then have "1 \<le> N" using n_chunks_most [OF assms(1) d, of maxIn maxOut] unfolding N_def by blast
  then have room: "ck_input c \<le> N * ck_input c" "ck_output c \<le> N * ck_output c" "0 < N" by simp_all
  have "max minIn (ck_input c) = ck_input c" using assms(4) by simp
  then have "ck_input c \<le> clamp R (max minIn (ck_input c)) maxIn" using clamp_bounds [OF assms(5), of R] by simp
  then have "0 < clamp R (max minIn (ck_input c)) maxIn div ck_input c" "0 < maxOut div ck_output c" using io assms(7) by (simp_all add: div_greater_zero_iff)
  then have n2: "0 < n2" by (simp add: n2_def)
  have "r \<in> {chunked n2 c, chunked N c}"
    using computed_chunks [OF assms(1) d assms(2,3) N_def R_def n2_def, where minOut = minOut, folded r] room assms(4,6) by auto
  then show ?thesis using n2 room(3) io by (auto simp: chunked_def)
qed





section \<open>A block at the end of its streams does not wait for ever\<close>

text \<open>A sequence of calls, each with what the last call returned, the chunk size, the ports and whether the block drains.\<close>

type_synonym drain_call = "bool \<times> nat \<times> in_port list \<times> out_port list \<times> bool"

definition drain_call :: "drain_call \<Rightarrow> bool \<times> stall \<Rightarrow> bool \<times> stall" where
  "drain_call = (\<lambda>(waited, chunk, ins, outs, draining) (_, s). isDrainStalled chunk ins outs draining (s\<lparr>st_waitedOnOutput := waited\<rparr>))"

text \<open>A call in which the block drains, nothing waits on an output and the ports show the mark \<open>w\<close>.\<close>

definition still :: "drain_mark \<Rightarrow> drain_call \<Rightarrow> bool" where
  "still w = (\<lambda>(waited, chunk, ins, outs, draining). draining \<and> \<not> waited \<and> drainWatermark ins outs = w \<and>
     \<not> list_ex (\<lambda>p. pt_connected p \<and> pt_available p < max (pt_min p) (if pt_sync p then chunk else 1)) outs)"

lemma drain_call_still:
  assumes "still w x"
  shows "drain_call x (b, s) =
    (if st_drainMark s = w then (st_nDrainStalls s + 1 \<ge> kStallLimit, s\<lparr>st_waitedOnOutput := False, st_drainingCalls := st_drainingCalls s + 1, st_nDrainStalls := st_nDrainStalls s + 1\<rparr>)
     else (False, s\<lparr>st_waitedOnOutput := False, st_drainingCalls := st_drainingCalls s + 1, st_drainMark := w, st_nDrainStalls := 0\<rparr>))"
proof -
  obtain waited chunk ins outs draining where x: "x = (waited, chunk, ins, outs, draining)" by (cases x)
  have d: "draining" "\<not> waited" and w: "drainWatermark ins outs = w"
    and o: "\<not> list_ex (\<lambda>p. pt_connected p \<and> pt_available p < max (pt_min p) (if pt_sync p then chunk else 1)) outs"
    using assms unfolding still_def x prod.case by blast+
  have "\<not> isWaitingOnOutput chunk outs (s\<lparr>st_waitedOnOutput := waited\<rparr>)" using d(2) o by (simp add: isWaitingOnOutput_def del: list_ex_iff)
  then show ?thesis using d w by (simp add: drain_call_def x isDrainStalled_def Let_def)
qed

lemma drain_calls_count:
  assumes "\<forall>x \<in> set xs. still w x" "st_drainMark s = w" "xs \<noteq> []"
  shows "fst (fold drain_call xs (b, s)) = (st_nDrainStalls s + length xs \<ge> kStallLimit)"
  using assms
proof (induction xs arbitrary: b s)
  case (Cons x xs)
  let ?s = "s\<lparr>st_waitedOnOutput := False, st_drainingCalls := st_drainingCalls s + 1, st_nDrainStalls := st_nDrainStalls s + 1\<rparr>"
  have c: "drain_call x (b, s) = (st_nDrainStalls s + 1 \<ge> kStallLimit, ?s)" using drain_call_still [of w x b s] Cons.prems by simp
  show ?case
  proof (cases "xs = []")
    case True
    then show ?thesis using c by simp
  next
    case False
    then show ?thesis using Cons.IH [of ?s] Cons.prems c by simp
  qed
qed simp

text \<open>The number a block counts is covered by calls in which nothing moved.\<close>

definition count_inv :: "drain_call list \<Rightarrow> stall \<Rightarrow> bool" where
  "count_inv xs s \<longleftrightarrow> st_nDrainStalls s \<le> length xs \<and>
     (\<forall>x \<in> set (drop (length xs - st_nDrainStalls s) xs). still (st_drainMark s) x)"

lemma drain_call_inv:
  assumes "count_inv xs s"
  shows "count_inv (xs @ [x]) (snd (drain_call x (b, s))) \<and> (fst (drain_call x (b, s)) \<longrightarrow> kStallLimit \<le> st_nDrainStalls (snd (drain_call x (b, s))))"
proof -
  obtain waited chunk ins outs draining where x: "x = (waited, chunk, ins, outs, draining)" by (cases x)
  show ?thesis
  proof (cases "\<exists>w. still w x")
    case True
    then obtain w where w: "still w x" ..
    have "drop (Suc (length xs) - Suc (st_nDrainStalls s)) (xs @ [x]) = drop (length xs - st_nDrainStalls s) xs @ [x]"
      using assms by (simp add: count_inv_def)
    then show ?thesis using drain_call_still [OF w, of b s] assms w by (cases "st_drainMark s = w") (auto simp: count_inv_def)
  next
    case False
    then have "\<not> draining \<or> isWaitingOnOutput chunk outs (s\<lparr>st_waitedOnOutput := waited\<rparr>)"
      by (auto simp: still_def x isWaitingOnOutput_def simp del: list_ex_iff)
    then show ?thesis by (auto simp: drain_call_def x isDrainStalled_def count_inv_def)
  qed
qed

lemma drain_calls_inv:
  assumes "count_inv xs s" "ys \<noteq> []"
  shows "count_inv (xs @ ys) (snd (fold drain_call ys (b, s))) \<and>
    (fst (fold drain_call ys (b, s)) \<longrightarrow> kStallLimit \<le> st_nDrainStalls (snd (fold drain_call ys (b, s))))"
  using assms
proof (induction ys arbitrary: xs b s)
  case (Cons y ys)
  note c = drain_call_inv [OF Cons.prems(1), of y b]
  obtain b' s' where d: "drain_call y (b, s) = (b', s')" by (metis surj_pair)
  show ?case
  proof (cases "ys = []")
    case True
    then show ?thesis using c d by simp
  next
    case False
    then show ?thesis using Cons.IH [of "xs @ [y]" s' b'] c d by simp
  qed
qed simp

text \<open>
  C10. The end of a drain. A block whose inputs have ended and whose calls move nothing is reported as stalled after at most
  \<open>kStallLimit + 1\<close> calls, so it ends; and it is reported only when nothing moved and nothing waited on an output in
  \<open>kStallLimit\<close> calls in a row, so a block that still makes progress, or that waits on the blocks downstream, is never
  ended.
\<close>

theorem drain_ends:
  assumes "calls \<noteq> []" and "st_nDrainStalls s = 0"
  shows "(\<forall>w. (\<forall>x \<in> set calls. still w x) \<longrightarrow> kStallLimit < length calls \<longrightarrow> fst (fold drain_call calls (b, s))) \<and>
    (fst (fold drain_call calls (b, s)) \<longrightarrow> kStallLimit \<le> length calls \<and>
       (\<exists>w. \<forall>x \<in> set (drop (length calls - kStallLimit) calls). still w x))"
proof (rule conjI)
  show "\<forall>w. (\<forall>x \<in> set calls. still w x) \<longrightarrow> kStallLimit < length calls \<longrightarrow> fst (fold drain_call calls (b, s))"
  proof (intro allI impI)
    fix w assume st: "\<forall>x \<in> set calls. still w x" and len: "kStallLimit < length calls"
    then obtain x xs where c: "calls = x # xs" by (cases calls) auto
    have ne: "xs \<noteq> []" using len c by (auto simp: kStallLimit_def)
    obtain b' s' where d: "drain_call x (b, s) = (b', s')" by (metis surj_pair)
    have "st_drainMark s' = w" using drain_call_still [of w x b s] st c d by (auto split: if_splits)
    then have "fst (fold drain_call xs (b', s')) = (st_nDrainStalls s' + length xs \<ge> kStallLimit)"
      using drain_calls_count [of xs w s' b'] st c ne by simp
    then show "fst (fold drain_call calls (b, s))" using c d len by simp
  qed
next
  have "count_inv [] s" using assms(2) by (simp add: count_inv_def)
  note inv = drain_calls_inv [OF this assms(1), of b]
  let ?s = "snd (fold drain_call calls (b, s))"
  show "fst (fold drain_call calls (b, s)) \<longrightarrow> kStallLimit \<le> length calls \<and> (\<exists>w. \<forall>x \<in> set (drop (length calls - kStallLimit) calls). still w x)"
  proof
    assume "fst (fold drain_call calls (b, s))"
    then have n: "kStallLimit \<le> st_nDrainStalls ?s" "st_nDrainStalls ?s \<le> length calls" using inv by (auto simp: count_inv_def)
    then have "set (drop (length calls - kStallLimit) calls) \<subseteq> set (drop (length calls - st_nDrainStalls ?s) calls)"
      by (intro set_drop_subset_set_drop) simp
    then show "kStallLimit \<le> length calls \<and> (\<exists>w. \<forall>x \<in> set (drop (length calls - kStallLimit) calls). still w x)"
      using inv n by (fastforce simp: count_inv_def)
  qed
qed

lemma drain_ends_witness:
  "fst (fold drain_call (replicate 1025 (False, 1, [], [], True)) (False, \<lparr>st_waitedOnOutput = False, st_drainMark = no_mark,
     st_nDrainStalls = 0, st_epilogueWaitMark = no_mark, st_nEpilogueWaits = 0, st_drainingCalls = 0\<rparr>))"
proof -
  let ?s = "\<lparr>st_waitedOnOutput = False, st_drainMark = no_mark, st_nDrainStalls = 0, st_epilogueWaitMark = no_mark, st_nEpilogueWaits = 0, st_drainingCalls = 0\<rparr>"
  let ?calls = "replicate 1025 (False, 1, [], [], True) :: drain_call list"
  have "\<forall>x \<in> set ?calls. still no_mark x" by (simp add: still_def drainWatermark_def no_mark_def)
  moreover have "kStallLimit < length ?calls" by (simp add: kStallLimit_def)
  moreover have "?calls \<noteq> []" "st_nDrainStalls ?s = 0" by simp_all
  ultimately show ?thesis using drain_ends [of ?calls ?s False] by blast
qed

text \<open>A counter left over by an old stride is skipped as soon as a new stride is active, whatever the settings were between.\<close>

lemma stale_stride:
  assumes "ck_strided c" "stride \<noteq> 0" "stride \<noteq> ck_input c"
  shows "inputSamplesToSkipBeforeNextChunk avail (c\<lparr>ck_stride := stride\<rparr>) =
    (min (ck_strideCounter c) avail, c\<lparr>ck_stride := stride, ck_strideCounter := ck_strideCounter c - min (ck_strideCounter c) avail\<rparr>)"
proof -
  have "c\<lparr>ck_stride := stride\<rparr> = c\<lparr>ck_stride := stride, ck_strideCounter := 0\<rparr>" if "ck_strideCounter c = 0" using that by (cases c) simp
  then show ?thesis using assms by (simp add: inputSamplesToSkipBeforeNextChunk_def isStrideActiveAndNotDefault_def Let_def)
qed

end
