(* ===== verification/TagForwarding.thy ===== *)
theory TagForwarding
  imports BlockSizing
begin

text \<open>
  How a block hands tags on (\<^verbatim>\<open>core/include/gnuradio-4.0/Block.hpp\<close> and the spans of \<^verbatim>\<open>Port.hpp\<close>): the window of tags an
  input span holds and retires, the filter and the mapping of their positions, and the merge into the tags an output span
  holds already. The product of a rate and the chunk ratio, \<^verbatim>\<open>float(out) / float(in) * rate\<close>, is a parameter on bit patterns.
\<close>

section \<open>Input spans\<close>

record in_span =
  is_streamIndex :: nat
  is_size :: nat
  is_connected :: bool
  is_sync :: bool
  is_rawTags :: "gr_tag list"
  is_consumeRequested :: "nat option"
  is_tagsConsumed :: "nat option"

text \<open>The tags a ring holds in front of the end of a chunk of \<open>nSamples\<close> at the position \<open>offset\<close>, and those up to an index.\<close>

definition getTagsInRange :: "nat \<Rightarrow> gr_tag list \<Rightarrow> nat \<Rightarrow> gr_tag list" where
  "getTagsInRange nSamples ring offset = takeWhile (\<lambda>t. tag_index t < offset + nSamples) ring"

definition getTagsUpTo :: "nat \<Rightarrow> gr_tag list \<Rightarrow> gr_tag list" where
  "getTagsUpTo lastIndex ring = takeWhile (\<lambda>t. \<not> tag_index t > lastIndex) ring"

definition port_get :: "nat \<Rightarrow> in_port \<Rightarrow> in_span" where
  "port_get nSamples p = \<lparr>is_streamIndex = pt_position p, is_size = nSamples, is_connected = pt_connected p, is_sync = pt_sync p,
     is_rawTags = getTagsInRange nSamples (ip_tags p) (pt_position p), is_consumeRequested = None, is_tagsConsumed = None\<rparr>"

definition getRemainingTags :: "nat \<Rightarrow> in_port \<Rightarrow> in_span" where
  "getRemainingTags lastIndex p = \<lparr>is_streamIndex = pt_position p, is_size = 0, is_connected = pt_connected p, is_sync = pt_sync p,
     is_rawTags = getTagsUpTo lastIndex (ip_tags p), is_consumeRequested = None, is_tagsConsumed = None\<rparr>"

definition relIndex :: "nat \<Rightarrow> nat \<Rightarrow> int" where
  "relIndex absolute base = (if absolute \<ge> base then int (absolute - base) else - int (base - absolute))"

text \<open>The tags of a span with their position relative to its first sample; the search for the end relies on their order.\<close>

definition span_tags :: "in_span \<Rightarrow> (int \<times> property_map) list" where
  "span_tags s = map (\<lambda>t. (relIndex (tag_index t) (is_streamIndex s), tag_map t)) (is_rawTags s)"

definition span_tags_until :: "nat \<Rightarrow> in_span \<Rightarrow> (int \<times> property_map) list" where
  "span_tags_until n s = map (\<lambda>t. (relIndex (tag_index t) (is_streamIndex s), tag_map t))
     (takeWhile (\<lambda>t. tag_index t < is_streamIndex s + n) (is_rawTags s))"

definition consumeTags :: "nat \<Rightarrow> in_span \<Rightarrow> in_span" where
  "consumeTags n s = s\<lparr>is_tagsConsumed := Some (length (takeWhile (\<lambda>t. tag_index t < is_streamIndex s + n) (is_rawTags s)))\<rparr>"

text \<open>The destructor of the last span of a port with \<^verbatim>\<open>ProcessAll\<close>: how many tags leave the ring.\<close>

definition release_tags :: "bool \<Rightarrow> in_span \<Rightarrow> nat" where
  "release_tags consumeOnlyFirstTag s =
     value_else 0 (is_tagsConsumed
       (if is_tagsConsumed s \<noteq> None \<or> is_size s = 0 \<or> is_consumeRequested s = Some 0 then s
        else if consumeOnlyFirstTag then consumeTags 1 s
        else consumeTags (value_else (is_size s) (is_consumeRequested s)) s))"

section \<open>Output spans\<close>

text \<open>A span with its share of the tag ring; the tags published so far are its first \<^verbatim>\<open>tagsPublished\<close> slots.\<close>

record out_span =
  os_streamIndex :: nat
  os_size :: nat
  os_connected :: bool
  os_publishRequested :: "nat option"
  os_slots :: nat
  os_tags :: "gr_tag list"
  os_tagsDropped :: nat

definition placeTag :: "property_map \<Rightarrow> nat \<Rightarrow> out_span \<Rightarrow> out_span" where
  "placeTag m offset s = s\<lparr>os_tags := os_tags s @ [\<lparr>tag_index = os_streamIndex s + offset, tag_map = canonicalizeKeys m\<rparr>]\<rparr>"

definition span_publishTag :: "property_map \<Rightarrow> nat \<Rightarrow> out_span \<Rightarrow> out_span" where
  "span_publishTag m offset s =
     (if \<not> os_connected s then s
      else if length (os_tags s) + 1 \<ge> os_slots s then s\<lparr>os_tagsDropped := os_tagsDropped s + 1\<rparr>
      else placeTag m offset s)"

definition span_publishEoSTag :: "property_map \<Rightarrow> nat \<Rightarrow> out_span \<Rightarrow> out_span" where
  "span_publishEoSTag m offset s =
     (if \<not> os_connected s then s
      else if length (os_tags s) \<ge> os_slots s then s\<lparr>os_tagsDropped := os_tagsDropped s + 1\<rparr>
      else placeTag m offset s)"

definition end_of_stream_map :: property_map where
  "end_of_stream_map = [(gr_key ''end_of_stream'', VBool True)]"

definition publishEoS :: "out_span list \<Rightarrow> out_span list" where
  "publishEoS outs = map (\<lambda>s. span_publishEoSTag end_of_stream_map (value_else 0 (os_publishRequested s)) s) outs"

section \<open>Forwarding\<close>

text \<open>What a block's type says about its tags: the dropped keys, the propagation, whether it maps tags by its chunk ratio or
  keeps their offsets, and its number of stream inputs.\<close>

record tag_policy =
  tp_droppedKeys :: "string list"
  tp_noTagPropagation :: bool
  tp_backward :: bool
  tp_override :: bool
  tp_allSync :: bool
  tp_nInputs :: nat

definition mapsTagsByChunkRatio :: "tag_policy \<Rightarrow> chunking \<Rightarrow> bool" where
  "mapsTagsByChunkRatio P c \<longleftrightarrow> ck_resampling c \<and> \<not> tp_override P"

definition keepsTagOffsets :: "tag_policy \<Rightarrow> chunking \<Rightarrow> bool" where
  "keepsTagOffsets P c \<longleftrightarrow> \<not> ck_resampling c \<and> \<not> ck_strided c \<and> tp_allSync P \<and> \<not> tp_noTagPropagation P \<and> \<not> tp_backward P \<and> \<not> tp_override P"

definition hasWholeChunkTagWindow :: "tag_policy \<Rightarrow> chunking \<Rightarrow> bool" where
  "hasWholeChunkTagWindow P c \<longleftrightarrow> tp_backward P \<or> mapsTagsByChunkRatio P c \<or> keepsTagOffsets P c"

type_synonym rate_scale = "nat \<Rightarrow> nat \<Rightarrow> 32 word \<Rightarrow> 32 word"

definition scaleSampleRateByChunkRatio :: "rate_scale \<Rightarrow> chunking \<Rightarrow> property_map \<Rightarrow> property_map" where
  "scaleSampleRateByChunkRatio R c m =
     (if \<not> ck_resampling c \<or> ck_input c = ck_output c then m
      else (case map_of m (gr_key ''sample_rate'') of
              Some (VFloat32 rate) \<Rightarrow> AList.update (gr_key ''sample_rate'') (VFloat32 (R (ck_output c) (ck_input c) rate)) m
            | _ \<Rightarrow> m))"

definition keep_entry :: "tag_policy \<Rightarrow> string \<times> pmt \<Rightarrow> property_map \<Rightarrow> property_map" where
  "keep_entry P = (\<lambda>(key, v) dst.
     if key \<in> set (tp_droppedKeys P) then dst
     else (case v of
             VMap meta \<Rightarrow>
               if tp_droppedKeys P \<noteq> [] \<and> key = gr_key ''trigger_meta_info''
               then AList.update key (VMap (fold (\<lambda>(k, w) kept. if k \<in> set (tp_droppedKeys P) then kept else AList.update k w kept) meta [])) dst
               else AList.update key v dst
           | _ \<Rightarrow> AList.update key v dst))"

definition filterAndSubstituteTag :: "rate_scale \<Rightarrow> tag_policy \<Rightarrow> chunking \<Rightarrow> property_map \<Rightarrow> property_map" where
  "filterAndSubstituteTag R P c src = scaleSampleRateByChunkRatio R c (fold (keep_entry P) src [])"

definition outputIndexOf :: "chunking \<Rightarrow> nat \<Rightarrow> nat" where
  "outputIndexOf c i =
     (if ck_resampling c then if ck_input c = 0 then i else mul64 i (ck_output c) div ck_input c else i)"

definition collect_tag :: "rate_scale \<Rightarrow> tag_policy \<Rightarrow> chunking \<Rightarrow> int \<times> property_map \<Rightarrow> (nat \<times> property_map) list \<Rightarrow> (nat \<times> property_map) list" where
  "collect_tag R P c = (\<lambda>(rel, m) forwarded.
     (let kept = filterAndSubstituteTag R P c m
      in if kept = [] then forwarded
         else forwarded @ [(if tp_backward P then 0 else outputIndexOf c (nat (max 0 rel)), kept)]))"

definition kDedupCapacity :: nat where
  "kDedupCapacity = 8"

text \<open>With several inputs a tag equal to one of the first eight different ones is forwarded once.\<close>

definition dedup_tag :: "rate_scale \<Rightarrow> tag_policy \<Rightarrow> chunking \<Rightarrow> int \<times> property_map \<Rightarrow>
    (int \<times> property_map) list \<times> (nat \<times> property_map) list \<Rightarrow> (int \<times> property_map) list \<times> (nat \<times> property_map) list" where
  "dedup_tag R P c = (\<lambda>(rel, m) (seen, forwarded).
     if list_ex (\<lambda>(r, m'). r = rel \<and> pmt_eq (VMap m') (VMap m)) seen then (seen, forwarded)
     else (if length seen < kDedupCapacity then seen @ [(rel, m)] else seen, collect_tag R P c (rel, m) forwarded))"

definition take_part :: "in_span \<Rightarrow> bool" where
  "take_part s \<longleftrightarrow> is_sync s \<and> is_connected s"

definition collected :: "rate_scale \<Rightarrow> tag_policy \<Rightarrow> chunking \<Rightarrow> nat \<Rightarrow> in_span list \<Rightarrow> (nat \<times> property_map) list" where
  "collected R P c window ins =
     (let tags = concat (map (span_tags_until window) [s \<leftarrow> ins. take_part s])
      in if tp_nInputs P \<le> 1 then fold (collect_tag R P c) tags []
         else sort_key fst (snd (fold (dedup_tag R P c) tags ([], []))))"

text \<open>The merge by index: the tags present before an offset, then the forwarded one.\<close>

definition publish_below :: "nat option \<Rightarrow> gr_tag list \<times> out_span \<Rightarrow> gr_tag list \<times> out_span" where
  "publish_below offset = (\<lambda>(present, s).
     (let below = (\<lambda>t. case offset of None \<Rightarrow> True | Some k \<Rightarrow> tag_index t - os_streamIndex s < k)
      in (dropWhile below present, fold (\<lambda>t. span_publishTag (tag_map t) (tag_index t - os_streamIndex s)) (takeWhile below present) s)))"

definition publishMergedByIndex :: "(nat \<times> property_map) list \<Rightarrow> out_span \<Rightarrow> out_span" where
  "publishMergedByIndex forwarded out =
     (if \<not> os_connected out then out
      else (let endIndex = value_else (os_size out) (os_publishRequested out);
                step = (\<lambda>(offset, m) x. let k = min offset endIndex; (present, s) = publish_below (Some k) x in (present, span_publishTag m k s))
            in snd (publish_below None (fold step forwarded (os_tags out, out\<lparr>os_tags := []\<rparr>)))))"

definition forwardInputTags :: "rate_scale \<Rightarrow> tag_policy \<Rightarrow> chunking \<Rightarrow> in_span list \<Rightarrow> nat \<Rightarrow> nat option \<Rightarrow> out_span list \<Rightarrow> out_span list" where
  "forwardInputTags R P c ins processedIn override outs =
     (if tp_noTagPropagation P then outs
      else (let window = value_else (if hasWholeChunkTagWindow P c then processedIn else 1) override;
                forwarded = collected R P c window ins
            in if forwarded = [] then outs else map (publishMergedByIndex forwarded) outs))"

text \<open>The tags left at the end of the streams leave at the end-of-stream index, each once, without the end-of-stream key.\<close>

definition remaining_tag :: "rate_scale \<Rightarrow> tag_policy \<Rightarrow> chunking \<Rightarrow> gr_tag \<Rightarrow> gr_tag list \<times> (nat \<times> property_map) list \<Rightarrow> gr_tag list \<times> (nat \<times> property_map) list" where
  "remaining_tag R P c t = (\<lambda>(seen, remaining).
     if tp_nInputs P > 1 \<and> list_ex (\<lambda>o'. tag_index o' = tag_index t \<and> pmt_eq (VMap (tag_map o')) (VMap (tag_map t))) seen then (seen, remaining)
     else (let m = AList.delete (gr_key ''end_of_stream'') (filterAndSubstituteTag R P c (tag_map t))
           in (if tp_nInputs P > 1 then seen @ [t] else seen, if m = [] then remaining else remaining @ [(tag_index t, m)])))"

definition forwardRemainingInputTags :: "rate_scale \<Rightarrow> tag_policy \<Rightarrow> chunking \<Rightarrow> in_span list \<Rightarrow> out_span list \<Rightarrow> out_span list" where
  "forwardRemainingInputTags R P c ins outs =
     (if tp_noTagPropagation P then outs
      else (let tags = concat (map (\<lambda>s. [t \<leftarrow> is_rawTags s. \<not> tag_index t < is_streamIndex s]) [s \<leftarrow> ins. take_part s]);
                remaining = sort_key fst (snd (fold (remaining_tag R P c) tags ([], [])))
            in fold (\<lambda>(_, m). map (span_publishTag m 0)) remaining outs))"

text \<open>Parameters the settings hand on: a later value replaces an earlier one, and they are placed behind the tags in the span.\<close>

definition mergeForwardParams :: "property_map \<Rightarrow> property_map \<Rightarrow> property_map" where
  "mergeForwardParams pending fresh = fold (\<lambda>(k, v). AList.update k v) fresh pending"

definition publishForwardParams :: "property_map \<Rightarrow> out_span \<Rightarrow> out_span" where
  "publishForwardParams params s =
     (let lastIndex = (if os_tags s = [] then 0 else tag_index (last (os_tags s)))
      in span_publishTag params (if lastIndex > os_streamIndex s then lastIndex - os_streamIndex s else 0) s)"

section \<open>The merge is a stable sort\<close>

definition canonical_tag :: "gr_tag \<Rightarrow> gr_tag" where
  "canonical_tag t = t\<lparr>tag_map := canonicalizeKeys (tag_map t)\<rparr>"

lemma canonical_index [simp]: "tag_index (canonical_tag t) = tag_index t"
  by (simp add: canonical_tag_def)

fun merge_tags :: "gr_tag list \<Rightarrow> gr_tag list \<Rightarrow> gr_tag list" where
  "merge_tags [] ps = ps"
| "merge_tags (f # fs) ps =
     takeWhile (\<lambda>t. tag_index t < tag_index f) ps @ f # merge_tags fs (dropWhile (\<lambda>t. tag_index t < tag_index f) ps)"

lemma mset_merge: "mset (merge_tags fs ps) = mset fs + mset ps"
proof (induction fs ps rule: merge_tags.induct)
  case (2 f fs ps)
  have "mset ps = mset (takeWhile (\<lambda>t. tag_index t < tag_index f) ps) + mset (dropWhile (\<lambda>t. tag_index t < tag_index f) ps)"
    by (metis mset_append takeWhile_dropWhile_id)
  then show ?case using 2 by simp
qed simp

lemma set_merge: "set (merge_tags fs ps) = set fs \<union> set ps"
  using mset_merge [of fs ps] by (metis set_mset_mset set_mset_union)

lemma dropWhile_above: "sorted (map f xs) \<Longrightarrow> x \<in> set (dropWhile (\<lambda>t. f t < k) xs) \<Longrightarrow> k \<le> f x" for k :: nat
proof (induction xs)
  case (Cons y ys)
  then show ?case by (cases "f y < k") auto
qed simp

lemma sorted_merge:
  "sorted (map tag_index fs) \<Longrightarrow> sorted (map tag_index ps) \<Longrightarrow> sorted (map tag_index (merge_tags fs ps))"
proof (induction fs ps rule: merge_tags.induct)
  case (2 f fs ps)
  let ?below = "\<lambda>t. tag_index t < tag_index f"
  have d: "sorted (map tag_index (dropWhile ?below ps))" using "2.prems"(2) by (simp add: sorted_wrt_map sorted_wrt_dropWhile)
  have t: "sorted (map tag_index (takeWhile ?below ps))" using "2.prems"(2) by (simp add: sorted_wrt_map sorted_wrt_takeWhile)
  have rest: "tag_index f \<le> tag_index x" if "x \<in> set (merge_tags fs (dropWhile ?below ps))" for x
    using that "2.prems"(1) dropWhile_above [OF "2.prems"(2), of x] by (auto simp: set_merge)
  have "sorted (map tag_index (merge_tags fs (dropWhile ?below ps)))" using 2 d by simp
  then show ?case using t rest by (auto simp: sorted_append dest!: set_takeWhileD intro: less_imp_le less_le_trans)
qed simp

lemma filter_merge:
  "sorted (map tag_index fs) \<Longrightarrow> sorted (map tag_index ps) \<Longrightarrow>
   [t \<leftarrow> merge_tags fs ps. k = tag_index t] = [t \<leftarrow> fs. k = tag_index t] @ [t \<leftarrow> ps. k = tag_index t]"
proof (induction fs ps rule: merge_tags.induct)
  case (2 f fs ps)
  let ?below = "\<lambda>t. tag_index t < tag_index f"
  have d: "sorted (map tag_index (dropWhile ?below ps))" using "2.prems"(2) by (simp add: sorted_wrt_map sorted_wrt_dropWhile)
  have p: "[t \<leftarrow> ps. k = tag_index t] = [t \<leftarrow> takeWhile ?below ps. k = tag_index t] @ [t \<leftarrow> dropWhile ?below ps. k = tag_index t]"
    by (metis filter_append takeWhile_dropWhile_id)
  have ih: "[t \<leftarrow> merge_tags fs (dropWhile ?below ps). k = tag_index t] = [t \<leftarrow> fs. k = tag_index t] @ [t \<leftarrow> dropWhile ?below ps. k = tag_index t]"
    using 2 d by simp
  show ?case
  proof (cases "k < tag_index f")
    case True
    then have "[t \<leftarrow> f # fs. k = tag_index t] = []" using "2.prems"(1) by (auto simp: filter_empty_conv)
    then show ?thesis using ih p True by simp
  next
    case False
    then have "[t \<leftarrow> takeWhile ?below ps. k = tag_index t] = []" by (auto simp: filter_empty_conv dest!: set_takeWhileD)
    then show ?thesis using ih p by (cases "k = tag_index f") simp_all
  qed
qed simp

lemma merge_is_sort:
  assumes "sorted (map tag_index fs)" "sorted (map tag_index ps)"
  shows "merge_tags fs ps = sort_key tag_index (fs @ ps)"
  by (rule sym, rule properties_for_sort_key) (simp_all add: mset_merge filter_merge [OF assms] sorted_merge [OF assms])


section \<open>Publishing\<close>

lemma publishTag_fits:
  assumes "os_connected s" "length (os_tags s) + 1 < os_slots s"
  shows "span_publishTag m k s = s\<lparr>os_tags := os_tags s @ [\<lparr>tag_index = os_streamIndex s + k, tag_map = canonicalizeKeys m\<rparr>]\<rparr>"
  using assms by (simp add: span_publishTag_def placeTag_def)

lemma publish_present:
  assumes "os_connected s" "length (os_tags s) + length ts < os_slots s" "\<forall>t \<in> set ts. i \<le> tag_index t" "i = os_streamIndex s"
  shows "fold (\<lambda>t. span_publishTag (tag_map t) (tag_index t - i)) ts s = s\<lparr>os_tags := os_tags s @ map canonical_tag ts\<rparr>"
  using assms
proof (induction ts arbitrary: s)
  case (Cons t ts)
  let ?s = "s\<lparr>os_tags := os_tags s @ [canonical_tag t]\<rparr>"
  have "span_publishTag (tag_map t) (tag_index t - i) s = ?s"
    using Cons.prems by (simp add: publishTag_fits canonical_tag_def)
  then show ?case using Cons.IH [of ?s] Cons.prems by simp
qed simp

definition placed :: "nat \<Rightarrow> nat \<Rightarrow> nat \<times> property_map \<Rightarrow> gr_tag" where
  "placed base endIndex f = \<lparr>tag_index = base + min (fst f) endIndex, tag_map = canonicalizeKeys (snd f)\<rparr>"

lemma publish_below_fits:
  assumes "os_connected s" "length (os_tags s) + length present < os_slots s" "\<forall>t \<in> set present. os_streamIndex s \<le> tag_index t"
  shows "publish_below (Some k) (present, s) =
      (dropWhile (\<lambda>t. tag_index t < os_streamIndex s + k) present,
       s\<lparr>os_tags := os_tags s @ map canonical_tag (takeWhile (\<lambda>t. tag_index t < os_streamIndex s + k) present)\<rparr>)"
    and "publish_below None (present, s) = ([], s\<lparr>os_tags := os_tags s @ map canonical_tag present\<rparr>)"
proof -
  let ?below = "\<lambda>t. tag_index t < os_streamIndex s + k"
  have same: "tag_index t - os_streamIndex s < k \<longleftrightarrow> tag_index t < os_streamIndex s + k" if "t \<in> set present" for t
    using assms(3) that by (simp add: less_diff_conv2 add.commute)
  have eq: "takeWhile (\<lambda>t. tag_index t - os_streamIndex s < k) present = takeWhile ?below present"
    "dropWhile (\<lambda>t. tag_index t - os_streamIndex s < k) present = dropWhile ?below present"
    by (rule takeWhile_cong [OF refl same], assumption) (rule dropWhile_cong [OF refl same], assumption)
  have len: "length (os_tags s) + length (takeWhile ?below present) < os_slots s"
    using assms(2) length_takeWhile_le [of ?below present] by linarith
  have above: "\<forall>t \<in> set (takeWhile ?below present). os_streamIndex s \<le> tag_index t" using assms(3) set_takeWhileD by fast
  show "publish_below (Some k) (present, s) =
      (dropWhile ?below present, s\<lparr>os_tags := os_tags s @ map canonical_tag (takeWhile ?below present)\<rparr>)"
    using publish_present [OF assms(1) len above refl] by (simp add: publish_below_def eq)
  have all: "takeWhile (\<lambda>_. True) present = present" "dropWhile (\<lambda>_. True) present = []" by (induction present) simp_all
  show "publish_below None (present, s) = ([], s\<lparr>os_tags := os_tags s @ map canonical_tag present\<rparr>)"
    using assms publish_present [OF assms(1,2)] by (simp add: publish_below_def all)
qed

lemma merge_canonical:
  "map canonical_tag (takeWhile (\<lambda>t. tag_index t < k) ps) = takeWhile (\<lambda>t. tag_index t < k) (map canonical_tag ps)"
  "map canonical_tag (dropWhile (\<lambda>t. tag_index t < k) ps) = dropWhile (\<lambda>t. tag_index t < k) (map canonical_tag ps)"
  by (simp_all add: takeWhile_map dropWhile_map o_def)

lemma publish_steps:
  assumes "os_connected s" "length (os_tags s) + length present + length forwarded < os_slots s" "\<forall>t \<in> set present. os_streamIndex s \<le> tag_index t"
  shows "snd (publish_below None (fold (\<lambda>(offset, m) x. let k = min offset e; (present, s) = publish_below (Some k) x in (present, span_publishTag m k s)) forwarded (present, s))) =
    s\<lparr>os_tags := os_tags s @ merge_tags (map (placed (os_streamIndex s) e) forwarded) (map canonical_tag present)\<rparr>"
  using assms
proof (induction forwarded arbitrary: present s)
  case Nil
  then show ?case using publish_below_fits(2) [of s present] by simp
next
  case (Cons f forwarded)
  obtain offset m where f: "f = (offset, m)" by (cases f)
  let ?k = "min offset e"
  let ?below = "\<lambda>t. tag_index t < os_streamIndex s + ?k"
  let ?p = "dropWhile ?below present"
  let ?s = "s\<lparr>os_tags := (os_tags s @ map canonical_tag (takeWhile ?below present)) @ [placed (os_streamIndex s) e f]\<rparr>"
  have len: "length (takeWhile ?below present) + length ?p = length present" by (metis length_append takeWhile_dropWhile_id)
  have b: "publish_below (Some ?k) (present, s) = (?p, s\<lparr>os_tags := os_tags s @ map canonical_tag (takeWhile ?below present)\<rparr>)"
    using publish_below_fits(1) [of s present ?k] Cons.prems by simp
  have "span_publishTag m ?k (s\<lparr>os_tags := os_tags s @ map canonical_tag (takeWhile ?below present)\<rparr>) = ?s"
    using Cons.prems len by (simp add: publishTag_fits placed_def f)
  moreover have "\<forall>t \<in> set ?p. os_streamIndex ?s \<le> tag_index t" using Cons.prems(3) by (auto dest: set_dropWhileD)
  moreover have "length (os_tags ?s) + length ?p + length forwarded < os_slots ?s" using Cons.prems(2) len by simp
  moreover have "os_connected ?s" using Cons.prems(1) by simp
  ultimately show ?case
    using Cons.IH [of ?s ?p] b by (simp add: f Let_def merge_canonical) (simp add: placed_def)
qed


text \<open>
  C11. Merging forwarded tags. A span that has room for them holds, after forwarding, the stable sort by position of the
  forwarded tags and the tags it held: no tag is lost or doubled, a forwarded tag precedes one that was there at its
  position, and a tag past the published samples moves to their end. So the tags leave in the order of their positions.
\<close>

theorem merge_by_index:
  assumes "os_connected out" "length (os_tags out) + length forwarded < os_slots out"
    and "sorted (map tag_index (os_tags out))" "\<forall>t \<in> set (os_tags out). os_streamIndex out \<le> tag_index t" "sorted (map fst forwarded)"
  shows "publishMergedByIndex forwarded out = out\<lparr>os_tags := sort_key tag_index
      (map (placed (os_streamIndex out) (value_else (os_size out) (os_publishRequested out))) forwarded @ map canonical_tag (os_tags out))\<rparr>"
proof -
  let ?e = "value_else (os_size out) (os_publishRequested out)"
  let ?s = "out\<lparr>os_tags := []\<rparr>"
  have "sorted (map (\<lambda>f. os_streamIndex out + min (fst f) ?e) forwarded)"
    using assms(5) by (induction forwarded) (auto simp: min.coboundedI1 intro!: min.mono)
  then have "sorted (map tag_index (map (placed (os_streamIndex out) ?e) forwarded))" by (simp add: placed_def o_def)
  moreover have "sorted (map tag_index (map canonical_tag (os_tags out)))" using assms(3) by (simp add: o_def)
  ultimately show ?thesis
    using publish_steps [of ?s "os_tags out" forwarded ?e] assms(1,2,4)
    by (simp add: publishMergedByIndex_def Let_def merge_is_sort del: map_map)
qed

lemma merge_by_index_witness:
  "publishMergedByIndex [(1, [(''a'', VInt8 1)]), (9, [(''b'', VInt8 2)])]
     \<lparr>os_streamIndex = 10, os_size = 4, os_connected = True, os_publishRequested = None, os_slots = 8, os_tags = [\<lparr>tag_index = 11, tag_map = [(''c'', VInt8 3)]\<rparr>], os_tagsDropped = 0\<rparr> =
   \<lparr>os_streamIndex = 10, os_size = 4, os_connected = True, os_publishRequested = None, os_slots = 8,
     os_tags = [\<lparr>tag_index = 11, tag_map = [(''a'', VInt8 1)]\<rparr>, \<lparr>tag_index = 11, tag_map = [(''c'', VInt8 3)]\<rparr>, \<lparr>tag_index = 14, tag_map = [(''b'', VInt8 2)]\<rparr>], os_tagsDropped = 0\<rparr>"
  by (subst merge_by_index) (simp_all add: value_else_def placed_def canonical_tag_def canonicalizeKeys_def starts_with_colon_def)

section \<open>The positions of the tags over many calls\<close>

text \<open>
  One call of a block with one input and one output that maps its tags by the chunk ratio or keeps their offsets: the input span
  of \<open>n\<close> samples, the output span of the samples they give, the forwarding, and the release of both spans. \<open>slots\<close>
  is the share of the tag ring the output span gets.
\<close>

type_synonym forward_state = "in_port \<times> nat \<times> gr_tag list"

definition forward_chunk :: "rate_scale \<Rightarrow> tag_policy \<Rightarrow> chunking \<Rightarrow> nat \<Rightarrow> nat \<Rightarrow> forward_state \<Rightarrow> forward_state" where
  "forward_chunk R P c slots n = (\<lambda>(p, outPos, published).
     (let s = port_get n p; m = outputIndexOf c n;
          out = \<lparr>os_streamIndex = outPos, os_size = m, os_connected = True, os_publishRequested = Some m, os_slots = slots, os_tags = [], os_tagsDropped = 0\<rparr>;
          outs = forwardInputTags R P c [s] n None [out];
          k = release_tags (\<not> hasWholeChunkTagWindow P c) (s\<lparr>is_consumeRequested := Some n\<rparr>)
      in (p\<lparr>pt_position := pt_position p + n, ip_tags := drop k (ip_tags p)\<rparr>, outPos + m, published @ os_tags (hd outs))))"

text \<open>The tags a block hands on, at their output positions.\<close>

definition forwarded_tags :: "rate_scale \<Rightarrow> tag_policy \<Rightarrow> chunking \<Rightarrow> gr_tag list \<Rightarrow> gr_tag list" where
  "forwarded_tags R P c ts =
     map (\<lambda>t. \<lparr>tag_index = tag_index t * ck_output c div ck_input c, tag_map = canonicalizeKeys (filterAndSubstituteTag R P c (tag_map t))\<rparr>)
       [t \<leftarrow> ts. filterAndSubstituteTag R P c (tag_map t) \<noteq> []]"

definition forwarding_ok :: "tag_policy \<Rightarrow> chunking \<Rightarrow> bool" where
  "forwarding_ok P c \<longleftrightarrow> chunking_ok c \<and> (mapsTagsByChunkRatio P c \<or> keepsTagOffsets P c) \<and> \<not> tp_backward P \<and> \<not> tp_noTagPropagation P \<and> tp_nInputs P = 1"

lemma collect_all:
  "fold (collect_tag R P c) tags acc = acc @ concat (map (\<lambda>x. collect_tag R P c x []) tags)"
  by (induction tags arbitrary: acc) (auto simp: collect_tag_def Let_def split: prod.split)

lemma output_index_exact:
  assumes "chunking_ok c" "i * ck_output c \<le> size_max"
  shows "outputIndexOf c i = i * ck_output c div ck_input c"
  using assms by (auto simp: outputIndexOf_def chunking_ok_def)

lemma collected_single:
  assumes "forwarding_ok P c" "take_part s" "\<forall>t \<in> set (is_rawTags s). is_streamIndex s \<le> tag_index t \<and> tag_index t < is_streamIndex s + n"
    and "n * ck_output c \<le> size_max"
  shows "collected R P c n [s] = map (\<lambda>t. ((tag_index t - is_streamIndex s) * ck_output c div ck_input c, filterAndSubstituteTag R P c (tag_map t)))
      [t \<leftarrow> is_rawTags s. filterAndSubstituteTag R P c (tag_map t) \<noteq> []]"
proof -
  have ck: "chunking_ok c" "\<not> tp_backward P" using assms(1) by (auto simp: forwarding_ok_def)
  have all: "takeWhile (\<lambda>t. tag_index t < is_streamIndex s + n) (is_rawTags s) = is_rawTags s" using assms(3) by simp
  have one: "collect_tag R P c (relIndex (tag_index t) (is_streamIndex s), tag_map t) [] =
      (if filterAndSubstituteTag R P c (tag_map t) = [] then []
       else [((tag_index t - is_streamIndex s) * ck_output c div ck_input c, filterAndSubstituteTag R P c (tag_map t))])"
    if "t \<in> set (is_rawTags s)" for t
  proof -
    have i: "is_streamIndex s \<le> tag_index t" "tag_index t - is_streamIndex s \<le> n" using assms(3) that by auto
    have "(tag_index t - is_streamIndex s) * ck_output c \<le> size_max" using assms(4) i(2) by (meson mult_le_mono1 order_trans)
    moreover have "nat (max 0 (relIndex (tag_index t) (is_streamIndex s))) = tag_index t - is_streamIndex s" using i by (simp add: relIndex_def)
    ultimately show ?thesis using ck i by (simp add: collect_tag_def output_index_exact Let_def)
  qed
  have "concat (map (\<lambda>t. collect_tag R P c (relIndex (tag_index t) (is_streamIndex s), tag_map t) []) ts) =
      map (\<lambda>t. ((tag_index t - is_streamIndex s) * ck_output c div ck_input c, filterAndSubstituteTag R P c (tag_map t))) [t \<leftarrow> ts. filterAndSubstituteTag R P c (tag_map t) \<noteq> []]"
    if "set ts \<subseteq> set (is_rawTags s)" for ts
    using that by (induction ts) (simp_all add: one)
  from this [of "is_rawTags s"] show ?thesis
    using assms(1,2) by (simp add: collected_def forwarding_ok_def span_tags_until_def all collect_all o_def del: takeWhile_eq_all_conv)
qed

lemma merge_Nil [simp]: "merge_tags fs [] = fs"
  by (induction fs) simp_all

lemma publish_into_empty:
  assumes "os_connected out" "os_tags out = []" "length forwarded < os_slots out"
  shows "os_tags (publishMergedByIndex forwarded out) = map (placed (os_streamIndex out) (value_else (os_size out) (os_publishRequested out))) forwarded"
proof -
  have same: "out\<lparr>os_tags := []\<rparr> = out" using assms(2) by (cases out) simp
  have "publishMergedByIndex forwarded out = out\<lparr>os_tags := map (placed (os_streamIndex out) (value_else (os_size out) (os_publishRequested out))) forwarded\<rparr>"
    using publish_steps [of out "[]" forwarded "value_else (os_size out) (os_publishRequested out)"] assms
    unfolding publishMergedByIndex_def Let_def by (simp only: same) simp
  then show ?thesis by simp
qed

text \<open>A chunk that starts on a chunk boundary: the position in the chunk and the position in the stream map alike.\<close>

lemma chunk_position:
  assumes "chunking_ok c" "a * ck_input c \<le> i"
  shows "a * ck_output c + (i - a * ck_input c) * ck_output c div ck_input c = i * ck_output c div ck_input c"
proof -
  have "0 < ck_input c" using assms(1) by (simp add: chunking_ok_def)
  moreover have "i * ck_output c = (i - a * ck_input c) * ck_output c + (a * ck_output c) * ck_input c"
    using assms(2) by (simp add: diff_mult_distrib algebra_simps)
  ultimately show ?thesis by (metis add.commute div_mult_self1 less_not_refl)
qed


lemma release_whole:
  assumes "hasWholeChunkTagWindow P c" "0 < n" "\<forall>t \<in> set (is_rawTags s). tag_index t < is_streamIndex s + n" "is_tagsConsumed s = None" "is_size s = n"
  shows "release_tags (\<not> hasWholeChunkTagWindow P c) (s\<lparr>is_consumeRequested := Some n\<rparr>) = length (is_rawTags s)"
proof -
  have "takeWhile (\<lambda>t. tag_index t < is_streamIndex s + n) (is_rawTags s) = is_rawTags s" using assms(3) by simp
  then show ?thesis using assms by (simp add: release_tags_def consumeTags_def value_else_def del: takeWhile_eq_all_conv)
qed

lemma forward_chunk_step:
  assumes ok: "forwarding_ok P c" and p: "pt_position p = a * ck_input c" "pt_connected p" "pt_sync p"
    and tags: "sorted (map tag_index (ip_tags p))" "\<forall>t \<in> set (ip_tags p). pt_position p \<le> tag_index t" "length (ip_tags p) < slots"
    and n: "n = k * ck_input c" "0 < k" "n * ck_output c \<le> size_max"
  shows "forward_chunk R P c slots n (p, a * ck_output c, published) =
    (let cut = (\<lambda>t. tag_index t < pt_position p + n)
     in (p\<lparr>pt_position := (a + k) * ck_input c, ip_tags := dropWhile cut (ip_tags p)\<rparr>, (a + k) * ck_output c,
         published @ forwarded_tags R P c (takeWhile cut (ip_tags p))))"
proof -
  let ?cut = "\<lambda>t. tag_index t < pt_position p + n"
  let ?raw = "takeWhile ?cut (ip_tags p)"
  let ?s = "port_get n p"
  let ?kept = "[t \<leftarrow> ?raw. filterAndSubstituteTag R P c (tag_map t) \<noteq> []]"
  have c: "chunking_ok c" "0 < ck_input c" and win: "hasWholeChunkTagWindow P c" and pol: "\<not> tp_noTagPropagation P"
    using ok by (auto simp: forwarding_ok_def hasWholeChunkTagWindow_def chunking_ok_def)
  have raw: "is_rawTags ?s = ?raw" "is_streamIndex ?s = pt_position p" "take_part ?s" "is_size ?s = n" "is_tagsConsumed ?s = None"
    using p by (simp_all add: port_get_def getTagsInRange_def take_part_def)
  have inside: "\<forall>t \<in> set ?raw. pt_position p \<le> tag_index t \<and> tag_index t < pt_position p + n"
    using tags(2) by (auto dest: set_takeWhileD)
  have m: "outputIndexOf c n = k * ck_output c"
    using output_index_exact [OF c(1) n(3)] n(1) c(2) by (simp add: mult.assoc mult.left_commute [of "ck_input c"] mult.commute [of "ck_input c"])
  have coll: "collected R P c n [?s] = map (\<lambda>t. ((tag_index t - pt_position p) * ck_output c div ck_input c, filterAndSubstituteTag R P c (tag_map t))) ?kept"
    using collected_single [OF ok raw(3) _ n(3)] inside raw(1,2) by simp
  have rel: "release_tags (\<not> hasWholeChunkTagWindow P c) (?s\<lparr>is_consumeRequested := Some n\<rparr>) = length ?raw"
    using release_whole [OF win _ _ raw(5,4)] inside raw(1,2) n c(2) by simp
  have drop: "drop (length ?raw) (ip_tags p) = dropWhile ?cut (ip_tags p)" by (simp add: dropWhile_eq_drop)
  let ?out = "\<lparr>os_streamIndex = a * ck_output c, os_size = k * ck_output c, os_connected = True, os_publishRequested = Some (k * ck_output c),
      os_slots = slots, os_tags = [], os_tagsDropped = 0\<rparr>"
  have place: "placed (a * ck_output c) (k * ck_output c) ((tag_index t - pt_position p) * ck_output c div ck_input c, x) =
      \<lparr>tag_index = tag_index t * ck_output c div ck_input c, tag_map = canonicalizeKeys x\<rparr>" if "t \<in> set ?raw" for t x
  proof -
    have "tag_index t - pt_position p \<le> k * ck_input c" using inside that n(1) by auto
    then have "(tag_index t - pt_position p) * ck_output c \<le> k * ck_output c * ck_input c" by (metis mult.assoc mult.commute mult_le_mono1)
    then have "(tag_index t - pt_position p) * ck_output c div ck_input c \<le> k * ck_output c"
      using c(2) by (metis div_le_mono div_mult_self_is_m)
    then show ?thesis using chunk_position [OF c(1), of a "tag_index t"] inside that p(1) by (simp add: placed_def)
  qed
  have out: "os_tags (hd (forwardInputTags R P c [?s] n None [?out])) = forwarded_tags R P c ?raw"
  proof -
    have len: "length (collected R P c n [?s]) < slots"
      unfolding coll length_map
      using tags(3) length_filter_le [of "\<lambda>t. filterAndSubstituteTag R P c (tag_map t) \<noteq> []" ?raw] length_takeWhile_le [of ?cut "ip_tags p"] by linarith
    have "os_tags (hd (forwardInputTags R P c [?s] n None [?out])) = map (placed (a * ck_output c) (k * ck_output c)) (collected R P c n [?s])"
      using publish_into_empty [of ?out "collected R P c n [?s]"] len pol win by (simp add: forwardInputTags_def Let_def value_else_def)
    also have "\<dots> = forwarded_tags R P c ?raw" unfolding coll forwarded_tags_def using place by simp
    finally show ?thesis .
  qed
  show ?thesis
    unfolding forward_chunk_def prod.case Let_def m rel drop p(1) [symmetric] out
    using n(1) p(1) by (simp add: algebra_simps)
qed


lemma cut_twice:
  assumes "sorted (map tag_index ts)" "i \<le> j"
  shows "takeWhile (\<lambda>t. tag_index t < i) ts @ takeWhile (\<lambda>t. tag_index t < j) (dropWhile (\<lambda>t. tag_index t < i) ts) = takeWhile (\<lambda>t. tag_index t < j) ts"
    "dropWhile (\<lambda>t. tag_index t < j) (dropWhile (\<lambda>t. tag_index t < i) ts) = dropWhile (\<lambda>t. tag_index t < j) ts"
  using assms(2) by (induction ts) auto

lemma forwarded_append [simp]: "forwarded_tags R P c (xs @ ys) = forwarded_tags R P c xs @ forwarded_tags R P c ys"
  by (simp add: forwarded_tags_def)

lemma forward_chunks:
  assumes ok: "forwarding_ok P c"
  shows "\<forall>k \<in> set ks. 0 < k \<and> k * ck_input c * ck_output c \<le> size_max \<Longrightarrow> pt_position p = a * ck_input c \<Longrightarrow> pt_connected p \<Longrightarrow> pt_sync p \<Longrightarrow>
    sorted (map tag_index (ip_tags p)) \<Longrightarrow> \<forall>t \<in> set (ip_tags p). pt_position p \<le> tag_index t \<Longrightarrow> length (ip_tags p) < slots \<Longrightarrow>
    fold (\<lambda>k. forward_chunk R P c slots (k * ck_input c)) ks (p, a * ck_output c, published) =
    (let cut = (\<lambda>t. tag_index t < (a + sum_list ks) * ck_input c)
     in (p\<lparr>pt_position := (a + sum_list ks) * ck_input c, ip_tags := dropWhile cut (ip_tags p)\<rparr>, (a + sum_list ks) * ck_output c,
         published @ forwarded_tags R P c (takeWhile cut (ip_tags p))))"
proof (induction ks arbitrary: p a published)
  case Nil
  have "takeWhile (\<lambda>t. tag_index t < a * ck_input c) (ip_tags p) = []" "dropWhile (\<lambda>t. tag_index t < a * ck_input c) (ip_tags p) = ip_tags p"
    using Nil.prems(2,6) by (cases "ip_tags p"; force)+
  then show ?case using Nil by (simp add: forwarded_tags_def)
next
  case (Cons k ks)
  let ?cut = "\<lambda>t. tag_index t < pt_position p + k * ck_input c"
  let ?p = "p\<lparr>pt_position := (a + k) * ck_input c, ip_tags := dropWhile ?cut (ip_tags p)\<rparr>"
  have k: "0 < k" "k * ck_input c * ck_output c \<le> size_max" using Cons.prems(1) by simp_all
  have step: "forward_chunk R P c slots (k * ck_input c) (p, a * ck_output c, published) =
      (?p, (a + k) * ck_output c, published @ forwarded_tags R P c (takeWhile ?cut (ip_tags p)))"
    using forward_chunk_step [OF ok Cons.prems(2-7) refl k] by (simp add: Let_def)
  have pos: "pt_position p + k * ck_input c = (a + k) * ck_input c" using Cons.prems(2) by (simp add: algebra_simps)
  have rest: "sorted (map tag_index (ip_tags ?p))" "\<forall>t \<in> set (ip_tags ?p). pt_position ?p \<le> tag_index t" "length (ip_tags ?p) < slots"
    using Cons.prems(5,7) dropWhile_above [OF Cons.prems(5)] pos length_dropWhile_le [of ?cut "ip_tags p"]
    by (simp_all add: sorted_wrt_map sorted_wrt_dropWhile)
  have le: "(a + k) * ck_input c \<le> (a + k + sum_list ks) * ck_input c" by simp
  note two = cut_twice [OF Cons.prems(5) le]
  show ?case
    using Cons.IH [of ?p "a + k" "published @ forwarded_tags R P c (takeWhile ?cut (ip_tags p))"] Cons.prems(1,3,4) rest step two
    unfolding pos by (simp add: Let_def add.assoc flip: forwarded_append)
qed

lemma cut_is_filter:
  assumes "sorted (map tag_index ts)"
  shows "takeWhile (\<lambda>t. tag_index t < i) ts = [t \<leftarrow> ts. tag_index t < i]" "dropWhile (\<lambda>t. tag_index t < i) ts = [t \<leftarrow> ts. \<not> tag_index t < i]"
proof -
  have none: "[t \<leftarrow> ts. tag_index t < i] = []" "[t \<leftarrow> ts. \<not> tag_index t < i] = ts" if "\<forall>t \<in> set ts. \<not> tag_index t < i" for ts :: "gr_tag list"
    using that by (induction ts) simp_all
  have "takeWhile (\<lambda>t. tag_index t < i) ts = [t \<leftarrow> ts. tag_index t < i] \<and> dropWhile (\<lambda>t. tag_index t < i) ts = [t \<leftarrow> ts. \<not> tag_index t < i]"
    using assms
  proof (induction ts)
    case Nil
    show ?case by simp
  next
    case (Cons t ts)
    show ?case
    proof (cases "tag_index t < i")
      case True
      then show ?thesis using Cons by simp
    next
      case False
      then have "\<forall>u \<in> set ts. \<not> tag_index u < i" using Cons.prems by force
      then show ?thesis using none False by simp
    qed
  qed
  then show "takeWhile (\<lambda>t. tag_index t < i) ts = [t \<leftarrow> ts. tag_index t < i]" "dropWhile (\<lambda>t. tag_index t < i) ts = [t \<leftarrow> ts. \<not> tag_index t < i]"
    by blast+
qed

text \<open>
  C12. The positions of tags. Over any sequence of calls of whole chunks, a block that maps its tags by the chunk ratio, or keeps their
  offsets, hands on each tag of the samples it consumed exactly once, in order, and at the output position that the ratio gives
  its own position in the stream: floor(index * output_chunk_size / input_chunk_size), wherever the calls cut the stream.
  The tags of the samples it did not consume stay on the input.
\<close>

theorem tags_keep_positions:
  assumes "forwarding_ok P c" "\<forall>k \<in> set ks. 0 < k \<and> k * ck_input c * ck_output c \<le> size_max"
    and "pt_position p = 0" "pt_connected p" "pt_sync p" "sorted (map tag_index (ip_tags p))" "length (ip_tags p) < slots"
    and "fold (\<lambda>k. forward_chunk R P c slots (k * ck_input c)) ks (p, 0, []) = (p', outPos, published)"
  shows "published = forwarded_tags R P c [t \<leftarrow> ip_tags p. tag_index t < pt_position p'] \<and>
    ip_tags p' = [t \<leftarrow> ip_tags p. \<not> tag_index t < pt_position p'] \<and> pt_position p' = sum_list ks * ck_input c \<and> outPos = sum_list ks * ck_output c"
proof -
  let ?cut = "\<lambda>t. tag_index t < sum_list ks * ck_input c"
  have "fold (\<lambda>k. forward_chunk R P c slots (k * ck_input c)) ks (p, 0, []) =
      (p\<lparr>pt_position := sum_list ks * ck_input c, ip_tags := dropWhile ?cut (ip_tags p)\<rparr>, sum_list ks * ck_output c, forwarded_tags R P c (takeWhile ?cut (ip_tags p)))"
    using forward_chunks [OF assms(1,2), of p 0 slots R "[]"] assms(3-7) by (simp add: Let_def)
  then show ?thesis using assms(8) cut_is_filter [OF assms(6)] by auto
qed


definition demo_rate :: rate_scale where
  "demo_rate = (\<lambda>_ _ w. w)"

definition demo_policy :: tag_policy where
  "demo_policy = \<lparr>tp_droppedKeys = [''drop''], tp_noTagPropagation = False, tp_backward = False, tp_override = False, tp_allSync = True, tp_nInputs = 1\<rparr>"

definition demo_chunking :: chunking where
  "demo_chunking = \<lparr>ck_resampling = True, ck_strided = False, ck_input = 3, ck_output = 2, ck_stride = 0, ck_strideCounter = 0\<rparr>"

definition demo_input :: in_port where
  "demo_input = \<lparr>pt_sync = True, pt_optional = False, pt_connected = True, pt_min = 1, pt_max = 100, pt_available = 12, pt_position = 0,
     ip_tags = [\<lparr>tag_index = 1, tag_map = [(''a'', VInt8 1)]\<rparr>, \<lparr>tag_index = 5, tag_map = [(''b'', VInt8 2), (''drop'', VInt8 0)]\<rparr>,
                \<lparr>tag_index = 6, tag_map = [(''drop'', VInt8 1)]\<rparr>, \<lparr>tag_index = 10, tag_map = [(''c'', VInt8 3)]\<rparr>]\<rparr>"

lemma tags_keep_positions_witness:
  "snd (fold (\<lambda>k. forward_chunk demo_rate demo_policy demo_chunking 8 (k * ck_input demo_chunking)) [1, 2] (demo_input, 0, [])) =
    (6, [\<lparr>tag_index = 0, tag_map = [(''a'', VInt8 1)]\<rparr>, \<lparr>tag_index = 3, tag_map = [(''b'', VInt8 2)]\<rparr>])"
proof -
  obtain p' o' pub where run: "fold (\<lambda>k. forward_chunk demo_rate demo_policy demo_chunking 8 (k * ck_input demo_chunking)) [1, 2] (demo_input, 0, []) = (p', o', pub)"
    using prod_cases3 by blast
  have ok: "forwarding_ok demo_policy demo_chunking"
    by (simp add: forwarding_ok_def chunking_ok_def mapsTagsByChunkRatio_def demo_policy_def demo_chunking_def size_max_def)
  have all: "pub = forwarded_tags demo_rate demo_policy demo_chunking [t \<leftarrow> ip_tags demo_input. tag_index t < pt_position p'] \<and>
      ip_tags p' = [t \<leftarrow> ip_tags demo_input. \<not> tag_index t < pt_position p'] \<and> pt_position p' = sum_list [1, 2] * ck_input demo_chunking \<and>
      o' = sum_list [1, 2] * ck_output demo_chunking"
    by (rule tags_keep_positions [OF ok _ _ _ _ _ _ run]) (simp_all add: demo_chunking_def demo_input_def size_max_def)
  then have "pt_position p' = 9" "o' = 6" by (simp_all add: demo_chunking_def)
  moreover from this all have "pub = [\<lparr>tag_index = 0, tag_map = [(''a'', VInt8 1)]\<rparr>, \<lparr>tag_index = 3, tag_map = [(''b'', VInt8 2)]\<rparr>]"
    by (simp add: forwarded_tags_def filterAndSubstituteTag_def scaleSampleRateByChunkRatio_def keep_entry_def canonicalizeKeys_def starts_with_colon_def
        gr_key_def demo_policy_def demo_chunking_def demo_input_def)
  ultimately show ?thesis using run by simp
qed

end
