(* ===== verification/ComputeDomain.thy ===== *)
theory ComputeDomain
  imports Prelude "HOL-Library.AList"
begin

text \<open>
  Compute domains (\<^verbatim>\<open>core/include/gnuradio-4.0/ComputeDomain.hpp\<close>): where the memory of a block or an edge lies, the text that names a
  domain, and the registry of the providers of memory resources. A memory resource is a number, a null pointer is \<open>None\<close>; the
  opaque user pointer of a domain is left out.
\<close>

datatype access = HostOnly | Shared | DeviceOnly

record compute_domain =
  cd_kind :: string
  cd_access :: access
  cd_backend :: string
  cd_deviceIndex :: int
  cd_tag :: string

definition domain_host :: compute_domain where
  "domain_host = \<lparr>cd_kind = ''host'', cd_access = HostOnly, cd_backend = ''none'', cd_deviceIndex = - 1, cd_tag = ''''\<rparr>"

definition gpu_shared :: "string \<Rightarrow> int \<Rightarrow> compute_domain" where
  "gpu_shared be idx = domain_host\<lparr>cd_kind := ''gpu'', cd_access := Shared, cd_backend := be, cd_deviceIndex := idx\<rparr>"

definition gpu_device :: "string \<Rightarrow> int \<Rightarrow> compute_domain" where
  "gpu_device be idx = domain_host\<lparr>cd_kind := ''gpu'', cd_access := DeviceOnly, cd_backend := be, cd_deviceIndex := idx\<rparr>"

text \<open>\<^verbatim>\<open>std::from_chars\<close>: the digits at the start of the text, for an \<^verbatim>\<open>int\<close> after an optional minus sign; no digits, or a number out of range, is an error.\<close>

definition digit_value :: "char \<Rightarrow> nat" where
  "digit_value c = of_char c - 48"

definition is_digit :: "char \<Rightarrow> bool" where
  "is_digit c \<longleftrightarrow> 48 \<le> (of_char c :: nat) \<and> (of_char c :: nat) \<le> 57"

definition digits_value :: "string \<Rightarrow> nat" where
  "digits_value s = foldl (\<lambda>n c. n * 10 + digit_value c) 0 (takeWhile is_digit s)"

definition from_chars :: "string \<Rightarrow> nat option" where
  "from_chars s = (if takeWhile is_digit s = [] \<or> size_max < digits_value s then None else Some (digits_value s))"

definition from_chars_int :: "string \<Rightarrow> int option" where
  "from_chars_int s =
     (let neg = s \<noteq> [] \<and> hd s = CHR ''-''; t = (if neg then tl s else s); v = (if neg then - int (digits_value t) else int (digits_value t))
      in if takeWhile is_digit t = [] \<or> v < - (2 ^ 31) \<or> 2 ^ 31 \<le> v then None else Some v)"

definition mapKind :: "string \<Rightarrow> string" where
  "mapKind k = (if k \<in> {''gpu'', ''fpga'', ''tpu''} then k else ''host'')"

definition before_colon :: "string \<Rightarrow> string" where
  "before_colon s = takeWhile (\<lambda>c. c \<noteq> CHR '':'') s"

definition after_colon :: "string \<Rightarrow> string option" where
  "after_colon s = (if CHR '':'' \<in> set s then Some (tl (dropWhile (\<lambda>c. c \<noteq> CHR '':'') s)) else None)"

definition parse_domain :: "string \<Rightarrow> compute_domain" where
  "parse_domain s =
     (if s = '''' \<or> s = ''host'' \<or> s = ''default_cpu'' \<or> s = ''default_io'' then domain_host
      else (let kind = mapKind (before_colon s)
            in if kind = ''host'' then domain_host
               else (let be0 = (if kind = ''gpu'' then ''sycl'' else ''none'');
                         (be, idx) = (case after_colon s of
                             None \<Rightarrow> (be0, - 1)
                           | Some rest \<Rightarrow>
                               (if before_colon rest \<noteq> '''' then before_colon rest else be0,
                                case after_colon rest of None \<Rightarrow> - 1 | Some t \<Rightarrow> (case from_chars_int t of None \<Rightarrow> - 1 | Some i \<Rightarrow> i)))
                     in domain_host\<lparr>cd_kind := kind, cd_access := Shared, cd_backend := be, cd_deviceIndex := idx\<rparr>)))"

section \<open>The registry of providers\<close>

text \<open>What a provider returns for a domain: a resource, a null pointer, or an exception.\<close>

datatype provided = Resource nat | Null_resource | Provider_throws

type_synonym provider = "compute_domain \<Rightarrow> provided"

type_synonym registry = "(string \<times> provider) list"

definition new_delete_resource :: nat where
  "new_delete_resource = 0"

definition register_provider :: "string \<Rightarrow> provider \<Rightarrow> registry \<Rightarrow> registry" where
  "register_provider backend fn R = AList.update backend fn R"

datatype resolve_error = No_provider | Provider_null | Provider_exception

definition resolve_resource :: "registry \<Rightarrow> compute_domain \<Rightarrow> resolve_error + nat" where
  "resolve_resource R d =
     (if cd_kind d = ''host'' \<or> cd_backend d = ''none'' then Inr new_delete_resource
      else (case map_of R (cd_backend d) of
              None \<Rightarrow> Inl No_provider
            | Some fn \<Rightarrow> (case fn d of Resource r \<Rightarrow> Inr r | Null_resource \<Rightarrow> Inl Provider_null | Provider_throws \<Rightarrow> Inl Provider_exception)))"

definition tryResolve :: "registry \<Rightarrow> compute_domain \<Rightarrow> nat option" where
  "tryResolve R d =
     (if cd_kind d = ''host'' \<or> cd_backend d = ''none'' then Some new_delete_resource
      else (case map_of R (cd_backend d) of
              None \<Rightarrow> None
            | Some fn \<Rightarrow> (case fn d of Resource r \<Rightarrow> Some r | _ \<Rightarrow> None)))"

text \<open>The two resolutions agree, and the texts of the domains are read back as they are composed.\<close>

lemma tryResolve_resolve: "tryResolve R d = (case resolve_resource R d of Inl _ \<Rightarrow> None | Inr r \<Rightarrow> Some r)"
  by (auto simp: tryResolve_def resolve_resource_def split: option.splits provided.splits)

lemma resolve_registered:
  "cd_kind d \<noteq> ''host'' \<Longrightarrow> cd_backend d \<noteq> ''none'' \<Longrightarrow>
    tryResolve (register_provider be fn R) d = (if cd_backend d = be then (case fn d of Resource r \<Rightarrow> Some r | _ \<Rightarrow> None) else tryResolve R d)"
  by (simp add: tryResolve_def register_provider_def update_conv')

lemma colon_split:
  "CHR '':'' \<notin> set s \<Longrightarrow> before_colon (s @ CHR '':'' # t) = s \<and> after_colon (s @ CHR '':'' # t) = Some t"
  by (induction s) (auto simp: before_colon_def after_colon_def)

lemma no_colon: "CHR '':'' \<notin> set s \<Longrightarrow> before_colon s = s \<and> after_colon s = None"
  by (induction s) (auto simp: before_colon_def after_colon_def)

lemma parse_composed:
  assumes "kind \<in> {''gpu'', ''fpga'', ''tpu''}" "be \<noteq> ''''" "CHR '':'' \<notin> set be" "from_chars_int t = Some i"
  shows "parse_domain (kind @ CHR '':'' # be @ CHR '':'' # t) = domain_host\<lparr>cd_kind := kind, cd_access := Shared, cd_backend := be, cd_deviceIndex := i\<rparr>"
proof -
  let ?s = "kind @ CHR '':'' # be @ CHR '':'' # t"
  have k: "CHR '':'' \<notin> set kind" "kind \<noteq> ''host''" "mapKind kind = kind" using assms(1) by (auto simp: mapKind_def)
  have lit: "?s \<noteq> l" if "CHR '':'' \<notin> set l" for l using that by auto
  have "?s \<noteq> ''''" by simp
  moreover have "?s \<noteq> ''host''" by (rule lit) simp
  moreover have "?s \<noteq> ''default_cpu''" by (rule lit) simp
  moreover have "?s \<noteq> ''default_io''" by (rule lit) simp
  ultimately show ?thesis
    using colon_split [OF k(1)] colon_split [OF assms(3)] k assms(2,4) unfolding parse_domain_def Let_def by (simp del: append_Cons)
qed

end
