(* ===== verification/FlowGraph.thy ===== *)
theory FlowGraph
  imports ComputeDomain
begin

text \<open>
  The flow graph (\<^verbatim>\<open>core/include/gnuradio-4.0/BlockModel.hpp\<close>, \<^verbatim>\<open>Graph.hpp\<close>): ports found by index or by name, edges between the
  ports of blocks, the edits of a graph's lists of blocks and edges, and the graphs nested in a graph. A block is the number of
  its \<^verbatim>\<open>BlockModel\<close> object; what the object tells of itself is read from a heap. An edge without blocks (null pointers) is left out.
\<close>

section \<open>Ports of a block\<close>

datatype port_type = STREAM | MESSAGE | ANY

datatype block_category = AllBlocks | NormalBlock | TransparentBlockGroup | ScheduledBlockGroup

definition invalid_index :: nat where
  "invalid_index = size_max"

text \<open>\<^verbatim>\<open>dp_id\<close> is the port the wrapper refers to: a subgraph's exported port refers to the port of an interior block.\<close>

record dynamic_port =
  dp_id :: nat
  dp_name :: string
  dp_typeName :: string
  dp_dataType :: string
  dp_type :: port_type
  dp_sync :: bool
  dp_optional :: bool
  dp_arithmetic :: bool

datatype port_entry = SinglePort dynamic_port | NamedPortCollection string "dynamic_port list"

datatype port_definition = IndexBased nat nat | StringBased string

type_synonym block_ptr = nat

record block_model =
  bm_uniqueName :: string
  bm_name :: string
  bm_category :: block_category
  bm_inputs :: "port_entry list"
  bm_outputs :: "port_entry list"
  bm_ratio :: "int \<times> int"
  bm_stride :: nat
  bm_minIn :: "nat list"
  bm_stagedDomain :: "string option"
  bm_activeDomain :: "string option"

type_synonym block_heap = "block_ptr \<Rightarrow> block_model"

datatype graph_error = Port_not_found | Invalid_port_index | Invalid_collection | Port_index_out_of_range | Need_sub_index | Not_a_collection
  | Block_not_found | Edge_exists | Edge_not_found | Different_types | Input_taken | Not_connected | Type_mismatch | Connection_failed
  | Unstable_rate | Nothing_to_prime

text \<open>The address of a port: its entry in the block's list and, for a collection, its place in the collection.\<close>

type_synonym port_ref = "nat \<times> nat option"

fun portName :: "port_entry \<Rightarrow> string" where
  "portName (SinglePort p) = dp_name p"
| "portName (NamedPortCollection n ps) = n"

fun is_collection :: "port_entry \<Rightarrow> bool" where
  "is_collection (SinglePort p) = False"
| "is_collection (NamedPortCollection n ps) = True"

fun ports_of_entry :: "port_entry \<Rightarrow> dynamic_port list" where
  "ports_of_entry (SinglePort p) = [p]"
| "ports_of_entry (NamedPortCollection n ps) = ps"

text \<open>\<^verbatim>\<open>gr::detail::parsePort\<close>: a name and, after a hash sign, an index that wraps like the machine's.\<close>

definition parsePort :: "string \<Rightarrow> string \<times> nat" where
  "parsePort s =
     (if CHR ''#'' \<in> set s then (takeWhile (\<lambda>c. c \<noteq> CHR ''#'') s, digits_value (tl (dropWhile (\<lambda>c. c \<noteq> CHR ''#'') s)) mod 2 ^ 64)
      else (s, invalid_index))"

definition dynamicPortFromName :: "port_entry list \<Rightarrow> string \<Rightarrow> graph_error + port_ref \<times> dynamic_port" where
  "dynamicPortFromName what name =
     (if CHR ''#'' \<notin> set name then
        (case first_index (\<lambda>e. \<not> is_collection e \<and> portName e = name) what of
           None \<Rightarrow> Inl Port_not_found
         | Some i \<Rightarrow> Inr ((i, None), hd (ports_of_entry (what ! i))))
      else
        (let base = takeWhile (\<lambda>c. c \<noteq> CHR ''#'') name; indexString = tl (dropWhile (\<lambda>c. c \<noteq> CHR ''#'') name)
         in case from_chars indexString of
              None \<Rightarrow> Inl Invalid_port_index
            | Some index \<Rightarrow>
                (case first_index (\<lambda>e. is_collection e \<and> portName e = base) what of
                   None \<Rightarrow> Inl Invalid_collection
                 | Some i \<Rightarrow>
                     (let ports = ports_of_entry (what ! i)
                      in if length ports \<le> index then Inl Port_index_out_of_range else Inr ((i, Some index), ports ! index)))))"

definition dynamicPortByIndexImpl :: "port_entry list \<Rightarrow> nat \<Rightarrow> nat \<Rightarrow> graph_error + port_ref \<times> dynamic_port" where
  "dynamicPortByIndexImpl what topIndex subIndex =
     (if length what \<le> topIndex then Inl Port_index_out_of_range
      else (case what ! topIndex of
              NamedPortCollection n ports \<Rightarrow>
                if subIndex = invalid_index then Inl Need_sub_index
                else if length ports \<le> subIndex then Inl Port_index_out_of_range
                else Inr ((topIndex, Some subIndex), ports ! subIndex)
            | SinglePort p \<Rightarrow> if subIndex \<noteq> invalid_index then Inl Not_a_collection else Inr ((topIndex, None), p)))"

fun resolve :: "port_entry list \<Rightarrow> port_definition \<Rightarrow> graph_error + port_ref \<times> dynamic_port" where
  "resolve what (IndexBased i k) = dynamicPortByIndexImpl what i k"
| "resolve what (StringBased name) = dynamicPortFromName what name"

definition dynamicInputPort :: "block_heap \<Rightarrow> block_ptr \<Rightarrow> port_definition \<Rightarrow> graph_error + port_ref \<times> dynamic_port" where
  "dynamicInputPort H b d = resolve (bm_inputs (H b)) d"

definition dynamicOutputPort :: "block_heap \<Rightarrow> block_ptr \<Rightarrow> port_definition \<Rightarrow> graph_error + port_ref \<times> dynamic_port" where
  "dynamicOutputPort H b d = resolve (bm_outputs (H b)) d"

definition dynamicPortIndex :: "port_entry list \<Rightarrow> string \<Rightarrow> nat option" where
  "dynamicPortIndex what name = first_index (\<lambda>e. portName e = name) what"

text \<open>An index past the list throws \<^verbatim>\<open>std::out_of_range\<close>.\<close>

definition dynamicPortsSize :: "port_entry list \<Rightarrow> nat \<Rightarrow> nat option" where
  "dynamicPortsSize what parentIndex =
     (if parentIndex = invalid_index then Some (length what)
      else if length what \<le> parentIndex then None
      else Some (if is_collection (what ! parentIndex) then length (ports_of_entry (what ! parentIndex)) else invalid_index))"

section \<open>Edges\<close>

datatype edge_state = WaitingToBeConnected | Connected | Overridden | ErrorConnecting | PortNotFound | IncompatiblePorts | UnknownState

record edge_parameters =
  ep_minBufferSize :: nat
  ep_weight :: int
  ep_name :: string
  ep_dataResource :: "nat option"
  ep_tagResource :: "nat option"
  ep_domain :: compute_domain

text \<open>The two references are the ports found when the edge was connected; a resource that is not named is a null pointer.\<close>

record edge =
  ed_source :: block_ptr
  ed_sourcePort :: port_definition
  ed_destination :: block_ptr
  ed_destinationPort :: port_definition
  ed_state :: edge_state
  ed_actualBufferSize :: nat
  ed_edgeType :: port_type
  ed_sourceRef :: "nat option"
  ed_destinationRef :: "nat option"
  ed_minBufferSize :: nat
  ed_weight :: int
  ed_name :: string
  ed_dataResource :: "nat option"
  ed_tagResource :: "nat option"
  ed_domain :: compute_domain

definition default_parameters :: edge_parameters where
  "default_parameters = \<lparr>ep_minBufferSize = undefined_size, ep_weight = 0, ep_name = ''unnamed edge'', ep_dataResource = None,
     ep_tagResource = None, ep_domain = domain_host\<rparr>"

definition new_edge :: "block_ptr \<Rightarrow> port_definition \<Rightarrow> block_ptr \<Rightarrow> port_definition \<Rightarrow> edge_parameters \<Rightarrow> edge" where
  "new_edge s sp d dp P =
     \<lparr>ed_source = s, ed_sourcePort = sp, ed_destination = d, ed_destinationPort = dp, ed_state = WaitingToBeConnected,
      ed_actualBufferSize = size_max, ed_edgeType = ANY, ed_sourceRef = None, ed_destinationRef = None,
      ed_minBufferSize = ep_minBufferSize P, ed_weight = ep_weight P, ed_name = ep_name P,
      ed_dataResource = ep_dataResource P, ed_tagResource = ep_tagResource P, ed_domain = ep_domain P\<rparr>"

text \<open>\<^verbatim>\<open>Edge::operator==\<close>: the blocks and the definitions, not the ports they resolve to.\<close>

definition edge_eq :: "edge \<Rightarrow> edge \<Rightarrow> bool" where
  "edge_eq e f \<longleftrightarrow> ed_source e = ed_source f \<and> ed_destination e = ed_destination f \<and> ed_sourcePort e = ed_sourcePort f \<and>
     ed_destinationPort e = ed_destinationPort f"

definition hasSameSourcePort :: "block_heap \<Rightarrow> edge \<Rightarrow> edge \<Rightarrow> bool" where
  "hasSameSourcePort H e f \<longleftrightarrow>
     (if ed_source e = ed_source f \<and> ed_sourcePort e = ed_sourcePort f then True
      else (case (dynamicOutputPort H (ed_source e) (ed_sourcePort e), dynamicOutputPort H (ed_source f) (ed_sourcePort f)) of
              (Inr (_, p), Inr (_, q)) \<Rightarrow> dp_id p = dp_id q
            | _ \<Rightarrow> False))"

definition hasSameInput :: "block_heap \<Rightarrow> edge \<Rightarrow> edge \<Rightarrow> port_type \<Rightarrow> bool" where
  "hasSameInput H e f t \<longleftrightarrow>
     (if ed_destination e \<noteq> ed_destination f then False
      else (case (dynamicInputPort H (ed_destination e) (ed_destinationPort e), dynamicInputPort H (ed_destination e) (ed_destinationPort f)) of
              (Inr (i, p), Inr (j, _)) \<Rightarrow> i = j \<and> (t = ANY \<or> dp_type p = t)
            | _ \<Rightarrow> False))"

section \<open>Graphs\<close>

text \<open>A listed block carries the blocks and edges of its own graph; a block without one has none.\<close>

datatype block_node = BlockNode (node_ptr: block_ptr) (node_blocks: "block_node list") (node_edges: "edge list")

record flow_graph =
  fg_blocks :: "block_node list"
  fg_edges :: "edge list"

definition graph_clear :: "flow_graph \<Rightarrow> flow_graph" where
  "graph_clear g = g\<lparr>fg_blocks := [], fg_edges := []\<rparr>"

definition addBlock :: "block_node \<Rightarrow> flow_graph \<Rightarrow> flow_graph" where
  "addBlock b g = g\<lparr>fg_blocks := fg_blocks g @ [b]\<rparr>"

definition containsEdge :: "flow_graph \<Rightarrow> edge \<Rightarrow> bool" where
  "containsEdge g e \<longleftrightarrow> list_ex (\<lambda>f. edge_eq f e) (fg_edges g)"

definition addEdge :: "edge \<Rightarrow> flow_graph \<Rightarrow> (graph_error + unit) \<times> flow_graph" where
  "addEdge e g = (if containsEdge g e then (Inl Edge_exists, g) else (Inr (), g\<lparr>fg_edges := fg_edges g @ [e]\<rparr>))"

definition removeEdge :: "edge \<Rightarrow> flow_graph \<Rightarrow> bool \<times> flow_graph" where
  "removeEdge e g = (list_ex (\<lambda>f. edge_eq f e) (fg_edges g), g\<lparr>fg_edges := [f \<leftarrow> fg_edges g. \<not> edge_eq f e]\<rparr>)"

definition findBlock :: "block_heap \<Rightarrow> flow_graph \<Rightarrow> string \<Rightarrow> graph_error + block_ptr" where
  "findBlock H g name =
     (case find (\<lambda>b. bm_uniqueName (H (node_ptr b)) = name) (fg_blocks g) of None \<Rightarrow> Inl Block_not_found | Some b \<Rightarrow> Inr (node_ptr b))"

definition findEdge :: "flow_graph \<Rightarrow> string \<Rightarrow> graph_error + edge" where
  "findEdge g name = (case find (\<lambda>e. ed_name e = name) (fg_edges g) of None \<Rightarrow> Inl Edge_not_found | Some e \<Rightarrow> Inr e)"

definition blockIndex :: "block_heap \<Rightarrow> flow_graph \<Rightarrow> string \<Rightarrow> graph_error + nat" where
  "blockIndex H g name =
     (case first_index (\<lambda>b. bm_uniqueName (H (node_ptr b)) = name) (fg_blocks g) of None \<Rightarrow> Inl Block_not_found | Some i \<Rightarrow> Inr i)"

definition removeBlockByName :: "block_heap \<Rightarrow> string \<Rightarrow> flow_graph \<Rightarrow> (graph_error + block_node) \<times> flow_graph" where
  "removeBlockByName H name g =
     (case first_index (\<lambda>b. bm_uniqueName (H (node_ptr b)) = name) (fg_blocks g) of
        None \<Rightarrow> (Inl Block_not_found, g)
      | Some i \<Rightarrow>
          (let b = fg_blocks g ! i
           in (Inr b, g\<lparr>fg_edges := [e \<leftarrow> fg_edges g. \<not> (ed_source e = node_ptr b \<or> ed_destination e = node_ptr b)],
                        fg_blocks := take i (fg_blocks g) @ drop (Suc i) (fg_blocks g)\<rparr>)))"

definition defaultMinBufferSize :: "bool \<Rightarrow> nat" where
  "defaultMinBufferSize isArithmeticLike = (if isArithmeticLike then 65536 else 64)"

definition checkInputFree :: "block_heap \<Rightarrow> flow_graph \<Rightarrow> edge \<Rightarrow> port_type \<Rightarrow> graph_error + unit" where
  "checkInputFree H g e t = (if list_ex (\<lambda>f. hasSameInput H f e t) (fg_edges g) then Inl Input_taken else Inr ())"

definition removeEdgesDisplacedBy :: "block_heap \<Rightarrow> edge \<Rightarrow> flow_graph \<Rightarrow> edge list \<times> flow_graph" where
  "removeEdgesDisplacedBy H e g =
     ([f \<leftarrow> fg_edges g. hasSameInput H f e STREAM], g\<lparr>fg_edges := [f \<leftarrow> fg_edges g. \<not> hasSameInput H f e STREAM]\<rparr>)"

text \<open>\<^verbatim>\<open>Graph::connect\<close> on two blocks and two port definitions.\<close>

definition graph_connect :: "block_heap \<Rightarrow> block_ptr \<Rightarrow> port_definition \<Rightarrow> block_ptr \<Rightarrow> port_definition \<Rightarrow> edge_parameters \<Rightarrow> flow_graph \<Rightarrow> (graph_error + unit) \<times> flow_graph" where
  "graph_connect H s sp d dp P g =
     (let isArithmeticLike = (case dynamicOutputPort H s sp of Inr (_, p) \<Rightarrow> dp_arithmetic p | Inl _ \<Rightarrow> True);
          size = (if ep_minBufferSize P = undefined_size then defaultMinBufferSize isArithmeticLike else ep_minBufferSize P);
          e = new_edge s sp d dp (P\<lparr>ep_minBufferSize := size\<rparr>)
      in case checkInputFree H g e ANY of
           Inl err \<Rightarrow> (Inl err, g)
         | Inr _ \<Rightarrow> (Inr (), g\<lparr>fg_edges := fg_edges g @ [e]\<rparr>))"

section \<open>Nested graphs\<close>

definition enters :: "block_category \<Rightarrow> block_category \<Rightarrow> bool" where
  "enters traverse cat \<longleftrightarrow> (if traverse = AllBlocks then cat = TransparentBlockGroup \<or> cat = ScheduledBlockGroup else cat = traverse)"

primrec visit_node :: "block_heap \<Rightarrow> block_category \<Rightarrow> block_node \<Rightarrow> flow_graph list" where
  "visit_node H t (BlockNode p bs es) =
     (if enters t (bm_category (H p)) then \<lparr>fg_blocks = bs, fg_edges = es\<rparr> # concat (map (visit_node H t) bs) else [])"

definition traverseSubgraphs :: "block_heap \<Rightarrow> block_category \<Rightarrow> flow_graph \<Rightarrow> flow_graph list" where
  "traverseSubgraphs H t root = root # concat (map (visit_node H t) (fg_blocks root))"

definition forEachBlock :: "block_heap \<Rightarrow> block_category \<Rightarrow> block_category \<Rightarrow> flow_graph \<Rightarrow> block_node list" where
  "forEachBlock H t filt root =
     concat (map (\<lambda>g. [b \<leftarrow> fg_blocks g. filt = AllBlocks \<or> bm_category (H (node_ptr b)) = filt]) (traverseSubgraphs H t root))"

definition countBlocks :: "block_heap \<Rightarrow> block_category \<Rightarrow> block_category \<Rightarrow> flow_graph \<Rightarrow> nat" where
  "countBlocks H t filt root = length (forEachBlock H t filt root)"

definition forEachEdge :: "block_heap \<Rightarrow> block_category \<Rightarrow> edge_state \<Rightarrow> flow_graph \<Rightarrow> edge list" where
  "forEachEdge H t filt root =
     concat (map (\<lambda>g. [e \<leftarrow> fg_edges g. filt = UnknownState \<or> ed_state e = filt]) (traverseSubgraphs H t root))"

definition countEdges :: "block_heap \<Rightarrow> block_category \<Rightarrow> edge_state \<Rightarrow> flow_graph \<Rightarrow> nat" where
  "countEdges H t filt root = length (forEachEdge H t filt root)"

definition addListedEdge :: "block_ptr list \<Rightarrow> edge \<Rightarrow> flow_graph \<Rightarrow> flow_graph" where
  "addListedEdge listed e g = (if ed_source e \<in> set listed \<and> ed_destination e \<in> set listed then snd (addEdge e g) else g)"

definition flatten :: "block_heap \<Rightarrow> block_category \<Rightarrow> flow_graph \<Rightarrow> flow_graph" where
  "flatten H t root =
     (let blocks = forEachBlock H t AllBlocks root;
          flat = fold addBlock blocks \<lparr>fg_blocks = [], fg_edges = []\<rparr>;
          listed = map node_ptr (fg_blocks flat);
          flat1 = fold (addListedEdge listed) (fg_edges root) flat
      in fold (addListedEdge listed) (concat (map node_edges blocks)) flat1)"

section \<open>The port a definition names\<close>

text \<open>What a reference points to.\<close>

fun port_at :: "port_entry list \<Rightarrow> port_ref \<Rightarrow> dynamic_port option" where
  "port_at what (i, None) = (if i < length what \<and> \<not> is_collection (what ! i) then Some (hd (ports_of_entry (what ! i))) else None)"
| "port_at what (i, Some k) =
     (if i < length what \<and> is_collection (what ! i) \<and> k < length (ports_of_entry (what ! i)) then Some (ports_of_entry (what ! i) ! k) else None)"

text \<open>The definitions that name the port at a reference: by its index, and by its name.\<close>

fun index_of_ref :: "port_ref \<Rightarrow> port_definition" where
  "index_of_ref (i, None) = IndexBased i invalid_index"
| "index_of_ref (i, Some k) = IndexBased i k"

fun names_ref :: "port_entry list \<Rightarrow> port_ref \<Rightarrow> string \<Rightarrow> bool" where
  "names_ref what (i, None) s \<longleftrightarrow> s = portName (what ! i)"
| "names_ref what (i, Some k) s \<longleftrightarrow> (\<exists>t. s = portName (what ! i) @ CHR ''#'' # t \<and> from_chars t = Some k)"

definition ports_ok :: "port_entry list \<Rightarrow> bool" where
  "ports_ok what \<longleftrightarrow> distinct (map portName what) \<and> (\<forall>e \<in> set what. CHR ''#'' \<notin> set (portName e) \<and> length (ports_of_entry e) \<le> size_max)"

lemma resolve_valid: "resolve what d = Inr (r, p) \<Longrightarrow> port_at what r = Some p"
proof (induction what d rule: resolve.induct)
  case (1 what i k)
  then show ?case by (cases "what ! i") (auto simp: dynamicPortByIndexImpl_def split: if_splits)
next
  case (2 what name)
  then show ?case
    by (auto simp: dynamicPortFromName_def Let_def first_index_Some not_le split: if_splits option.splits)
qed

lemma first_index_unique:
  assumes "i < length xs" "P (xs ! i)" "\<And>j. j < length xs \<Longrightarrow> P (xs ! j) \<Longrightarrow> j = i"
  shows "first_index P xs = Some i"
  using assms by (metis first_index_Some less_trans nat_neq_iff)

lemma port_name_unique:
  "ports_ok what \<Longrightarrow> i < length what \<Longrightarrow> j < length what \<Longrightarrow> portName (what ! j) = portName (what ! i) \<Longrightarrow> j = i"
  by (auto simp: ports_ok_def distinct_conv_nth)

lemma split_at_hash: "CHR ''#'' \<notin> set s \<Longrightarrow>
    takeWhile (\<lambda>c. c \<noteq> CHR ''#'') (s @ CHR ''#'' # t) = s \<and> dropWhile (\<lambda>c. c \<noteq> CHR ''#'') (s @ CHR ''#'' # t) = CHR ''#'' # t"
  by (induction s) auto

lemma resolve_name:
  assumes "ports_ok what" "port_at what r = Some p" "names_ref what r s"
  shows "resolve what (StringBased s) = Inr (r, p)"
proof (cases r)
  case (Pair i k)
  show ?thesis
  proof (cases k)
    case None
    with assms Pair have i: "i < length what" "\<not> is_collection (what ! i)" "p = hd (ports_of_entry (what ! i))" "s = portName (what ! i)"
      by (auto split: if_splits)
    have "first_index (\<lambda>e. \<not> is_collection e \<and> portName e = s) what = Some i"
      using i port_name_unique [OF assms(1) i(1)] by (intro first_index_unique) auto
    then show ?thesis using i Pair None assms(1) by (simp add: dynamicPortFromName_def ports_ok_def)
  next
    case (Some n)
    with assms Pair obtain t where i: "i < length what" "is_collection (what ! i)" "n < length (ports_of_entry (what ! i))"
        "p = ports_of_entry (what ! i) ! n" "s = portName (what ! i) @ CHR ''#'' # t" "from_chars t = Some n"
      by (auto split: if_splits)
    have hash: "CHR ''#'' \<notin> set (portName (what ! i))" using assms(1) i(1) by (simp add: ports_ok_def)
    have "first_index (\<lambda>e. is_collection e \<and> portName e = portName (what ! i)) what = Some i"
      using i port_name_unique [OF assms(1) i(1)] by (intro first_index_unique) auto
    then show ?thesis using i Pair Some split_at_hash [OF hash] by (simp add: dynamicPortFromName_def Let_def)
  qed
qed

lemma resolve_index:
  assumes "ports_ok what" "port_at what r = Some p"
  shows "resolve what (index_of_ref r) = Inr (r, p)"
proof (cases r)
  case (Pair i k)
  show ?thesis
  proof (cases k)
    case None
    then show ?thesis using assms(2) Pair by (cases "what ! i") (auto simp: dynamicPortByIndexImpl_def split: if_splits)
  next
    case (Some n)
    with assms(2) Pair have i: "i < length what" "is_collection (what ! i)" "n < length (ports_of_entry (what ! i))" "p = ports_of_entry (what ! i) ! n"
      by (auto split: if_splits)
    moreover have "length (ports_of_entry (what ! i)) \<le> size_max" using assms(1) nth_mem [OF i(1)] by (simp add: ports_ok_def)
    then have "n \<noteq> invalid_index" using i(3) by (simp add: invalid_index_def)
    ultimately show ?thesis using Pair Some by (cases "what ! i") (auto simp: dynamicPortByIndexImpl_def)
  qed
qed

text \<open>
  A port by any name. With distinct port names, an edge that names a port by its index and one that names it by its name, with
  or without a place in a collection, resolve to the same port; and whatever a definition resolves to is a port of the block.
\<close>

theorem definitions_agree:
  assumes "ports_ok what" "port_at what r = Some p" "names_ref what r s"
  shows "resolve what (StringBased s) = Inr (r, p) \<and> resolve what (index_of_ref r) = Inr (r, p) \<and>
    (\<forall>d r' p'. resolve what d = Inr (r', p') \<longrightarrow> port_at what r' = Some p')"
  using resolve_name [OF assms] resolve_index [OF assms(1,2)] resolve_valid by blast

section \<open>The blocks and edges of a flattened graph\<close>

text \<open>A block is inside a list of blocks when it is listed, or inside the graph of a listed block that the traversal enters.\<close>

inductive inside :: "block_heap \<Rightarrow> block_category \<Rightarrow> block_node list \<Rightarrow> block_node \<Rightarrow> bool" for H t where
  listed: "b \<in> set bs \<Longrightarrow> inside H t bs b"
| nested: "b \<in> set bs \<Longrightarrow> enters t (bm_category (H (node_ptr b))) \<Longrightarrow> inside H t (node_blocks b) c \<Longrightarrow> inside H t bs c"

inductive_simps inside_iff: "inside H t bs c"

lemma visit_node_blocks:
  "(\<exists>g \<in> set (visit_node H t n). c \<in> set (fg_blocks g)) \<longleftrightarrow> enters t (bm_category (H (node_ptr n))) \<and> inside H t (node_blocks n) c"
proof (induction n)
  case (BlockNode p bs es)
  have "(\<exists>g \<in> set (visit_node H t (BlockNode p bs es)). c \<in> set (fg_blocks g)) \<longleftrightarrow>
      enters t (bm_category (H p)) \<and> (c \<in> set bs \<or> (\<exists>b \<in> set bs. \<exists>g \<in> set (visit_node H t b). c \<in> set (fg_blocks g)))"
    by auto
  also have "\<dots> \<longleftrightarrow> enters t (bm_category (H p)) \<and> inside H t bs c"
    using BlockNode.IH by (subst inside_iff) auto
  finally show ?case by simp
qed

lemma blocks_inside: "set (forEachBlock H t AllBlocks g) = {b. inside H t (fg_blocks g) b}"
proof -
  have "b \<in> set (forEachBlock H t AllBlocks g) \<longleftrightarrow> b \<in> set (fg_blocks g) \<or>
      (\<exists>n \<in> set (fg_blocks g). \<exists>h \<in> set (visit_node H t n). b \<in> set (fg_blocks h))" for b
    by (auto simp: forEachBlock_def traverseSubgraphs_def)
  then show ?thesis unfolding visit_node_blocks by (subst inside_iff) auto
qed

lemma edge_eq_refl [simp]: "edge_eq e e"
  by (simp add: edge_eq_def)

lemma edge_eq_sym: "edge_eq e f \<longleftrightarrow> edge_eq f e"
  by (auto simp: edge_eq_def)

lemma edge_eq_trans: "edge_eq e f \<Longrightarrow> edge_eq f k \<Longrightarrow> edge_eq e k"
  by (auto simp: edge_eq_def)

lemma containsEdge_iff: "containsEdge g e \<longleftrightarrow> (\<exists>f \<in> set (fg_edges g). edge_eq f e)"
  by (simp add: containsEdge_def list_ex_iff)

definition distinct_edges :: "edge list \<Rightarrow> bool" where
  "distinct_edges = sorted_wrt (\<lambda>e f. \<not> edge_eq e f)"

lemma add_listed:
  "fg_blocks (addListedEdge ls e g) = fg_blocks g"
  "containsEdge (addListedEdge ls e g) k \<longleftrightarrow> containsEdge g k \<or> edge_eq e k \<and> ed_source k \<in> set ls \<and> ed_destination k \<in> set ls"
  "distinct_edges (fg_edges g) \<Longrightarrow> distinct_edges (fg_edges (addListedEdge ls e g))"
proof -
  show "fg_blocks (addListedEdge ls e g) = fg_blocks g" by (simp add: addListedEdge_def addEdge_def)
  show "containsEdge (addListedEdge ls e g) k \<longleftrightarrow> containsEdge g k \<or> edge_eq e k \<and> ed_source k \<in> set ls \<and> ed_destination k \<in> set ls"
  proof -
    have "ed_source e = ed_source k \<and> ed_destination e = ed_destination k" if "edge_eq e k" using that by (simp add: edge_eq_def)
    moreover have "containsEdge g k" if "containsEdge g e" "edge_eq e k" using that by (auto simp: containsEdge_iff intro: edge_eq_trans)
    ultimately show ?thesis by (auto simp: addListedEdge_def addEdge_def containsEdge_iff)
  qed
  show "distinct_edges (fg_edges (addListedEdge ls e g))" if "distinct_edges (fg_edges g)"
    using that by (auto simp: addListedEdge_def addEdge_def containsEdge_iff distinct_edges_def sorted_wrt_append)
qed

lemma add_listed_fold:
  "fg_blocks (fold (addListedEdge ls) es g) = fg_blocks g"
  "containsEdge (fold (addListedEdge ls) es g) k \<longleftrightarrow> containsEdge g k \<or> (\<exists>e \<in> set es. edge_eq e k) \<and> ed_source k \<in> set ls \<and> ed_destination k \<in> set ls"
  "distinct_edges (fg_edges g) \<Longrightarrow> distinct_edges (fg_edges (fold (addListedEdge ls) es g))"
proof (induction es arbitrary: g)
  case (Cons e es)
  { case 1 show ?case by (simp add: Cons(1) add_listed(1)) }
  { case 2 show ?case by (auto simp: Cons(2) add_listed(2)) }
  { case 3 then show ?case by (simp add: Cons(3) add_listed(3)) }
qed simp_all

lemma fold_addBlock: "fold addBlock bs g = g\<lparr>fg_blocks := fg_blocks g @ bs\<rparr>"
  by (induction bs arbitrary: g) (simp_all add: addBlock_def)

lemma flatten_blocks: "fg_blocks (flatten H t g) = forEachBlock H t AllBlocks g"
  by (simp add: flatten_def Let_def add_listed_fold(1) fold_addBlock)

lemma flatten_contains:
  "containsEdge (flatten H t g) e \<longleftrightarrow>
    ed_source e \<in> node_ptr ` set (fg_blocks (flatten H t g)) \<and> ed_destination e \<in> node_ptr ` set (fg_blocks (flatten H t g)) \<and>
    (\<exists>f. edge_eq f e \<and> (f \<in> set (fg_edges g) \<or> (\<exists>b. inside H t (fg_blocks g) b \<and> f \<in> set (node_edges b))))"
proof -
  let ?bs = "forEachBlock H t AllBlocks g"
  have none: "\<not> containsEdge \<lparr>fg_blocks = bs, fg_edges = []\<rparr> k" for bs k by (simp add: containsEdge_iff)
  have "containsEdge (flatten H t g) e \<longleftrightarrow>
      (\<exists>f \<in> set (fg_edges g) \<union> (\<Union>b \<in> set ?bs. set (node_edges b)). edge_eq f e) \<and> ed_source e \<in> node_ptr ` set ?bs \<and> ed_destination e \<in> node_ptr ` set ?bs"
    by (auto simp: flatten_def Let_def add_listed_fold(2) fold_addBlock none)
  then show ?thesis unfolding flatten_blocks blocks_inside by blast
qed

lemma flatten_distinct: "distinct_edges (fg_edges (flatten H t g))"
  unfolding flatten_def Let_def by (intro add_listed_fold(3)) (simp add: fold_addBlock distinct_edges_def)

text \<open>
  C26. Flattening. The flattened graph lists exactly the blocks that the traversal reaches through nested groups, once per listing,
  and exactly those edges of the graphs on the way whose two blocks are listed; no two of its edges are equal.
\<close>

theorem flatten_exact:
  "set (fg_blocks (flatten H t g)) = {b. inside H t (fg_blocks g) b} \<and> length (fg_blocks (flatten H t g)) = countBlocks H t AllBlocks g \<and>
   (\<forall>e. containsEdge (flatten H t g) e \<longleftrightarrow>
      ed_source e \<in> node_ptr ` set (fg_blocks (flatten H t g)) \<and> ed_destination e \<in> node_ptr ` set (fg_blocks (flatten H t g)) \<and>
      (\<exists>f. edge_eq f e \<and> (f \<in> set (fg_edges g) \<or> (\<exists>b. inside H t (fg_blocks g) b \<and> f \<in> set (node_edges b))))) \<and>
   distinct_edges (fg_edges (flatten H t g))"
  using flatten_blocks [of H t g] blocks_inside [of H t g] flatten_contains flatten_distinct by (simp add: countBlocks_def)

definition demo_port :: "nat \<Rightarrow> string \<Rightarrow> dynamic_port" where
  "demo_port i n = \<lparr>dp_id = i, dp_name = n, dp_typeName = ''float'', dp_dataType = ''float'', dp_type = STREAM, dp_sync = True, dp_optional = False, dp_arithmetic = True\<rparr>"

definition demo_ports :: "port_entry list" where
  "demo_ports = [SinglePort (demo_port 1 ''out''), NamedPortCollection ''in'' [demo_port 2 ''in'', demo_port 3 ''in'']]"

lemma definitions_agree_witness:
  "resolve demo_ports (StringBased ''in#1'') = Inr ((1, Some 1), demo_port 3 ''in'') \<and>
   resolve demo_ports (IndexBased 1 1) = Inr ((1, Some 1), demo_port 3 ''in'')"
proof -
  have "ports_ok demo_ports" by (simp add: ports_ok_def demo_ports_def demo_port_def size_max_def)
  moreover have "port_at demo_ports (1, Some 1) = Some (demo_port 3 ''in'')" by (simp add: demo_ports_def)
  moreover have "from_chars ''1'' = Some 1" by (simp add: from_chars_def digits_value_def is_digit_def digit_value_def size_max_def)
  then have "names_ref demo_ports (1, Some 1) ''in#1''" by (simp add: demo_ports_def)
  ultimately show ?thesis using definitions_agree [of demo_ports "(1, Some 1)" "demo_port 3 ''in''" "''in#1''"] by simp
qed

end
