(* ===== verification/FlowConnect.thy ===== *)
theory FlowConnect
  imports FlowGraph
begin

text \<open>
  How the edges of a graph are connected (\<^verbatim>\<open>core/include/gnuradio-4.0/Graph.hpp\<close>, \<^verbatim>\<open>Port.hpp\<close>): the rings of the ports, and the graph
  operations that size, connect and release them. A ring is a number. An output writes to at most one ring and an input reads at
  most one; \<open>fe_alloc\<close> is the size of the ring that a buffer of a size gets from a pair of memory resources, or \<open>None\<close> where the
  allocation throws. The samples in the rings and the tags a released reader drops are left out.
\<close>

section \<open>The rings of the ports\<close>

record ring_store =
  rg_next :: nat
  rg_sizes :: "(nat \<times> nat) list"
  rg_readers :: "(nat \<times> nat) list"
  rg_writers :: "(nat \<times> nat) list"

record flow_env =
  fe_heap :: block_heap
  fe_alloc :: "nat \<Rightarrow> nat option \<Rightarrow> nat option \<Rightarrow> nat option"
  fe_registry :: registry

definition kDefaultBufferSize :: nat where
  "kDefaultBufferSize = 4096"

definition nReaders :: "ring_store \<Rightarrow> nat \<Rightarrow> nat" where
  "nReaders s p = (case map_of (rg_writers s) p of None \<Rightarrow> 0 | Some r \<Rightarrow> length [x \<leftarrow> rg_readers s. snd x = r])"

definition nWriters :: "ring_store \<Rightarrow> nat \<Rightarrow> nat" where
  "nWriters s p = (case map_of (rg_readers s) p of None \<Rightarrow> 0 | Some r \<Rightarrow> length [x \<leftarrow> rg_writers s. snd x = r])"

definition output_connected :: "ring_store \<Rightarrow> nat \<Rightarrow> bool" where
  "output_connected s p \<longleftrightarrow> 0 < nReaders s p"

definition input_connected :: "ring_store \<Rightarrow> nat \<Rightarrow> bool" where
  "input_connected s p \<longleftrightarrow> 0 < nWriters s p"

definition ring_size :: "ring_store \<Rightarrow> nat option \<Rightarrow> nat" where
  "ring_size s r = (case r of None \<Rightarrow> kDefaultBufferSize | Some i \<Rightarrow> (case map_of (rg_sizes s) i of None \<Rightarrow> 0 | Some n \<Rightarrow> n))"

definition output_bufferSize :: "ring_store \<Rightarrow> nat \<Rightarrow> nat" where
  "output_bufferSize s p = ring_size s (map_of (rg_writers s) p)"

definition input_bufferSize :: "ring_store \<Rightarrow> nat \<Rightarrow> nat" where
  "input_bufferSize s p = ring_size s (map_of (rg_readers s) p)"

text \<open>A new ring with its writer.\<close>

definition set_writer :: "nat \<Rightarrow> nat \<Rightarrow> ring_store \<Rightarrow> ring_store" where
  "set_writer p len s =
     s\<lparr>rg_next := Suc (rg_next s), rg_sizes := (rg_next s, len) # rg_sizes s, rg_writers := AList.update p (rg_next s) (rg_writers s)\<rparr>"

text \<open>\<^verbatim>\<open>Port::resizeBuffer\<close> of an output.\<close>

definition port_resizeBuffer :: "flow_env \<Rightarrow> nat \<Rightarrow> nat option \<Rightarrow> nat option \<Rightarrow> nat \<Rightarrow> ring_store \<Rightarrow> bool \<times> ring_store" where
  "port_resizeBuffer E minSize dataResource tagResource p s =
     (case fe_alloc E minSize dataResource tagResource of
        None \<Rightarrow> (False, s)
      | Some len \<Rightarrow> (True, set_writer p len s))"

text \<open>\<^verbatim>\<open>Port::buildDefaultRings\<close>; an allocation that fails there ends the process.\<close>

definition writerHandlerInternal :: "flow_env \<Rightarrow> nat \<Rightarrow> ring_store \<Rightarrow> ring_store" where
  "writerHandlerInternal E p s =
     (if map_of (rg_writers s) p = None then set_writer p (the (fe_alloc E kDefaultBufferSize None None)) s else s)"

definition updateReaderInternal :: "nat \<Rightarrow> nat \<Rightarrow> ring_store \<Rightarrow> ring_store" where
  "updateReaderInternal p r s = s\<lparr>rg_readers := AList.update p r (rg_readers s)\<rparr>"

definition dynamic_connect :: "flow_env \<Rightarrow> dynamic_port \<Rightarrow> dynamic_port \<Rightarrow> ring_store \<Rightarrow> (graph_error + unit) \<times> ring_store" where
  "dynamic_connect E src dst s =
     (if dp_type src \<noteq> dp_type dst \<or> dp_dataType src \<noteq> dp_dataType dst then (Inl Type_mismatch, s)
      else (let s1 = writerHandlerInternal E (dp_id src) s
            in case map_of (rg_writers s1) (dp_id src) of
                 None \<Rightarrow> (Inl Connection_failed, s1)
               | Some r \<Rightarrow> (Inr (), updateReaderInternal (dp_id dst) r s1)))"

definition output_disconnect :: "nat \<Rightarrow> ring_store \<Rightarrow> (graph_error + unit) \<times> ring_store" where
  "output_disconnect p s =
     (if output_connected s p then (Inr (), s\<lparr>rg_writers := AList.delete p (rg_writers s)\<rparr>) else (Inl Not_connected, s))"

definition input_disconnect :: "nat \<Rightarrow> ring_store \<Rightarrow> (graph_error + unit) \<times> ring_store" where
  "input_disconnect p s =
     (if input_connected s p then (Inr (), s\<lparr>rg_readers := AList.delete p (rg_readers s)\<rparr>) else (Inl Not_connected, s))"

section \<open>Connecting an edge\<close>

text \<open>The domain of an edge whose own domain is the host's: the staged compute domain of a block, or its active one, unless it is a
  thread pool's or the host's name.\<close>

definition block_domain :: "block_model \<Rightarrow> string option" where
  "block_domain b =
     (let staged = (case bm_stagedDomain b of None \<Rightarrow> '''' | Some s \<Rightarrow> s);
          domainStr = (if staged = '''' then (case bm_activeDomain b of None \<Rightarrow> '''' | Some s \<Rightarrow> s) else staged)
      in if domainStr \<noteq> '''' \<and> domainStr \<noteq> ''default_io'' \<and> domainStr \<noteq> ''default_cpu'' \<and> domainStr \<noteq> ''host'' then Some domainStr else None)"

definition resolve_domain :: "flow_env \<Rightarrow> edge \<Rightarrow> edge" where
  "resolve_domain E e =
     (let unnamed = (ed_dataResource e = None \<or> ed_tagResource e = None);
          e1 = (if cd_kind (ed_domain e) = ''host'' \<and> unnamed then
                  (case block_domain (fe_heap E (ed_source e)) of
                     Some s \<Rightarrow> e\<lparr>ed_domain := parse_domain s\<rparr>
                   | None \<Rightarrow> (case block_domain (fe_heap E (ed_destination e)) of Some s \<Rightarrow> e\<lparr>ed_domain := parse_domain s\<rparr> | None \<Rightarrow> e))
                else e)
      in if cd_kind (ed_domain e1) \<noteq> ''host'' \<and> unnamed then
           (case tryResolve (fe_registry E) (ed_domain e1) of
              None \<Rightarrow> e1
            | Some mr \<Rightarrow> e1\<lparr>ed_dataResource := Some (case ed_dataResource e1 of None \<Rightarrow> mr | Some r \<Rightarrow> r),
                            ed_tagResource := Some (case ed_tagResource e1 of None \<Rightarrow> mr | Some r \<Rightarrow> r)\<rparr>)
         else e1)"

definition calculateStreamBufferSize :: "block_heap \<Rightarrow> flow_graph \<Rightarrow> edge \<Rightarrow> nat" where
  "calculateStreamBufferSize H g refEdge =
     (case find (\<lambda>e. hasSameSourcePort H refEdge e \<and> ed_state e = Connected) (fg_edges g) of
        Some e \<Rightarrow> ed_actualBufferSize e
      | None \<Rightarrow> fold (\<lambda>e maxSize. if hasSameSourcePort H refEdge e \<and> ed_minBufferSize e \<noteq> undefined_size then max maxSize (ed_minBufferSize e) else maxSize)
                  (forEachEdge H AllBlocks UnknownState g) 0)"

definition wire_ports :: "flow_env \<Rightarrow> flow_graph \<Rightarrow> dynamic_port \<Rightarrow> dynamic_port \<Rightarrow> edge \<Rightarrow> ring_store \<Rightarrow> edge \<times> ring_store" where
  "wire_ports E g src dst e s =
     (let (resized, s1) = (if output_connected s (dp_id src) then (True, s)
             else port_resizeBuffer E (calculateStreamBufferSize (fe_heap E) g e) (ed_dataResource e) (ed_tagResource e) (dp_id src) s);
          (result, s2) = dynamic_connect E src dst s1
      in (e\<lparr>ed_state := (if result = Inr () \<and> resized then Connected else ErrorConnecting), ed_actualBufferSize := output_bufferSize s2 (dp_id src),
            ed_edgeType := dp_type src, ed_sourceRef := Some (dp_id src), ed_destinationRef := Some (dp_id dst)\<rparr>, s2))"

definition applyEdgeConnection :: "flow_env \<Rightarrow> flow_graph \<Rightarrow> edge \<Rightarrow> ring_store \<Rightarrow> edge \<times> ring_store" where
  "applyEdgeConnection E g e s =
     (case (dynamicOutputPort (fe_heap E) (ed_source e) (ed_sourcePort e), dynamicInputPort (fe_heap E) (ed_destination e) (ed_destinationPort e)) of
        (Inr (_, src), Inr (_, dst)) \<Rightarrow>
          (let e1 = resolve_domain E e
           in if dp_typeName src \<noteq> dp_typeName dst then (e1\<lparr>ed_state := IncompatiblePorts\<rparr>, s) else wire_ports E g src dst e1 s)
      | _ \<Rightarrow> (e\<lparr>ed_state := PortNotFound\<rparr>, s))"

section \<open>The edges of a graph\<close>

text \<open>The most samples one call can ask of an output that nothing limits.\<close>

definition all_ports :: "port_entry list \<Rightarrow> dynamic_port list" where
  "all_ports what = concat (map ports_of_entry what)"

definition largestOutputChunk :: "block_model \<Rightarrow> ring_store \<Rightarrow> nat" where
  "largestOutputChunk b s =
     (let inputChunk = nat (max (fst (bm_ratio b)) 1); outputChunk = nat (max (snd (bm_ratio b)) 1);
          largestInput = fold (\<lambda>p n. if input_connected s (dp_id p) \<and> dp_sync p then max n (input_bufferSize s (dp_id p)) else n) (all_ports (bm_inputs b)) 0;
          inputChunks = (largestInput + inputChunk - 1) div inputChunk
      in max (inputChunks * outputChunk) outputChunk)"

definition sizeUnconnectedOptionalOutputs :: "flow_env \<Rightarrow> block_ptr \<Rightarrow> ring_store \<Rightarrow> ring_store" where
  "sizeUnconnectedOptionalOutputs E b s =
     (let outs = all_ports (bm_outputs (fe_heap E b));
          maxConnectedSize = fold (\<lambda>p n. if output_connected s (dp_id p) \<and> dp_sync p \<and> dp_type p = STREAM then max n (output_bufferSize s (dp_id p)) else n) outs 0;
          targetSize = (if 0 < maxConnectedSize then maxConnectedSize else largestOutputChunk (fe_heap E b) s)
      in fold (\<lambda>p s. if \<not> output_connected s (dp_id p) \<and> dp_sync p \<and> dp_optional p \<and> output_bufferSize s (dp_id p) < targetSize
                     then snd (port_resizeBuffer E targetSize None None (dp_id p) s) else s) outs s)"

type_synonym net_state = "flow_graph \<times> ring_store"

definition connect_edge :: "flow_env \<Rightarrow> nat \<Rightarrow> net_state \<Rightarrow> net_state" where
  "connect_edge E i = (\<lambda>(g, s).
     (let (e, s1) = applyEdgeConnection E g (fg_edges g ! i) s in (g\<lparr>fg_edges := (fg_edges g)[i := e]\<rparr>, s1)))"

definition connect_pending :: "flow_env \<Rightarrow> nat \<Rightarrow> bool \<times> net_state \<Rightarrow> bool \<times> net_state" where
  "connect_pending E i = (\<lambda>(allConnected, g, s).
     (if ed_state (fg_edges g ! i) = WaitingToBeConnected then
        (let (g1, s1) = connect_edge E i (g, s) in (allConnected \<and> ed_state (fg_edges g1 ! i) = Connected, g1, s1))
      else (allConnected, g, s)))"

definition size_outputs :: "flow_env \<Rightarrow> net_state \<Rightarrow> net_state" where
  "size_outputs E = (\<lambda>(g, s). (g, fold (\<lambda>b. sizeUnconnectedOptionalOutputs E (node_ptr b)) (fg_blocks g) s))"

definition connectPendingEdges :: "flow_env \<Rightarrow> net_state \<Rightarrow> bool \<times> net_state" where
  "connectPendingEdges E n =
     (let (allConnected, n1) = fold (connect_pending E) [0..<length (fg_edges (fst n))] (True, n) in (allConnected, size_outputs E n1))"

text \<open>\<^verbatim>\<open>_exportedPorts\<close>: block, whether the port is an input, and the port's name. An exported port is compared by its address.\<close>

type_synonym exported_ports = "(string \<times> bool \<times> string) list"

definition exported_refs :: "block_model \<Rightarrow> exported_ports \<Rightarrow> (bool \<times> port_ref) list" where
  "exported_refs b X = concat (map (\<lambda>(n, isInput, name).
     if n = bm_uniqueName b then (case dynamicPortFromName (if isInput then bm_inputs b else bm_outputs b) name of Inr (r, _) \<Rightarrow> [(isInput, r)] | Inl _ \<Rightarrow> []) else []) X)"

definition refs_of :: "port_entry list \<Rightarrow> (port_ref \<times> dynamic_port) list" where
  "refs_of what = concat (map (\<lambda>i. case what ! i of
     SinglePort p \<Rightarrow> [((i, None), p)]
   | NamedPortCollection n ps \<Rightarrow> map (\<lambda>k. ((i, Some k), ps ! k)) [0..<length ps]) [0..<length what])"

definition disconnect_block :: "flow_env \<Rightarrow> exported_ports \<Rightarrow> block_ptr \<Rightarrow> ring_store \<Rightarrow> ring_store" where
  "disconnect_block E X b s =
     (let m = fe_heap E b; keep = set (exported_refs m X);
          s1 = fold (\<lambda>(r, p) s. if (True, r) \<in> keep then s else snd (input_disconnect (dp_id p) s)) (refs_of (bm_inputs m)) s
      in fold (\<lambda>(r, p) s. if (False, r) \<in> keep then s else snd (output_disconnect (dp_id p) s)) (refs_of (bm_outputs m)) s1)"

definition disconnectAllEdges :: "flow_env \<Rightarrow> exported_ports \<Rightarrow> net_state \<Rightarrow> net_state" where
  "disconnectAllEdges E X = (\<lambda>(g, s).
     (g\<lparr>fg_edges := map (\<lambda>e. e\<lparr>ed_state := WaitingToBeConnected\<rparr>) (fg_edges g)\<rparr>, fold (\<lambda>b. disconnect_block E X (node_ptr b)) (fg_blocks g) s))"

definition reconnectAllEdges :: "flow_env \<Rightarrow> exported_ports \<Rightarrow> net_state \<Rightarrow> bool \<times> net_state" where
  "reconnectAllEdges E X n = connectPendingEdges E (disconnectAllEdges E X n)"

text \<open>\<^verbatim>\<open>Graph::emplaceEdge\<close> by the names of blocks and ports; first its part from the check of the input on.\<close>

definition connect_new_edge :: "flow_env \<Rightarrow> dynamic_port \<Rightarrow> dynamic_port \<Rightarrow> edge \<Rightarrow> net_state \<Rightarrow> (graph_error + edge list) \<times> net_state" where
  "connect_new_edge E src dst e = (\<lambda>(g, s).
     (if checkInputFree (fe_heap E) g e MESSAGE \<noteq> Inr () then (Inl Input_taken, g, s)
      else (let (result, s1) = dynamic_connect E src dst s
            in if result \<noteq> Inr () then (Inl Connection_failed, g, s1)
               else (let (displaced, g1) = removeEdgesDisplacedBy (fe_heap E) e g;
                         s2 = sizeUnconnectedOptionalOutputs E (ed_source e) s1
                     in (Inr displaced, g1\<lparr>fg_edges := fg_edges g1 @ [e]\<rparr>, sizeUnconnectedOptionalOutputs E (ed_destination e) s2)))))"

definition emplaceEdge :: "flow_env \<Rightarrow> string \<Rightarrow> string \<Rightarrow> string \<Rightarrow> string \<Rightarrow> nat \<Rightarrow> int \<Rightarrow> string \<Rightarrow> net_state \<Rightarrow> (graph_error + edge list) \<times> net_state" where
  "emplaceEdge E sourceBlock sourcePort destinationBlock destinationPort minBufferSize weight edgeName n =
     (case findBlock (fe_heap E) (fst n) sourceBlock of
        Inl err \<Rightarrow> (Inl err, n)
      | Inr sb \<Rightarrow> (case findBlock (fe_heap E) (fst n) destinationBlock of
          Inl err \<Rightarrow> (Inl err, n)
        | Inr db \<Rightarrow> (case dynamicOutputPort (fe_heap E) sb (StringBased sourcePort) of
            Inl err \<Rightarrow> (Inl err, n)
          | Inr (_, src) \<Rightarrow> (case dynamicInputPort (fe_heap E) db (StringBased destinationPort) of
              Inl err \<Rightarrow> (Inl err, n)
            | Inr (_, dst) \<Rightarrow>
                if dp_typeName src \<noteq> dp_typeName dst then (Inl Different_types, n)
                else (let len = (if minBufferSize = undefined_size then defaultMinBufferSize (dp_arithmetic src) else minBufferSize)
                      in connect_new_edge E src dst (new_edge sb (StringBased sourcePort) db (StringBased destinationPort)
                           (default_parameters\<lparr>ep_minBufferSize := len, ep_weight := weight, ep_name := edgeName\<rparr>)) n)))))"

text \<open>\<^verbatim>\<open>Graph::removeEdgeBySourcePort\<close>; an empty destination removes every edge of the port.\<close>

definition shares_port :: "block_heap \<Rightarrow> block_ptr \<Rightarrow> port_ref \<Rightarrow> edge \<Rightarrow> bool" where
  "shares_port H b r e \<longleftrightarrow> ed_source e = b \<and> (case dynamicOutputPort H b (ed_sourcePort e) of Inr (r', _) \<Rightarrow> r' = r | Inl _ \<Rightarrow> False)"

definition requested_edge :: "block_heap \<Rightarrow> block_ptr \<Rightarrow> port_ref \<Rightarrow> string \<Rightarrow> string \<Rightarrow> edge \<Rightarrow> bool" where
  "requested_edge H b r destinationBlock destinationPort e \<longleftrightarrow>
     (if \<not> shares_port H b r e then False
      else if destinationBlock = '''' \<or> bm_uniqueName (H (ed_destination e)) \<noteq> destinationBlock then destinationBlock = ''''
      else if destinationPort = '''' then True
      else (case (dynamicInputPort H (ed_destination e) (StringBased destinationPort), dynamicInputPort H (ed_destination e) (ed_destinationPort e)) of
              (Inr (q, _), Inr (q', _)) \<Rightarrow> q = q'
            | _ \<Rightarrow> False))"

definition edge_input :: "block_heap \<Rightarrow> edge \<Rightarrow> dynamic_port option" where
  "edge_input H e = (case dynamicInputPort H (ed_destination e) (ed_destinationPort e) of Inr (_, p) \<Rightarrow> Some p | Inl _ \<Rightarrow> None)"

definition input_reads :: "block_heap \<Rightarrow> ring_store \<Rightarrow> edge \<Rightarrow> bool" where
  "input_reads H s e = (case edge_input H e of Some p \<Rightarrow> input_connected s (dp_id p) | None \<Rightarrow> False)"

definition kept_reader :: "block_heap \<Rightarrow> ring_store \<Rightarrow> (edge \<Rightarrow> bool) \<Rightarrow> (edge \<Rightarrow> bool) \<Rightarrow> edge \<Rightarrow> bool" where
  "kept_reader H s shares requested e \<longleftrightarrow> shares e \<and> \<not> requested e \<and> ed_state e = Connected \<and>
     (case edge_input H e of Some p \<Rightarrow> dp_type p = STREAM | None \<Rightarrow> False) \<and> input_reads H s e"

definition reconnect_kept :: "flow_env \<Rightarrow> (edge \<Rightarrow> bool) \<Rightarrow> nat \<Rightarrow> net_state \<Rightarrow> net_state" where
  "reconnect_kept E reading i n = (if reading (fg_edges (fst n) ! i) then connect_edge E i n else n)"

definition removeEdgeBySourcePort :: "flow_env \<Rightarrow> string \<Rightarrow> string \<Rightarrow> string \<Rightarrow> string \<Rightarrow> net_state \<Rightarrow> (graph_error + nat) \<times> net_state" where
  "removeEdgeBySourcePort E sourceBlock sourcePort destinationBlock destinationPort = (\<lambda>(g, s).
     (let H = fe_heap E in
      case findBlock H g sourceBlock of
        Inl err \<Rightarrow> (Inl err, g, s)
      | Inr sb \<Rightarrow> (case dynamicOutputPort H sb (StringBased sourcePort) of
          Inl err \<Rightarrow> (Inl err, g, s)
        | Inr (r, src) \<Rightarrow>
            (let shares = shares_port H sb r; requested = requested_edge H sb r destinationBlock destinationPort;
                 kept = [e \<leftarrow> fg_edges g. \<not> requested e]; nRemoved = length [e \<leftarrow> fg_edges g. requested e];
                 holdsReader = (list_ex (\<lambda>e. requested e \<and> input_reads H s e) (fg_edges g) \<and>
                                length [e \<leftarrow> fg_edges g. kept_reader H s shares requested e] < nReaders s (dp_id src));
                 reading = (\<lambda>e. shares e \<and> (\<exists>k \<in> set kept. shares k \<and> input_reads H s k \<and> hasSameInput H k e ANY))
             in if nRemoved = 0 then (Inl Edge_not_found, g, s)
                else if holdsReader then
                  (case output_disconnect (dp_id src) s of
                     (Inl err, s1) \<Rightarrow> (Inl Connection_failed, g, s1)
                   | (Inr _, s1) \<Rightarrow>
                       (let (g2, s2) = fold (reconnect_kept E reading) [0..<length kept] (g\<lparr>fg_edges := kept\<rparr>, s1)
                        in (Inr nRemoved, g2, sizeUnconnectedOptionalOutputs E sb s2)))
                else (Inr nRemoved, g\<lparr>fg_edges := kept\<rparr>, s)))))"

section \<open>Connected edges and their rings\<close>

text \<open>An edge is wired when its input reads the ring its source writes.\<close>

definition wired :: "flow_env \<Rightarrow> ring_store \<Rightarrow> edge \<Rightarrow> bool" where
  "wired E s e \<longleftrightarrow> (\<exists>r src q dst ring. dynamicOutputPort (fe_heap E) (ed_source e) (ed_sourcePort e) = Inr (r, src) \<and>
     dynamicInputPort (fe_heap E) (ed_destination e) (ed_destinationPort e) = Inr (q, dst) \<and>
     map_of (rg_writers s) (dp_id src) = Some ring \<and> map_of (rg_readers s) (dp_id dst) = Some ring)"

text \<open>Two blocks have no port in common, and no port is declared with the type that is for queries only.\<close>

definition ports_apart :: "block_heap \<Rightarrow> bool" where
  "ports_apart H \<longleftrightarrow>
     (\<forall>b d r p b' d' r' p'. dynamicInputPort H b d = Inr (r, p) \<longrightarrow> dynamicInputPort H b' d' = Inr (r', p') \<longrightarrow> dp_id p = dp_id p' \<longrightarrow> b = b' \<and> r = r') \<and>
     (\<forall>b d r p b' d' r' p'. dynamicOutputPort H b d = Inr (r, p) \<longrightarrow> dynamicOutputPort H b' d' = Inr (r', p') \<longrightarrow> dp_id p = dp_id p' \<longrightarrow> b = b' \<and> r = r') \<and>
     (\<forall>b d r p. dynamicInputPort H b d = Inr (r, p) \<longrightarrow> dp_type p \<noteq> ANY)"

definition inputs_free :: "block_heap \<Rightarrow> edge list \<Rightarrow> bool" where
  "inputs_free H = sorted_wrt (\<lambda>e f. \<not> hasSameInput H e f ANY)"

definition net_ok :: "flow_env \<Rightarrow> net_state \<Rightarrow> bool" where
  "net_ok E n \<longleftrightarrow> inputs_free (fe_heap E) (fg_edges (fst n)) \<and> (\<forall>e \<in> set (fg_edges (fst n)). ed_state e = Connected \<longrightarrow> wired E (snd n) e)"

lemma same_input_sym: "hasSameInput H e f ANY \<longleftrightarrow> hasSameInput H f e ANY"
  by (auto simp: hasSameInput_def split: sum.splits prod.splits)

lemma same_input_id:
  assumes "ports_apart H" "dynamicInputPort H (ed_destination e) (ed_destinationPort e) = Inr (q, p)"
    "dynamicInputPort H (ed_destination f) (ed_destinationPort f) = Inr (q', p')" "dp_id p = dp_id p'"
  shows "hasSameInput H e f ANY"
proof -
  have "ed_destination e = ed_destination f" "q = q'" using assms unfolding ports_apart_def by blast+
  then show ?thesis using assms(2,3) by (simp add: hasSameInput_def)
qed

lemma inputs_free_nth:
  "inputs_free H es \<Longrightarrow> i < length es \<Longrightarrow> j < length es \<Longrightarrow> i \<noteq> j \<Longrightarrow> \<not> hasSameInput H (es ! i) (es ! j) ANY"
  unfolding inputs_free_def sorted_wrt_iff_nth_less using same_input_sym by (metis nat_neq_iff)

lemma inputs_free_filter: "inputs_free H es \<Longrightarrow> inputs_free H (filter P es)"
  by (simp add: inputs_free_def sorted_wrt_filter)

lemma inputs_free_append:
  "inputs_free H (es @ [e]) \<longleftrightarrow> inputs_free H es \<and> (\<forall>f \<in> set es. \<not> hasSameInput H f e ANY)"
  by (auto simp: inputs_free_def sorted_wrt_append)

lemma wired_cong: "edge_eq e f \<Longrightarrow> wired E s e = wired E s f"
  by (simp add: wired_def edge_eq_def)

lemma same_input_cong: "edge_eq e e' \<Longrightarrow> edge_eq f f' \<Longrightarrow> hasSameInput H e f t = hasSameInput H e' f' t"
  by (simp add: hasSameInput_def edge_eq_def)

lemma same_source_cong: "edge_eq e e' \<Longrightarrow> edge_eq f f' \<Longrightarrow> hasSameSourcePort H e f = hasSameSourcePort H e' f'"
  by (simp add: hasSameSourcePort_def edge_eq_def)

lemma inputs_free_cong:
  assumes "list_all2 edge_eq es fs"
  shows "inputs_free H es = inputs_free H fs"
proof -
  have len: "length es = length fs" using assms by (rule list_all2_lengthD)
  have "hasSameInput H (es ! i) (es ! j) ANY = hasSameInput H (fs ! i) (fs ! j) ANY" if "i < j" "j < length es" for i j
    using that by (intro same_input_cong list_all2_nthD [OF assms]) simp_all
  then show ?thesis by (simp add: inputs_free_def sorted_wrt_iff_nth_less len)
qed

lemma resolve_domain_ends [simp]:
  "ed_source (resolve_domain E e) = ed_source e" "ed_sourcePort (resolve_domain E e) = ed_sourcePort e"
  "ed_destination (resolve_domain E e) = ed_destination e" "ed_destinationPort (resolve_domain E e) = ed_destinationPort e"
  "ed_minBufferSize (resolve_domain E e) = ed_minBufferSize e" "ed_state (resolve_domain E e) = ed_state e"
  by (auto simp: resolve_domain_def Let_def split: option.splits)

lemma apply_ends: "edge_eq (fst (applyEdgeConnection E g e s)) e" "ed_minBufferSize (fst (applyEdgeConnection E g e s)) = ed_minBufferSize e"
  by (auto simp: applyEdgeConnection_def wire_ports_def edge_eq_def Let_def split: sum.splits prod.splits)

section \<open>What the port operations keep\<close>

lemma wired_reader: "wired E s e \<Longrightarrow> dynamicOutputPort (fe_heap E) (ed_source e) (ed_sourcePort e) = Inr (r, src) \<Longrightarrow> output_connected s (dp_id src)"
proof -
  assume "wired E s e" "dynamicOutputPort (fe_heap E) (ed_source e) (ed_sourcePort e) = Inr (r, src)"
  then obtain d ring where w: "map_of (rg_writers s) (dp_id src) = Some ring" "map_of (rg_readers s) d = Some ring"
    by (auto simp: wired_def)
  from w(2) have "(d, ring) \<in> set [x \<leftarrow> rg_readers s. snd x = ring]" by (auto dest: map_of_SomeD)
  then show "output_connected s (dp_id src)" using w(1) by (force simp: output_connected_def nReaders_def filter_empty_conv)
qed

text \<open>A resized output keeps every wired edge when nothing reads it.\<close>

lemma wired_set_writer:
  assumes "wired E s e" "\<not> output_connected s p"
  shows "wired E (set_writer p n s) e"
proof -
  obtain r src q dst ring where w: "dynamicOutputPort (fe_heap E) (ed_source e) (ed_sourcePort e) = Inr (r, src)"
      "dynamicInputPort (fe_heap E) (ed_destination e) (ed_destinationPort e) = Inr (q, dst)"
      "map_of (rg_writers s) (dp_id src) = Some ring" "map_of (rg_readers s) (dp_id dst) = Some ring"
    using assms(1) by (auto simp: wired_def)
  have "dp_id src \<noteq> p" using wired_reader [OF assms(1) w(1)] assms(2) by auto
  then show ?thesis using w by (auto simp: wired_def set_writer_def update_conv')
qed

lemma wired_resize: "wired E s e \<Longrightarrow> \<not> output_connected s p \<Longrightarrow> wired E (snd (port_resizeBuffer E n a b p s)) e"
  by (auto simp: port_resizeBuffer_def wired_set_writer split: option.split)

lemma not_connected_no_writer: "map_of (rg_writers s) p = None \<Longrightarrow> \<not> output_connected s p"
  by (simp add: output_connected_def nReaders_def)

lemma wired_writerHandler: "wired E s e \<Longrightarrow> wired E (writerHandlerInternal E p s) e"
  by (simp add: writerHandlerInternal_def wired_set_writer not_connected_no_writer)

lemma wired_update_reader:
  "wired E s e \<Longrightarrow> (\<And>q dst. dynamicInputPort (fe_heap E) (ed_destination e) (ed_destinationPort e) = Inr (q, dst) \<Longrightarrow> dp_id dst \<noteq> p) \<Longrightarrow>
    wired E (updateReaderInternal p ring s) e"
  by (fastforce simp: wired_def updateReaderInternal_def update_conv')

lemma writer_after_handler: "\<exists>ring. map_of (rg_writers (writerHandlerInternal E p s)) p = Some ring"
  by (cases "map_of (rg_writers s) p") (auto simp: writerHandlerInternal_def set_writer_def update_conv')

lemma dynamic_connect_Inl: "dynamic_connect E src dst s = (Inl err, s1) \<Longrightarrow> s1 = s"
  using writer_after_handler [of E "dp_id src" s]
  by (auto simp: dynamic_connect_def Let_def split: if_splits option.splits)

lemma dynamic_connect_Inr:
  assumes "dynamic_connect E src dst s = (Inr (), s1)"
  shows "\<exists>ring. map_of (rg_writers s1) (dp_id src) = Some ring \<and> map_of (rg_readers s1) (dp_id dst) = Some ring \<and>
    s1 = updateReaderInternal (dp_id dst) ring (writerHandlerInternal E (dp_id src) s)"
  using assms by (auto simp: dynamic_connect_def Let_def updateReaderInternal_def update_conv' split: if_splits option.splits)

lemma wired_dynamic_connect:
  assumes "wired E s e" "\<And>q d. dynamicInputPort (fe_heap E) (ed_destination e) (ed_destinationPort e) = Inr (q, d) \<Longrightarrow> dp_id d \<noteq> dp_id dst"
  shows "wired E (snd (dynamic_connect E src dst s)) e"
proof (cases "dynamic_connect E src dst s")
  case (Pair res s1)
  show ?thesis
  proof (cases res)
    case (Inl err)
    then show ?thesis using dynamic_connect_Inl Pair assms(1) by fastforce
  next
    case (Inr u)
    then show ?thesis using dynamic_connect_Inr [of E src dst s s1] Pair assms wired_update_reader [OF wired_writerHandler] by auto
  qed
qed

lemma wired_fold_resize:
  "wired E s e \<Longrightarrow> wired E (fold (\<lambda>p s. if \<not> output_connected s (dp_id p) \<and> dp_sync p \<and> dp_optional p \<and> output_bufferSize s (dp_id p) < n
      then snd (port_resizeBuffer E n None None (dp_id p) s) else s) ps s) e"
  by (induction ps arbitrary: s) (auto intro: wired_resize)

lemma wired_size_outputs: "wired E s e \<Longrightarrow> wired E (sizeUnconnectedOptionalOutputs E b s) e"
  unfolding sizeUnconnectedOptionalOutputs_def Let_def by (rule wired_fold_resize)

lemma wired_size_all: "wired E s e \<Longrightarrow> wired E (fold (\<lambda>b. sizeUnconnectedOptionalOutputs E (node_ptr b)) bs s) e"
  by (induction bs arbitrary: s) (auto intro: wired_size_outputs)

text \<open>Connecting one edge: the edge is wired if it is connected, and every wired edge with another input stays wired.\<close>

lemma apply_wired:
  assumes "applyEdgeConnection E g e s = (e', s')" "ed_state e' = Connected"
  shows "wired E s' e'"
proof -
  obtain r src q dst where p: "dynamicOutputPort (fe_heap E) (ed_source e) (ed_sourcePort e) = Inr (r, src)"
      "dynamicInputPort (fe_heap E) (ed_destination e) (ed_destinationPort e) = Inr (q, dst)" "dp_typeName src = dp_typeName dst"
    using assms by (auto simp: applyEdgeConnection_def Let_def split: sum.splits prod.splits if_splits)
  have w: "wire_ports E g src dst (resolve_domain E e) s = (e', s')"
    using assms(1) p by (simp add: applyEdgeConnection_def Let_def)
  obtain s1 where "dynamic_connect E src dst s1 = (Inr (), s')"
    using w assms(2) by (auto simp: wire_ports_def Let_def split: prod.splits if_splits)
  then obtain ring where "map_of (rg_writers s') (dp_id src) = Some ring" "map_of (rg_readers s') (dp_id dst) = Some ring"
    using dynamic_connect_Inr by blast
  moreover have "edge_eq e' e" using apply_ends(1) [of E g e s] assms(1) by simp
  ultimately show ?thesis using p by (auto simp: wired_def edge_eq_def)
qed

lemma apply_keeps_wired:
  assumes "applyEdgeConnection E g e s = (e', s')" "ports_apart (fe_heap E)" "wired E s f" "\<not> hasSameInput (fe_heap E) f e ANY"
  shows "wired E s' f"
proof (cases "s' = s")
  case False
  then obtain r src q dst where p: "dynamicOutputPort (fe_heap E) (ed_source e) (ed_sourcePort e) = Inr (r, src)"
      "dynamicInputPort (fe_heap E) (ed_destination e) (ed_destinationPort e) = Inr (q, dst)" "dp_typeName src = dp_typeName dst"
    using assms(1) by (auto simp: applyEdgeConnection_def Let_def split: sum.splits prod.splits if_splits)
  have w: "wire_ports E g src dst (resolve_domain E e) s = (e', s')"
    using assms(1) p by (simp add: applyEdgeConnection_def Let_def)
  have other: "dp_id d \<noteq> dp_id dst" if "dynamicInputPort (fe_heap E) (ed_destination f) (ed_destinationPort f) = Inr (i, d)" for i d
    using same_input_id [OF assms(2) that p(2)] assms(4) by blast
  let ?e = "resolve_domain E e"
  let ?s1 = "if output_connected s (dp_id src) then s
    else snd (port_resizeBuffer E (calculateStreamBufferSize (fe_heap E) g ?e) (ed_dataResource ?e) (ed_tagResource ?e) (dp_id src) s)"
  have "s' = snd (dynamic_connect E src dst ?s1)"
    using w by (auto simp: wire_ports_def Let_def split: prod.splits if_splits)
  moreover have "wired E ?s1 f" using assms(3) wired_resize by simp
  ultimately show ?thesis using wired_dynamic_connect other by blast
qed (use assms in simp)

section \<open>The invariant of a graph's edges\<close>

lemma net_okI: "inputs_free (fe_heap E) (fg_edges g) \<Longrightarrow> (\<And>e. e \<in> set (fg_edges g) \<Longrightarrow> ed_state e = Connected \<Longrightarrow> wired E s e) \<Longrightarrow> net_ok E (g, s)"
  by (simp add: net_ok_def)

lemma net_ok_wired: "net_ok E (g, s) \<Longrightarrow> e \<in> set (fg_edges g) \<Longrightarrow> ed_state e = Connected \<Longrightarrow> wired E s e"
  by (simp add: net_ok_def)

lemma net_ok_free: "net_ok E (g, s) \<Longrightarrow> inputs_free (fe_heap E) (fg_edges g)"
  by (simp add: net_ok_def)

lemma net_ok_filter: "net_ok E (g, s) \<Longrightarrow> net_ok E (g\<lparr>fg_edges := filter P (fg_edges g)\<rparr>, s)"
  by (auto simp: net_ok_def inputs_free_filter)

lemma list_all2_update: "i < length es \<Longrightarrow> edge_eq e (es ! i) \<Longrightarrow> list_all2 edge_eq (es[i := e]) es"
  by (simp add: list_all2_conv_all_nth nth_list_update)

text \<open>What one step of the loops does to the edge at its index and to the others.\<close>

lemma connect_edge_step:
  assumes "ports_apart (fe_heap E)" "inputs_free (fe_heap E) (fg_edges g)" "i < length (fg_edges g)" "connect_edge E i (g, s) = (g', s')"
  shows "inputs_free (fe_heap E) (fg_edges g')" "list_all2 edge_eq (fg_edges g') (fg_edges g)" "fg_blocks g' = fg_blocks g"
    "ed_state (fg_edges g' ! i) = Connected \<Longrightarrow> wired E s' (fg_edges g' ! i)"
    "j < length (fg_edges g) \<Longrightarrow> j \<noteq> i \<Longrightarrow> fg_edges g' ! j = fg_edges g ! j \<and> (wired E s (fg_edges g ! j) \<longrightarrow> wired E s' (fg_edges g ! j))"
proof -
  obtain e s1 where a: "applyEdgeConnection E g (fg_edges g ! i) s = (e, s1)" by (rule prod.exhaust)
  have g': "g' = g\<lparr>fg_edges := (fg_edges g)[i := e]\<rparr>" "s1 = s'" using assms(4) by (simp_all add: connect_edge_def a)
  have e: "edge_eq e (fg_edges g ! i)" using apply_ends(1) [of E g "fg_edges g ! i" s] a by simp
  show eqs: "list_all2 edge_eq (fg_edges g') (fg_edges g)" using list_all2_update [OF assms(3) e] g' by simp
  show "inputs_free (fe_heap E) (fg_edges g')" using inputs_free_cong [OF eqs] assms(2) by simp
  show "fg_blocks g' = fg_blocks g" using g' by simp
  show "ed_state (fg_edges g' ! i) = Connected \<Longrightarrow> wired E s' (fg_edges g' ! i)" using apply_wired [OF a] assms(3) g' by simp
  show "j < length (fg_edges g) \<Longrightarrow> j \<noteq> i \<Longrightarrow> fg_edges g' ! j = fg_edges g ! j \<and> (wired E s (fg_edges g ! j) \<longrightarrow> wired E s' (fg_edges g ! j))"
    using apply_keeps_wired [OF a assms(1)] inputs_free_nth [OF assms(2) _ assms(3)] g' by auto
qed

lemma connect_edge_ok:
  assumes "ports_apart (fe_heap E)" "net_ok E n" "i < length (fg_edges (fst n))"
  shows "net_ok E (connect_edge E i n)"
proof -
  obtain g s where n: "n = (g, s)" by (rule prod.exhaust)
  obtain g' s' where c: "connect_edge E i (g, s) = (g', s')" by (rule prod.exhaust)
  note step = connect_edge_step [OF assms(1) net_ok_free [OF assms(2) [unfolded n]] _ c]
  have i: "i < length (fg_edges g)" and len: "length (fg_edges g') = length (fg_edges g)" using assms(3) n list_all2_lengthD [OF step(2)] by auto
  have "net_ok E (g', s')"
  proof (rule net_okI)
    show "inputs_free (fe_heap E) (fg_edges g')" by (rule step(1) [OF i])
    fix f assume "f \<in> set (fg_edges g')" and f: "ed_state f = Connected"
    then obtain j where j: "j < length (fg_edges g)" "f = fg_edges g' ! j" using len by (auto simp: in_set_conv_nth)
    show "wired E s' f"
    proof (cases "j = i")
      case True
      then show ?thesis using step(4) [OF i] f j by simp
    next
      case False
      then have "fg_edges g' ! j = fg_edges g ! j" "wired E s (fg_edges g ! j) \<longrightarrow> wired E s' (fg_edges g ! j)" using step(5) [OF i j(1)] by simp_all
      then show ?thesis using net_ok_wired [of E g s] assms(2) n j f by simp
    qed
  qed
  then show ?thesis by (simp add: n c)
qed

lemma connect_edge_length [simp]: "length (fg_edges (fst (connect_edge E i n))) = length (fg_edges (fst n))"
  by (auto simp: connect_edge_def Let_def split: prod.splits)

lemma connect_pending_step:
  "snd (connect_pending E i (c, n)) = (if ed_state (fg_edges (fst n) ! i) = WaitingToBeConnected then connect_edge E i n else n)"
  by (cases n) (auto simp: connect_pending_def Let_def split: prod.splits)

lemma connect_pending_ok:
  assumes "ports_apart (fe_heap E)"
  shows "net_ok E n \<Longrightarrow> set is \<subseteq> {..<length (fg_edges (fst n))} \<Longrightarrow> net_ok E (snd (fold (connect_pending E) is (c, n)))"
proof (induction "is" arbitrary: c n)
  case (Cons i "is")
  obtain c' n' where s: "connect_pending E i (c, n) = (c', n')" by (rule prod.exhaust)
  then have n': "n' = (if ed_state (fg_edges (fst n) ! i) = WaitingToBeConnected then connect_edge E i n else n)"
    using connect_pending_step [of E i c n] by simp
  have "net_ok E n'" "length (fg_edges (fst n')) = length (fg_edges (fst n))"
    using Cons.prems connect_edge_ok [OF assms] by (simp_all add: n')
  then show ?case using Cons.IH [of n' c'] Cons.prems s by simp
qed simp

lemma size_outputs_ok: "net_ok E n \<Longrightarrow> net_ok E (size_outputs E n)"
  by (cases n) (auto simp: net_ok_def size_outputs_def intro: wired_size_all)

lemma connectPendingEdges_ok:
  assumes "ports_apart (fe_heap E)" "net_ok E n"
  shows "net_ok E (snd (connectPendingEdges E n))"
proof -
  obtain c n1 where f: "fold (connect_pending E) [0..<length (fg_edges (fst n))] (True, n) = (c, n1)" by (rule prod.exhaust)
  have "set [0..<length (fg_edges (fst n))] \<subseteq> {..<length (fg_edges (fst n))}" by auto
  from connect_pending_ok [OF assms this, of True] have "net_ok E n1" unfolding f by simp
  then show ?thesis by (simp add: connectPendingEdges_def f size_outputs_ok)
qed

lemma disconnectAllEdges_ok: "net_ok E n \<Longrightarrow> net_ok E (disconnectAllEdges E X n)"
proof -
  assume ok: "net_ok E n"
  obtain g s where n: "n = (g, s)" by fastforce
  have "list_all2 edge_eq (map (\<lambda>e. e\<lparr>ed_state := WaitingToBeConnected\<rparr>) (fg_edges g)) (fg_edges g)"
    by (simp add: list_all2_conv_all_nth edge_eq_def)
  then show ?thesis using ok n inputs_free_cong by (auto simp: net_ok_def disconnectAllEdges_def)
qed

lemma graph_connect_ok: "net_ok E (g, s) \<Longrightarrow> net_ok E (snd (graph_connect (fe_heap E) sb sp db dp P g), s)"
  by (auto simp: net_ok_def graph_connect_def checkInputFree_def Let_def inputs_free_append list_ex_iff new_edge_def split: sum.splits if_splits)

lemma removeBlock_ok: "net_ok E (g, s) \<Longrightarrow> net_ok E (snd (removeBlockByName (fe_heap E) name g), s)"
  by (auto simp: net_ok_def removeBlockByName_def Let_def inputs_free_filter split: option.splits)

lemma emplaceEdge_cases:
  "snd (emplaceEdge E sb sp db dp len w name n) = n \<or> (\<exists>r src q dst e.
    dynamicOutputPort (fe_heap E) (ed_source e) (ed_sourcePort e) = Inr (r, src) \<and>
    dynamicInputPort (fe_heap E) (ed_destination e) (ed_destinationPort e) = Inr (q, dst) \<and> ed_state e = WaitingToBeConnected \<and>
    emplaceEdge E sb sp db dp len w name n = connect_new_edge E src dst e n)"
proof -
  have ends: "ed_source (new_edge a b c d P) = a" "ed_sourcePort (new_edge a b c d P) = b" "ed_destination (new_edge a b c d P) = c"
    "ed_destinationPort (new_edge a b c d P) = d" "ed_state (new_edge a b c d P) = WaitingToBeConnected" for a b c d P by (simp_all add: new_edge_def)
  show ?thesis
  proof (cases "\<exists>b d r src q dst. findBlock (fe_heap E) (fst n) sb = Inr b \<and> findBlock (fe_heap E) (fst n) db = Inr d \<and>
      dynamicOutputPort (fe_heap E) b (StringBased sp) = Inr (r, src) \<and> dynamicInputPort (fe_heap E) d (StringBased dp) = Inr (q, dst) \<and> dp_typeName src = dp_typeName dst")
    case True
    then obtain b d r src q dst where found: "findBlock (fe_heap E) (fst n) sb = Inr b" "findBlock (fe_heap E) (fst n) db = Inr d"
      "dynamicOutputPort (fe_heap E) b (StringBased sp) = Inr (r, src)" "dynamicInputPort (fe_heap E) d (StringBased dp) = Inr (q, dst)" "dp_typeName src = dp_typeName dst"
      by blast
    have "emplaceEdge E sb sp db dp len w name n = connect_new_edge E src dst (new_edge b (StringBased sp) d (StringBased dp) (default_parameters\<lparr>ep_minBufferSize :=
        (if len = undefined_size then defaultMinBufferSize (dp_arithmetic src) else len), ep_weight := w, ep_name := name\<rparr>)) n"
      unfolding emplaceEdge_def found sum.case prod.case Let_def by simp
    moreover note found(3,4)
    ultimately show ?thesis by (metis ends)
  next
    case False
    have "snd (emplaceEdge E sb sp db dp len w name n) = n"
    proof (cases "findBlock (fe_heap E) (fst n) sb")
      case b: (Inr b)
      show ?thesis
      proof (cases "findBlock (fe_heap E) (fst n) db")
        case d: (Inr d)
        show ?thesis using False by (simp add: emplaceEdge_def b d split: sum.split prod.split)
      qed (simp add: emplaceEdge_def b)
    qed (simp add: emplaceEdge_def)
    then show ?thesis ..
  qed
qed

lemma same_input_resolved:
  assumes "hasSameInput H f e ANY" "dynamicInputPort H (ed_destination e) (ed_destinationPort e) = Inr (q, p)"
  shows "dynamicInputPort H (ed_destination f) (ed_destinationPort f) = Inr (q, p) \<and> ed_destination f = ed_destination e"
proof -
  have d: "ed_destination f = ed_destination e" using assms(1) by (auto simp: hasSameInput_def split: if_splits)
  then obtain p' where f: "dynamicInputPort H (ed_destination f) (ed_destinationPort f) = Inr (q, p')"
    using assms by (auto simp: hasSameInput_def split: sum.splits prod.splits)
  let ?w = "bm_inputs (H (ed_destination e))"
  have "resolve ?w (ed_destinationPort f) = Inr (q, p')" "resolve ?w (ed_destinationPort e) = Inr (q, p)"
    using f assms(2) d by (simp_all add: dynamicInputPort_def)
  then have "port_at ?w q = Some p'" "port_at ?w q = Some p" by (blast intro: resolve_valid)+
  then have "p' = p" by (metis option.inject)
  then show ?thesis using f d by simp
qed

lemma connect_new_edge_ok:
  assumes "ports_apart (fe_heap E)" "net_ok E (g, s)" "ed_state e = WaitingToBeConnected"
    and pe: "dynamicInputPort (fe_heap E) (ed_destination e) (ed_destinationPort e) = Inr (q, dst)"
  shows "net_ok E (snd (connect_new_edge E src dst e (g, s)))"
proof (cases "checkInputFree (fe_heap E) g e MESSAGE = Inr ()")
  case free: True
  obtain c s1 where c: "dynamic_connect E src dst s = (c, s1)" by (rule prod.exhaust)
  have "dp_type dst \<noteq> ANY" using assms(1) pe unfolding ports_apart_def by blast
  then have type: "dp_type dst = STREAM \<or> dp_type dst = MESSAGE" by (cases "dp_type dst") auto
  have apart: "\<not> hasSameInput (fe_heap E) f e ANY" if "f \<in> set (fg_edges g)" "\<not> hasSameInput (fe_heap E) f e STREAM" for f
  proof
    assume "hasSameInput (fe_heap E) f e ANY"
    note same = same_input_resolved [OF this pe]
    have "hasSameInput (fe_heap E) f e (dp_type dst)" using same pe by (auto simp: hasSameInput_def)
    then have "hasSameInput (fe_heap E) f e MESSAGE" using that(2) type by auto
    then show False using free that(1) by (auto simp: checkInputFree_def list_ex_iff split: if_splits)
  qed
  have wired: "wired E s1 f" if f: "f \<in> set (fg_edges g)" "\<not> hasSameInput (fe_heap E) f e STREAM" and "ed_state f = Connected" for f
  proof -
    have "dp_id d' \<noteq> dp_id dst" if "dynamicInputPort (fe_heap E) (ed_destination f) (ed_destinationPort f) = Inr (i, d')" for i d'
      using same_input_id [OF assms(1) that pe] apart [OF f] by blast
    then show ?thesis using wired_dynamic_connect [of E s f dst src] net_ok_wired [OF assms(2)] that c by simp
  qed
  show ?thesis
  proof (cases c)
    case (Inl err)
    then have "s1 = s" using dynamic_connect_Inl c by blast
    then show ?thesis using Inl c free assms(2) by (simp add: connect_new_edge_def)
  next
    case (Inr u)
    let ?g = "g\<lparr>fg_edges := [f \<leftarrow> fg_edges g. \<not> hasSameInput (fe_heap E) f e STREAM] @ [e]\<rparr>"
    let ?s = "sizeUnconnectedOptionalOutputs E (ed_destination e) (sizeUnconnectedOptionalOutputs E (ed_source e) s1)"
    have "net_ok E (?g, ?s)"
    proof (rule net_okI)
      show "inputs_free (fe_heap E) (fg_edges ?g)" using apart net_ok_free [OF assms(2)] by (auto simp: inputs_free_append inputs_free_filter)
      fix f assume "f \<in> set (fg_edges ?g)" "ed_state f = Connected"
      then show "wired E ?s f" using wired assms(3) by (auto intro!: wired_size_outputs)
    qed
    moreover have "connect_new_edge E src dst e (g, s) = (Inr [f \<leftarrow> fg_edges g. hasSameInput (fe_heap E) f e STREAM], ?g, ?s)"
      by (simp add: connect_new_edge_def c free Inr removeEdgesDisplacedBy_def)
    ultimately show ?thesis by simp
  qed
qed (use assms in \<open>simp add: connect_new_edge_def\<close>)

lemma emplaceEdge_ok:
  assumes "ports_apart (fe_heap E)" "net_ok E n"
  shows "net_ok E (snd (emplaceEdge E sb sp db dp len w name n))"
  using emplaceEdge_cases [of E sb sp db dp len w name n] connect_new_edge_ok [OF assms(1), of "fst n" "snd n"] assms(2) by (cases n) auto

text \<open>Removing the edges of a source port: the kept edges that read the port are connected again, one after the other.\<close>

definition owed :: "flow_env \<Rightarrow> (edge \<Rightarrow> bool) \<Rightarrow> nat \<Rightarrow> net_state \<Rightarrow> bool" where
  "owed E reading i n \<longleftrightarrow> inputs_free (fe_heap E) (fg_edges (fst n)) \<and>
     (\<forall>j < length (fg_edges (fst n)). ed_state (fg_edges (fst n) ! j) = Connected \<longrightarrow> wired E (snd n) (fg_edges (fst n) ! j) \<or> i \<le> j \<and> reading (fg_edges (fst n) ! j))"

lemma owed_step:
  assumes "ports_apart (fe_heap E)" "owed E reading i n" "i < length (fg_edges (fst n))"
    and "\<And>e f. edge_eq e f \<Longrightarrow> reading e = reading f"
  shows "owed E reading (Suc i) (reconnect_kept E reading i n) \<and> length (fg_edges (fst (reconnect_kept E reading i n))) = length (fg_edges (fst n))"
proof (cases "reading (fg_edges (fst n) ! i)")
  case True
  obtain g s where n: "n = (g, s)" by (rule prod.exhaust)
  obtain g' s' where c: "connect_edge E i (g, s) = (g', s')" by (rule prod.exhaust)
  have i: "i < length (fg_edges g)" and free: "inputs_free (fe_heap E) (fg_edges g)" using assms(2,3) n by (auto simp: owed_def)
  note step = connect_edge_step [OF assms(1) free i c]
  have len: "length (fg_edges g') = length (fg_edges g)" using list_all2_lengthD [OF step(2)] .
  have "wired E s' (fg_edges g' ! j) \<or> Suc i \<le> j \<and> reading (fg_edges g' ! j)"
    if j: "j < length (fg_edges g)" "ed_state (fg_edges g' ! j) = Connected" for j
  proof (cases "j = i")
    case True
    then show ?thesis using step(4) j by simp
  next
    case False
    then show ?thesis using step(5) [OF j(1) False] assms(2) n j by (auto simp: owed_def)
  qed
  then have "owed E reading (Suc i) (g', s')" using step(1) len by (simp add: owed_def)
  then show ?thesis using True n c len by (simp add: reconnect_kept_def)
next
  case False
  then show ?thesis using assms(2,3) by (auto simp: owed_def reconnect_kept_def le_Suc_eq Suc_le_eq intro: le_neq_implies_less)
qed

lemma owed_all:
  assumes "ports_apart (fe_heap E)" "\<And>e f. edge_eq e f \<Longrightarrow> reading e = reading f"
  shows "owed E reading i n \<Longrightarrow> i \<le> length (fg_edges (fst n)) \<Longrightarrow> net_ok E (fold (reconnect_kept E reading) [i..<length (fg_edges (fst n))] n)"
proof (induction "length (fg_edges (fst n)) - i" arbitrary: i n)
  case 0
  then show ?case by (auto simp: owed_def net_ok_def in_set_conv_nth)
next
  case (Suc k)
  then have i: "i < length (fg_edges (fst n))" by simp
  note st = owed_step [OF assms(1) Suc.prems(1) i assms(2)]
  have "net_ok E (fold (reconnect_kept E reading) [Suc i..<length (fg_edges (fst n))] (reconnect_kept E reading i n))"
    using Suc.hyps(1) [of "reconnect_kept E reading i n" "Suc i"] st Suc.hyps(2) i by simp
  then show ?case using i by (simp add: upt_conv_Cons)
qed

lemma wired_disconnect:
  assumes "wired E s e" "\<And>r p. dynamicOutputPort (fe_heap E) (ed_source e) (ed_sourcePort e) = Inr (r, p) \<Longrightarrow> dp_id p \<noteq> i"
  shows "wired E (snd (output_disconnect i s)) e"
  using assms by (fastforce simp: wired_def output_disconnect_def delete_conv')

lemma wired_input_reads: "wired E s e \<Longrightarrow> input_reads (fe_heap E) s e"
proof -
  assume "wired E s e"
  then obtain q dst p ring where w: "dynamicInputPort (fe_heap E) (ed_destination e) (ed_destinationPort e) = Inr (q, dst)"
      "map_of (rg_writers s) p = Some ring" "map_of (rg_readers s) (dp_id dst) = Some ring" by (auto simp: wired_def)
  from w(2) have "(p, ring) \<in> set (rg_writers s)" by (rule map_of_SomeD)
  then show ?thesis using w by (force simp: input_reads_def edge_input_def input_connected_def nWriters_def filter_empty_conv)
qed

lemma shares_cong: "edge_eq e f \<Longrightarrow> shares_port H b r e = shares_port H b r f"
  by (simp add: shares_port_def edge_eq_def)

lemma removeEdge_ok:
  assumes "ports_apart (fe_heap E)" "net_ok E (g, s)"
  shows "net_ok E (snd (removeEdgeBySourcePort E sb sp db dp (g, s)))"
proof (cases "findBlock (fe_heap E) g sb")
  case b: (Inr b)
  show ?thesis
  proof (cases "dynamicOutputPort (fe_heap E) b (StringBased sp)" rule: sum.exhaust)
    case (Inr rp)
    obtain r src where rp: "rp = (r, src)" by (rule prod.exhaust)
    let ?shares = "shares_port (fe_heap E) b r" and ?requested = "requested_edge (fe_heap E) b r db dp"
    let ?kept = "[e \<leftarrow> fg_edges g. \<not> ?requested e]"
    let ?reading = "\<lambda>e. ?shares e \<and> (\<exists>k \<in> set ?kept. ?shares k \<and> input_reads (fe_heap E) s k \<and> hasSameInput (fe_heap E) k e ANY)"
    let ?g = "g\<lparr>fg_edges := ?kept\<rparr>"
    have ge: "fg_edges ?g = ?kept" by simp
    have kept: "net_ok E (?g, s)" by (rule net_ok_filter [OF assms(2)])
    obtain c s1 where c: "output_disconnect (dp_id src) s = (c, s1)" by (rule prod.exhaust)
    have cong: "?reading e = ?reading f" if "edge_eq e f" for e f
      using that shares_cong [OF that, of "fe_heap E" b r] same_input_cong [OF edge_eq_refl that, of "fe_heap E" _ ANY] by simp
    have same: "hasSameInput (fe_heap E) e e ANY" if "wired E s e" for e using that by (auto simp: wired_def hasSameInput_def)
    have "owed E ?reading 0 (?g, s1)"
    proof -
      have "wired E s1 e \<or> ?reading e" if e: "e \<in> set ?kept" "ed_state e = Connected" for e
      proof (cases "?shares e")
        case True
        have "wired E s e" using net_ok_wired [OF kept] e by simp
        then show ?thesis using wired_input_reads same True e(1) by blast
      next
        case False
        have "dp_id p \<noteq> dp_id src" if "dynamicOutputPort (fe_heap E) (ed_source e) (ed_sourcePort e) = Inr (i, p)" for i p
        proof
          assume "dp_id p = dp_id src"
          then have "ed_source e = b \<and> i = r" using assms(1) that Inr rp unfolding ports_apart_def by blast
          then show False using False that by (simp add: shares_port_def)
        qed
        then show ?thesis using wired_disconnect [of E s e "dp_id src"] net_ok_wired [OF kept] e c by simp
      qed
      then have "\<forall>j < length ?kept. ed_state (?kept ! j) = Connected \<longrightarrow> wired E s1 (?kept ! j) \<or> 0 \<le> j \<and> ?reading (?kept ! j)"
        using nth_mem by blast
      then show ?thesis using net_ok_free [OF kept] unfolding owed_def fst_conv snd_conv ge by blast
    qed
    then have ok: "net_ok E (fold (reconnect_kept E ?reading) [0..<length ?kept] (?g, s1))"
      using owed_all [OF assms(1), of ?reading 0 "(?g, s1)"] cong unfolding fst_conv ge by blast
    obtain g2 s2 where f: "fold (reconnect_kept E ?reading) [0..<length ?kept] (?g, s1) = (g2, s2)" by (rule prod.exhaust)
    have sized: "net_ok E (g2, sizeUnconnectedOptionalOutputs E b s2)" using ok unfolding f by (auto simp: net_ok_def intro: wired_size_outputs)
    have disc: "net_ok E (g, s1)" if "c = Inl err" for err using that c assms(2) by (auto simp: output_disconnect_def split: if_splits)
    show ?thesis
      using b Inr rp kept sized disc assms(2)
      unfolding removeEdgeBySourcePort_def prod.case Let_def b sum.case Inr rp c f
      by (auto split: sum.splits)
  qed (use assms b in \<open>simp add: removeEdgeBySourcePort_def Let_def\<close>)
qed (use assms in \<open>simp add: removeEdgeBySourcePort_def Let_def\<close>)

text \<open>The edits of a graph and the connection of its edges, in any order. \<^verbatim>\<open>addEdge\<close> is not among them: it appends an edge without a check.\<close>

inductive net_step :: "flow_env \<Rightarrow> exported_ports \<Rightarrow> net_state \<Rightarrow> net_state \<Rightarrow> bool" for E X where
  add_block: "net_step E X (g, s) (addBlock b g, s)"
| connect: "net_step E X (g, s) (snd (graph_connect (fe_heap E) sb sp db dp P g), s)"
| emplace: "net_step E X n (snd (emplaceEdge E sb sps db dps len w name n))"
| remove_edge: "net_step E X (g, s) (snd (removeEdge e g), s)"
| remove_port_edges: "net_step E X n (snd (removeEdgeBySourcePort E sbs sps dbs dps n))"
| remove_block: "net_step E X (g, s) (snd (removeBlockByName (fe_heap E) name g), s)"
| connect_pending: "net_step E X n (snd (connectPendingEdges E n))"
| disconnect: "net_step E X n (disconnectAllEdges E X n)"
| reconnect: "net_step E X n (snd (reconnectAllEdges E X n))"

lemma net_step_ok:
  assumes "ports_apart (fe_heap E)" "net_step E X n n'" "net_ok E n"
  shows "net_ok E n'"
  using assms(2,3)
proof cases
  case (add_block g s b)
  then show ?thesis using assms(3) by (simp add: net_ok_def addBlock_def)
next
  case (connect g s sb sp db dp P)
  then show ?thesis using assms(3) graph_connect_ok by simp
next
  case (remove_edge g s e)
  then show ?thesis using assms(3) net_ok_filter by (simp add: removeEdge_def)
next
  case (remove_port_edges sbs sps dbs dps)
  then show ?thesis using removeEdge_ok [OF assms(1)] assms(3) by (cases n) simp
next
  case (remove_block g s name)
  then show ?thesis using assms(3) removeBlock_ok by simp
qed (use assms emplaceEdge_ok connectPendingEdges_ok disconnectAllEdges_ok in \<open>auto simp: reconnectAllEdges_def\<close>)

lemma net_steps_ok:
  assumes "ports_apart (fe_heap E)" "(net_step E X)\<^sup>*\<^sup>* n n'" "net_ok E n"
  shows "net_ok E n'"
  using assms(2,3) by (induction rule: rtranclp_induct) (auto intro: net_step_ok [OF assms(1)])


definition demo_block :: "nat \<Rightarrow> block_model" where
  "demo_block b = \<lparr>bm_uniqueName = ''b'', bm_name = ''b'', bm_category = NormalBlock, bm_inputs = [SinglePort (demo_port b ''in'')],
     bm_outputs = [SinglePort (demo_port b ''out'')], bm_ratio = (1, 1), bm_stride = 0, bm_minIn = [1], bm_stagedDomain = None, bm_activeDomain = None\<rparr>"

definition demo_env :: flow_env where
  "demo_env = \<lparr>fe_heap = demo_block, fe_alloc = (\<lambda>n a b. Some n), fe_registry = []\<rparr>"

lemma resolve_single: "resolve [SinglePort p] d = Inr (r, q) \<Longrightarrow> r = (0, None) \<and> q = p"
  by (cases d) (auto simp: dynamicPortByIndexImpl_def dynamicPortFromName_def Let_def Suc_le_eq split: if_splits option.splits)

lemma demo_apart: "ports_apart (fe_heap demo_env)"
  by (auto simp: ports_apart_def demo_env_def demo_block_def dynamicInputPort_def dynamicOutputPort_def demo_port_def dest!: resolve_single)

definition demo_graph :: flow_graph where
  "demo_graph = snd (graph_connect demo_block 0 (IndexBased 0 invalid_index) 1 (StringBased ''in'') default_parameters \<lparr>fg_blocks = [], fg_edges = []\<rparr>)"

definition demo_store :: ring_store where
  "demo_store = \<lparr>rg_next = 0, rg_sizes = [], rg_readers = [], rg_writers = []\<rparr>"

lemma demo_resolve:
  "dynamicOutputPort demo_block b (IndexBased 0 invalid_index) = Inr ((0, None), demo_port b ''out'')"
  "dynamicInputPort demo_block b (StringBased ''in'') = Inr ((0, None), demo_port b ''in'')"
  by (simp_all add: dynamicOutputPort_def dynamicInputPort_def demo_block_def dynamicPortByIndexImpl_def dynamicPortFromName_def demo_port_def)

lemma demo_connected:
  "\<exists>e s. connectPendingEdges demo_env (demo_graph, demo_store) = (True, \<lparr>fg_blocks = [], fg_edges = [e]\<rparr>, s) \<and> ed_state e = Connected \<and> ed_actualBufferSize e = 65536"
proof -
  have g: "demo_graph = \<lparr>fg_blocks = [], fg_edges = [new_edge 0 (IndexBased 0 invalid_index) 1 (StringBased ''in'') (default_parameters\<lparr>ep_minBufferSize := 65536\<rparr>)]\<rparr>"
    by (simp add: demo_graph_def graph_connect_def demo_resolve Let_def checkInputFree_def default_parameters_def defaultMinBufferSize_def demo_port_def)
  show ?thesis
    by (simp add: g connectPendingEdges_def connect_pending_def connect_edge_def applyEdgeConnection_def new_edge_def demo_env_def demo_resolve demo_store_def
        resolve_domain_def block_domain_def demo_block_def demo_port_def domain_host_def default_parameters_def Let_def wire_ports_def output_connected_def nReaders_def
        port_resizeBuffer_def calculateStreamBufferSize_def hasSameSourcePort_def set_writer_def dynamic_connect_def writerHandlerInternal_def updateReaderInternal_def
        output_bufferSize_def ring_size_def size_outputs_def forEachEdge_def traverseSubgraphs_def undefined_size_def size_max_def)
qed


section \<open>The sizes of the rings\<close>

text \<open>What the edges that share a source ask of its ring, nested graphs included.\<close>

definition asked_of :: "block_heap \<Rightarrow> flow_graph \<Rightarrow> edge \<Rightarrow> nat list" where
  "asked_of H g e = map ed_minBufferSize [f \<leftarrow> forEachEdge H AllBlocks UnknownState g. hasSameSourcePort H e f \<and> ed_minBufferSize f \<noteq> undefined_size]"

definition covered :: "flow_env \<Rightarrow> flow_graph \<Rightarrow> ring_store \<Rightarrow> edge \<Rightarrow> bool" where
  "covered E g s e \<longleftrightarrow> (\<forall>r src. dynamicOutputPort (fe_heap E) (ed_source e) (ed_sourcePort e) = Inr (r, src) \<longrightarrow> output_connected s (dp_id src) \<longrightarrow>
     (\<forall>n \<in> set (asked_of (fe_heap E) g e). n \<le> output_bufferSize s (dp_id src)))"

definition store_ok :: "ring_store \<Rightarrow> bool" where
  "store_ok s \<longleftrightarrow> (\<forall>x \<in> set (rg_readers s) \<union> set (rg_writers s). snd x < rg_next s) \<and>
     (\<forall>p p' r. map_of (rg_writers s) p = Some r \<longrightarrow> map_of (rg_writers s) p' = Some r \<longrightarrow> p = p')"

definition allocates :: "flow_env \<Rightarrow> bool" where
  "allocates E \<longleftrightarrow> (\<forall>n a b. \<exists>m. fe_alloc E n a b = Some m \<and> n \<le> m)"

lemma connected_iff: "output_connected s p \<longleftrightarrow> (\<exists>r. map_of (rg_writers s) p = Some r \<and> (\<exists>x \<in> set (rg_readers s). snd x = r))"
  by (auto simp: output_connected_def nReaders_def filter_empty_conv split: option.splits)

lemma set_update_subset: "set (AList.update k v al) \<subseteq> insert (k, v) (set al)"
  by (induction al) auto

lemma store_writer_ring: "store_ok s \<Longrightarrow> map_of (rg_writers s) p = Some r \<Longrightarrow> r < rg_next s"
  unfolding store_ok_def by (metis UnI2 map_of_SomeD snd_conv)

lemma store_ok_set_writer:
  assumes "store_ok s"
  shows "store_ok (set_writer p n s)"
proof -
  have old: "snd x < rg_next s" if "x \<in> set (rg_readers s) \<union> set (rg_writers s)" for x using assms that by (simp add: store_ok_def)
  have "snd x < Suc (rg_next s)" if "x \<in> set (rg_readers s) \<union> set (AList.update p (rg_next s) (rg_writers s))" for x
    using that set_update_subset [of p "rg_next s" "rg_writers s"] old [of x] by auto
  moreover have "q = q'" if "map_of (AList.update p (rg_next s) (rg_writers s)) q = Some r" "map_of (AList.update p (rg_next s) (rg_writers s)) q' = Some r" for q q' r
  proof -
    have look: "k = p \<and> r = rg_next s \<or> k \<noteq> p \<and> map_of (rg_writers s) k = Some r \<and> r \<noteq> rg_next s"
      if "map_of (AList.update p (rg_next s) (rg_writers s)) k = Some r" for k
      using that store_writer_ring [OF assms, of k r] by (cases "k = p") (simp_all add: update_conv')
    show ?thesis using look [OF that(1)] look [OF that(2)] assms unfolding store_ok_def by blast
  qed
  ultimately show ?thesis by (simp add: store_ok_def set_writer_def)
qed

lemma store_ok_update_reader:
  assumes "store_ok s" "map_of (rg_writers s) q = Some r"
  shows "store_ok (updateReaderInternal p r s)"
proof -
  have "snd x < rg_next s" if "x \<in> set (AList.update p r (rg_readers s)) \<union> set (rg_writers s)" for x
    using that set_update_subset [of p r "rg_readers s"] store_writer_ring [OF assms] assms(1) by (auto simp: store_ok_def)
  then show ?thesis using assms(1) by (simp add: store_ok_def updateReaderInternal_def)
qed

text \<open>A new ring of an output that nothing reads leaves the connected outputs and the sizes of their rings alone.\<close>

lemma set_writer_others:
  assumes "store_ok s" "\<not> output_connected s p" "output_connected (set_writer p n s) p'"
  shows "output_connected s p' \<and> output_bufferSize (set_writer p n s) p' = output_bufferSize s p'"
proof -
  obtain r x where r: "map_of (rg_writers (set_writer p n s)) p' = Some r" "x \<in> set (rg_readers s)" "snd x = r"
    using assms(3) by (auto simp: connected_iff set_writer_def)
  have less: "r < rg_next s" using assms(1) r by (auto simp: store_ok_def)
  then have w: "map_of (rg_writers s) p' = Some r" using r(1) by (auto simp: set_writer_def update_conv' split: if_splits)
  then have "output_connected s p'" using r by (auto simp: connected_iff)
  moreover have "output_bufferSize (set_writer p n s) p' = output_bufferSize s p'"
    using r(1) w less by (simp add: output_bufferSize_def ring_size_def set_writer_def)
  ultimately show ?thesis ..
qed

lemma set_writer_size: "output_bufferSize (set_writer p n s) p = n"
  by (simp add: output_bufferSize_def ring_size_def set_writer_def update_conv')

text \<open>A new reader of an output connects no other output and changes no size.\<close>

lemma update_reader_others:
  assumes "store_ok s" "map_of (rg_writers s) q = Some r"
  shows "output_bufferSize (updateReaderInternal d r s) p = output_bufferSize s p"
    "output_connected (updateReaderInternal d r s) p \<Longrightarrow> p = q \<or> output_connected s p"
proof -
  show "output_bufferSize (updateReaderInternal d r s) p = output_bufferSize s p"
    by (simp add: output_bufferSize_def ring_size_def updateReaderInternal_def split: option.split)
  assume "output_connected (updateReaderInternal d r s) p"
  then obtain r' x where r': "map_of (rg_writers s) p = Some r'" "x \<in> set (AList.update d r (rg_readers s))" "snd x = r'"
    by (auto simp: connected_iff updateReaderInternal_def)
  show "p = q \<or> output_connected s p"
  proof (cases "r' = r")
    case True
    then show ?thesis using assms r'(1) by (auto simp: store_ok_def)
  next
    case False
    then have "x \<in> set (rg_readers s)" using r' set_update_subset [of d r "rg_readers s"] by auto
    then show ?thesis using r' by (auto simp: connected_iff)
  qed
qed

lemma same_source_id:
  assumes "dynamicOutputPort H (ed_source e) (ed_sourcePort e) = Inr (r, p)"
  shows "hasSameSourcePort H e f \<longleftrightarrow> (\<exists>r' q. dynamicOutputPort H (ed_source f) (ed_sourcePort f) = Inr (r', q) \<and> dp_id q = dp_id p)"
  using assms by (auto simp: hasSameSourcePort_def split: sum.splits prod.splits)

lemma asked_same_id:
  assumes "dynamicOutputPort H (ed_source e) (ed_sourcePort e) = Inr (r, p)" "dynamicOutputPort H (ed_source f) (ed_sourcePort f) = Inr (r', q)" "dp_id p = dp_id q"
  shows "asked_of H g e = asked_of H g f"
  using same_source_id [OF assms(1)] same_source_id [OF assms(2)] assms(3) by (simp add: asked_of_def)

lemma fold_max_asked:
  "fold (\<lambda>e n. if P e \<and> m e \<noteq> undefined_size then max n (m e) else n) es k = fold max (map m [e \<leftarrow> es. P e \<and> m e \<noteq> undefined_size]) (k::nat)"
  by (induction es arbitrary: k) (auto simp: max.commute)

lemma fold_max_ge: "n \<in> set xs \<or> n = k \<Longrightarrow> n \<le> fold max xs (k::nat)"
  unfolding Max.set_eq_fold [symmetric] by (rule Max_ge) auto

text \<open>Edges that name the same ports and ask for the same sizes.\<close>

definition same_request :: "edge \<Rightarrow> edge \<Rightarrow> bool" where
  "same_request e f \<longleftrightarrow> edge_eq e f \<and> ed_minBufferSize e = ed_minBufferSize f"

lemma asked_cong:
  assumes "list_all2 same_request (fg_edges g) (fg_edges h)" "fg_blocks g = fg_blocks h" "edge_eq e f"
  shows "asked_of H g e = asked_of H h f"
proof -
  have one: "map ed_minBufferSize [k \<leftarrow> es. hasSameSourcePort H e k \<and> ed_minBufferSize k \<noteq> undefined_size] =
      map ed_minBufferSize [k \<leftarrow> fs. hasSameSourcePort H f k \<and> ed_minBufferSize k \<noteq> undefined_size]" if "list_all2 same_request es fs" for es fs
    using that
  proof (induction rule: list_all2_induct)
    case (Cons k ks l ls)
    then show ?case using same_source_cong [OF assms(3), of k l H] by (auto simp: same_request_def)
  qed simp
  have split: "forEachEdge H AllBlocks UnknownState k = fg_edges k @ concat (map fg_edges (concat (map (visit_node H AllBlocks) (fg_blocks k))))" for k
    by (simp add: forEachEdge_def traverseSubgraphs_def)
  have "list_all2 same_request (forEachEdge H AllBlocks UnknownState g) (forEachEdge H AllBlocks UnknownState h)"
    unfolding split assms(2) by (rule list_all2_appendI [OF assms(1)]) (simp add: list_all2_same same_request_def)
  then show ?thesis unfolding asked_of_def by (rule one)
qed

lemma stream_size_ge:
  assumes "\<And>f. f \<in> set (fg_edges g) \<Longrightarrow> hasSameSourcePort H e f \<Longrightarrow> ed_state f \<noteq> Connected"
  shows "\<forall>n \<in> set (asked_of H g e). n \<le> calculateStreamBufferSize H g e"
proof -
  have "find (\<lambda>f. hasSameSourcePort H e f \<and> ed_state f = Connected) (fg_edges g) = None" using assms by (auto simp: find_None_iff)
  then show ?thesis by (auto simp: calculateStreamBufferSize_def fold_max_asked asked_of_def [symmetric] intro: fold_max_ge)
qed

definition all_covered :: "flow_env \<Rightarrow> net_state \<Rightarrow> bool" where
  "all_covered E n \<longleftrightarrow> store_ok (snd n) \<and> (\<forall>e \<in> set (fg_edges (fst n)). covered E (fst n) (snd n) e)"

lemma covered_cong:
  "list_all2 same_request (fg_edges g) (fg_edges h) \<Longrightarrow> fg_blocks g = fg_blocks h \<Longrightarrow> edge_eq e f \<Longrightarrow> covered E g s e = covered E h s f"
  using asked_cong [of g h e f "fe_heap E"] by (auto simp: covered_def edge_eq_def)

lemma apply_store:
  assumes "allocates E" "store_ok s" "net_ok E (g, s)" "\<And>f. f \<in> set (fg_edges g) \<Longrightarrow> covered E g s f" "applyEdgeConnection E g e s = (e', s')" "f \<in> set (fg_edges g)"
  shows "store_ok s' \<and> covered E g s' f"
proof (cases "s' = s")
  case False
  let ?H = "fe_heap E" and ?e = "resolve_domain E e"
  obtain r src q dst where p: "dynamicOutputPort ?H (ed_source e) (ed_sourcePort e) = Inr (r, src)"
      "dynamicInputPort ?H (ed_destination e) (ed_destinationPort e) = Inr (q, dst)" "dp_typeName src = dp_typeName dst"
    using assms(5) False by (auto simp: applyEdgeConnection_def Let_def split: sum.splits prod.splits if_splits)
  have w: "wire_ports E g src dst ?e s = (e', s')" using assms(5) p by (simp add: applyEdgeConnection_def Let_def)
  have pe: "dynamicOutputPort ?H (ed_source ?e) (ed_sourcePort ?e) = Inr (r, src)" using p(1) by simp
  obtain m where m: "fe_alloc E (calculateStreamBufferSize ?H g ?e) (ed_dataResource ?e) (ed_tagResource ?e) = Some m" "calculateStreamBufferSize ?H g ?e \<le> m"
    using assms(1) unfolding allocates_def by blast
  define s1 where "s1 = (if output_connected s (dp_id src) then s else set_writer (dp_id src) m s)"
  have s': "s' = snd (dynamic_connect E src dst s1)"
    using w m(1) by (auto simp: s1_def wire_ports_def port_resizeBuffer_def Let_def split: prod.splits if_splits)
  have ok1: "store_ok s1" using assms(2) by (simp add: s1_def store_ok_set_writer)
  obtain ring where ring: "map_of (rg_writers s1) (dp_id src) = Some ring"
  proof (cases "output_connected s (dp_id src)")
    case True
    then show ?thesis using that by (auto simp: s1_def connected_iff)
  next
    case False
    then show ?thesis using that by (simp add: s1_def set_writer_def update_conv')
  qed
  have enough: "n \<le> output_bufferSize s1 (dp_id p)"
    if f: "dynamicOutputPort ?H (ed_source f) (ed_sourcePort f) = Inr (r', p)" "output_connected s1 (dp_id p) \<or> dp_id p = dp_id src" and n: "n \<in> set (asked_of ?H g f)" for r' p n
  proof (cases "output_connected s (dp_id src)")
    case True
    then show ?thesis using assms(4) [OF assms(6)] f n unfolding covered_def s1_def by auto
  next
    case idle: False
    show ?thesis
    proof (cases "dp_id p = dp_id src")
      case True
      have "ed_state k \<noteq> Connected" if "k \<in> set (fg_edges g)" "hasSameSourcePort ?H ?e k" for k
        using that same_source_id [OF pe] wired_reader net_ok_wired [OF assms(3)] idle by metis
      then have "\<forall>n \<in> set (asked_of ?H g ?e). n \<le> calculateStreamBufferSize ?H g ?e" by (rule stream_size_ge)
      moreover have "asked_of ?H g f = asked_of ?H g ?e" by (rule asked_same_id [OF f(1) pe True])
      ultimately have "n \<le> m" using n m(2) by fastforce
      then show ?thesis using idle True by (simp add: s1_def set_writer_size)
    next
      case False
      then have "output_connected (set_writer (dp_id src) m s) (dp_id p)" using f(2) idle by (simp add: s1_def)
      from set_writer_others [OF assms(2) idle this] show ?thesis
        using assms(4) [OF assms(6)] f(1) n idle unfolding covered_def s1_def by auto
    qed
  qed
  obtain c s2 where c: "dynamic_connect E src dst s1 = (c, s2)" by (rule prod.exhaust)
  show ?thesis
  proof (cases c)
    case (Inl err)
    then have "s' = s1" using dynamic_connect_Inl c s' by simp
    then show ?thesis using ok1 enough unfolding covered_def by blast
  next
    case (Inr u)
    have "writerHandlerInternal E (dp_id src) s1 = s1" by (simp add: writerHandlerInternal_def ring)
    then have s2: "s' = updateReaderInternal (dp_id dst) ring s1"
      using dynamic_connect_Inr [of E src dst s1 s2] c Inr s' ring by (auto simp: updateReaderInternal_def)
    show ?thesis
      using store_ok_update_reader [OF ok1 ring] update_reader_others [OF ok1 ring] enough unfolding covered_def s2 by metis
  qed
qed (use assms in simp)

lemma connect_edge_covered:
  assumes "allocates E" "net_ok E n" "all_covered E n" "i < length (fg_edges (fst n))"
  shows "all_covered E (connect_edge E i n)"
proof -
  obtain g s where n: "n = (g, s)" by (rule prod.exhaust)
  obtain e s' where a: "applyEdgeConnection E g (fg_edges g ! i) s = (e, s')" by (rule prod.exhaust)
  let ?g = "g\<lparr>fg_edges := (fg_edges g)[i := e]\<rparr>"
  have i: "i < length (fg_edges g)" using assms(4) n by simp
  have req: "same_request e (fg_edges g ! i)" using apply_ends [of E g "fg_edges g ! i" s] a by (simp add: same_request_def)
  then have all: "list_all2 same_request (fg_edges ?g) (fg_edges g)" using i by (simp add: list_all2_conv_all_nth nth_list_update same_request_def)
  have keep: "store_ok s' \<and> covered E g s' f" if "f \<in> set (fg_edges g)" for f
    using apply_store [OF assms(1) _ _ _ a that] assms(2,3) n by (simp add: all_covered_def)
  have "store_ok s'" using keep nth_mem [OF i] by blast
  moreover have "covered E ?g s' f" if mem: "f \<in> set (fg_edges ?g)" for f
  proof -
    obtain k where k: "k < length (fg_edges g)" "f = (fg_edges g)[i := e] ! k" using mem unfolding in_set_conv_nth by auto
    then have "edge_eq f (fg_edges g ! k)" using list_all2_nthD [OF all, of k] by (simp add: same_request_def)
    then have "covered E ?g s' f = covered E g s' (fg_edges g ! k)" by (intro covered_cong [OF all]) simp_all
    then show ?thesis using keep nth_mem [OF k(1)] by blast
  qed
  ultimately show ?thesis by (simp add: all_covered_def connect_edge_def n a)
qed

lemma connect_pending_covered:
  assumes "ports_apart (fe_heap E)" "allocates E"
  shows "net_ok E n \<Longrightarrow> all_covered E n \<Longrightarrow> set is \<subseteq> {..<length (fg_edges (fst n))} \<Longrightarrow>
    all_covered E (snd (fold (connect_pending E) is (c, n)))"
proof (induction "is" arbitrary: c n)
  case (Cons i "is")
  obtain c' n' where s: "connect_pending E i (c, n) = (c', n')" by (rule prod.exhaust)
  then have n': "n' = (if ed_state (fg_edges (fst n) ! i) = WaitingToBeConnected then connect_edge E i n else n)"
    using connect_pending_step [of E i c n] by simp
  have "net_ok E n'" "all_covered E n'" "length (fg_edges (fst n')) = length (fg_edges (fst n))"
    using Cons.prems connect_edge_ok [OF assms(1)] connect_edge_covered [OF assms(2)] by (simp_all add: n')
  then show ?case using Cons.IH [of n' c'] Cons.prems s by simp
qed simp

lemma resize_covered:
  assumes "allocates E" "store_ok s" "\<forall>e \<in> es. covered E g s e" "\<not> output_connected s p"
  shows "store_ok (snd (port_resizeBuffer E n a b p s)) \<and> (\<forall>e \<in> es. covered E g (snd (port_resizeBuffer E n a b p s)) e)"
proof -
  obtain m where m: "fe_alloc E n a b = Some m" using assms(1) unfolding allocates_def by blast
  have "covered E g (set_writer p m s) e" if "e \<in> es" for e
    using assms(3) that set_writer_others [OF assms(2,4), of m] unfolding covered_def by fastforce
  then show ?thesis using store_ok_set_writer [OF assms(2)] by (simp add: port_resizeBuffer_def m)
qed

lemma fold_resize_covered:
  "allocates E \<Longrightarrow> store_ok s \<Longrightarrow> \<forall>e \<in> es. covered E g s e \<Longrightarrow>
    store_ok (fold (\<lambda>p s. if \<not> output_connected s (dp_id p) \<and> dp_sync p \<and> dp_optional p \<and> output_bufferSize s (dp_id p) < n
      then snd (port_resizeBuffer E n None None (dp_id p) s) else s) ps s) \<and>
    (\<forall>e \<in> es. covered E g (fold (\<lambda>p s. if \<not> output_connected s (dp_id p) \<and> dp_sync p \<and> dp_optional p \<and> output_bufferSize s (dp_id p) < n
      then snd (port_resizeBuffer E n None None (dp_id p) s) else s) ps s) e)"
proof (induction ps arbitrary: s)
  case (Cons p ps)
  show ?case
    using Cons.IH [OF Cons.prems(1)] Cons.prems resize_covered [OF Cons.prems(1-3), of "dp_id p" n None None] by (simp only: fold_simps split: if_split) blast
qed simp

lemma size_covered:
  "allocates E \<Longrightarrow> store_ok s \<Longrightarrow> \<forall>e \<in> es. covered E g s e \<Longrightarrow>
    store_ok (fold (\<lambda>b. sizeUnconnectedOptionalOutputs E (node_ptr b)) bs s) \<and> (\<forall>e \<in> es. covered E g (fold (\<lambda>b. sizeUnconnectedOptionalOutputs E (node_ptr b)) bs s) e)"
proof (induction bs arbitrary: s)
  case (Cons b bs)
  have "store_ok (sizeUnconnectedOptionalOutputs E (node_ptr b) s) \<and> (\<forall>e \<in> es. covered E g (sizeUnconnectedOptionalOutputs E (node_ptr b) s) e)"
    unfolding sizeUnconnectedOptionalOutputs_def Let_def by (rule fold_resize_covered [OF Cons.prems])
  then show ?case using Cons.IH Cons.prems(1) by simp
qed simp



end
