(* ===== verification/ExecutionOrder.thy ===== *)
theory ExecutionOrder
  imports FlowGraph "HOL-Library.While_Combinator" "HOL-Library.List_Lexorder" "HOL-Library.Char_ord" "HOL-Library.Multiset"
begin

text \<open>
  The order in which a scheduler calls the blocks (\<^verbatim>\<open>core/include/gnuradio-4.0/Scheduler.hpp\<close>, \<^verbatim>\<open>Graph.hpp\<close>): the adjacency list of a graph, its
  sources, the three orders (simple, breadth first, depth first) over the flattened graph, and the job lists of the workers. The
  iteration order of the standard library's unordered maps is an argument \<open>it\<close>, a permutation of the entries. Numbers of blocks and job
  lists are natural numbers; a product of both stays below the range of a \<open>std::size_t\<close>.
\<close>

section \<open>Adjacency\<close>

text \<open>For each block with an outgoing edge the edges by resolved source port; a port that is not found is a null pointer.\<close>

type_synonym port_edges = "(port_ref option \<times> edge list) list"

type_synonym adjacency = "(block_ptr \<times> port_edges) list"

definition entry_of :: "('a \<times> 'b list) list \<Rightarrow> 'a \<Rightarrow> 'b list" where
  "entry_of m k = (case map_of m k of None \<Rightarrow> [] | Some xs \<Rightarrow> xs)"

definition source_key :: "block_heap \<Rightarrow> edge \<Rightarrow> port_ref option" where
  "source_key H e = (case dynamicOutputPort H (ed_source e) (ed_sourcePort e) of Inr (r, _) \<Rightarrow> Some r | Inl _ \<Rightarrow> None)"

definition adjacency_insert :: "block_heap \<Rightarrow> edge \<Rightarrow> adjacency \<Rightarrow> adjacency" where
  "adjacency_insert H e A =
     (let ports = entry_of A (ed_source e); edges = entry_of ports (source_key H e)
      in AList.update (ed_source e) (AList.update (source_key H e) (edges @ [e]) ports) A)"

definition computeAdjacencyList :: "block_heap \<Rightarrow> flow_graph \<Rightarrow> adjacency" where
  "computeAdjacencyList H g = fold (adjacency_insert H) (fg_edges g) []"

definition outgoingEdges :: "block_heap \<Rightarrow> adjacency \<Rightarrow> block_ptr \<Rightarrow> port_definition \<Rightarrow> edge list" where
  "outgoingEdges H A b d = entry_of (entry_of A b) (case dynamicOutputPort H b d of Inr (r, _) \<Rightarrow> Some r | Inl _ \<Rightarrow> None)"

text \<open>The edges of a block in the order in which the loops over its ports visit them.\<close>

type_synonym map_order = "port_edges \<Rightarrow> port_edges"

definition edges_from :: "map_order \<Rightarrow> adjacency \<Rightarrow> block_ptr \<Rightarrow> edge list" where
  "edges_from it A b = concat (map snd (it (entry_of A b)))"

definition findSourceBlocks :: "block_heap \<Rightarrow> (adjacency \<Rightarrow> adjacency) \<Rightarrow> adjacency \<Rightarrow> block_ptr list" where
  "findSourceBlocks H it A =
     (let sources = map fst (it A); destinations = concat (map (\<lambda>(b, ports). map ed_destination (concat (map snd ports))) (it A))
      in sort_key (\<lambda>b. bm_name (H b)) [b \<leftarrow> sources. b \<notin> set destinations])"

section \<open>The orders\<close>

type_synonym bfs_state = "block_ptr list \<times> block_ptr list \<times> block_ptr list"

text \<open>Queue, reached blocks and block list; a block is in the list once it has left the queue.\<close>

definition reach_block :: "block_ptr \<Rightarrow> block_ptr list \<times> block_ptr list \<Rightarrow> block_ptr list \<times> block_ptr list" where
  "reach_block b = (\<lambda>(queue, reached). if b \<in> set reached then (queue, reached) else (queue @ [b], reached @ [b]))"

definition bfs_body :: "map_order \<Rightarrow> adjacency \<Rightarrow> bfs_state \<Rightarrow> bfs_state" where
  "bfs_body it A = (\<lambda>(queue, reached, blockList).
     (let current = hd queue;
          blockList' = (if current \<in> set blockList then blockList else blockList @ [current]);
          (queue', reached') = fold (\<lambda>e. reach_block (ed_destination e)) (edges_from it A current) (tl queue, reached)
      in (queue', reached', blockList')))"

definition breadth_first :: "map_order \<Rightarrow> adjacency \<Rightarrow> block_ptr list \<Rightarrow> block_ptr list option" where
  "breadth_first it A sources =
     (let (queue, reached) = fold reach_block sources ([], [])
      in map_option (\<lambda>(_, _, blockList). blockList) (while_option (\<lambda>(queue, _, _). queue \<noteq> []) (bfs_body it A) (queue, reached, [])))"

text \<open>The recursive visit with a bound on its depth; the visited blocks are those of the list.\<close>

definition visit_all :: "('a \<Rightarrow> 's \<Rightarrow> 's option) \<Rightarrow> 'a list \<Rightarrow> 's \<Rightarrow> 's option" where
  "visit_all f xs s = fold (\<lambda>x r. Option.bind r (f x)) xs (Some s)"

primrec dfs_visit :: "nat \<Rightarrow> (block_ptr \<Rightarrow> edge list) \<Rightarrow> block_ptr \<Rightarrow> block_ptr list \<Rightarrow> block_ptr list option" where
  "dfs_visit 0 succ b blockList = None"
| "dfs_visit (Suc depth) succ b blockList =
     (if b \<in> set blockList then Some blockList
      else visit_all (\<lambda>e. dfs_visit depth succ (ed_destination e)) (succ b) (blockList @ [b]))"

definition depth_first :: "nat \<Rightarrow> map_order \<Rightarrow> adjacency \<Rightarrow> block_ptr list \<Rightarrow> block_ptr list option" where
  "depth_first depth it A sources = visit_all (dfs_visit depth (edges_from it A)) sources []"

definition append_unreached :: "flow_graph \<Rightarrow> block_ptr list \<Rightarrow> block_ptr list" where
  "append_unreached flat visited = visited @ [b \<leftarrow> map node_ptr (fg_blocks flat). b \<notin> set visited]"

section \<open>Job lists\<close>

definition worksOnItsOwn :: "block_heap \<Rightarrow> block_ptr \<Rightarrow> bool" where
  "worksOnItsOwn H b \<longleftrightarrow> bm_category (H b) = NormalBlock"

definition countWorkingBlocks :: "block_heap \<Rightarrow> block_ptr list \<Rightarrow> nat" where
  "countWorkingBlocks H bs = length [b \<leftarrow> bs. worksOnItsOwn H b]"

definition push_to :: "nat \<Rightarrow> 'a \<Rightarrow> 'a list list \<Rightarrow> 'a list list" where
  "push_to i x xss = xss[i := xss ! i @ [x]]"

definition batch_index :: "nat \<Rightarrow> nat \<Rightarrow> nat \<Rightarrow> nat" where
  "batch_index n nWorking nWorkingBefore = ((min nWorkingBefore (nWorking - 1) + 1) * n - 1) div nWorking"

definition batchBlocks :: "block_heap \<Rightarrow> block_ptr list \<Rightarrow> nat \<Rightarrow> block_ptr list list" where
  "batchBlocks H blocks n =
     (if n = 0 then []
      else (let nWorking = max (countWorkingBlocks H blocks) 1
            in fst (fold (\<lambda>b (result, nWorkingBefore).
                 (push_to (batch_index n nWorking nWorkingBefore) b result, if worksOnItsOwn H b then Suc nWorkingBefore else nWorkingBefore))
               blocks (replicate n [], 0))))"

text \<open>The thread pool as a scheduler sees it: its threads, its running and queued tasks, and whether the caller is one of them.\<close>

record pool_view =
  pv_maxThreads :: nat
  pv_running :: nat
  pv_queued :: nat
  pv_ownThread :: bool

definition nJobLists :: "pool_view \<Rightarrow> nat \<Rightarrow> nat" where
  "nJobLists P nBlocks =
     (let nOwn = (if pv_ownThread P then 1 else 0); nRunning = pv_running P + pv_queued P;
          nBusy = min (nRunning - min nRunning nOwn) (pv_maxThreads P)
      in min (max (pv_maxThreads P - nBusy) 1) (max nBlocks 1))"

datatype execution_policy = singleThreaded | multiThreaded | singleThreadedBlocking | multiThreadedBlocking

definition isMultiThreaded :: "execution_policy \<Rightarrow> bool" where
  "isMultiThreaded p \<longleftrightarrow> p = multiThreaded \<or> p = multiThreadedBlocking"

text \<open>What \<^verbatim>\<open>customInit\<close> leaves: the job lists, and an empty list of blocks to adopt for each.\<close>

record job_lists =
  jl_order :: "block_ptr list list"
  jl_adoption :: "block_ptr list list"

definition make_job_lists :: "block_heap \<Rightarrow> execution_policy \<Rightarrow> pool_view \<Rightarrow> block_ptr list \<Rightarrow> job_lists" where
  "make_job_lists H policy P blocks =
     (let n = (if isMultiThreaded policy then nJobLists P (countWorkingBlocks H blocks) else 1)
      in \<lparr>jl_order = batchBlocks H blocks n, jl_adoption = replicate n []\<rparr>)"

definition simple_init :: "block_heap \<Rightarrow> execution_policy \<Rightarrow> pool_view \<Rightarrow> flow_graph \<Rightarrow> job_lists" where
  "simple_init H policy P g = make_job_lists H policy P (map node_ptr (fg_blocks (flatten H TransparentBlockGroup g)))"

definition breadth_first_init :: "block_heap \<Rightarrow> map_order \<Rightarrow> (adjacency \<Rightarrow> adjacency) \<Rightarrow> execution_policy \<Rightarrow> pool_view \<Rightarrow> flow_graph \<Rightarrow> job_lists option" where
  "breadth_first_init H it itA policy P g =
     (let flat = flatten H TransparentBlockGroup g; A = computeAdjacencyList H flat
      in map_option (\<lambda>l. make_job_lists H policy P (append_unreached flat l)) (breadth_first it A (findSourceBlocks H itA A)))"

definition depth_first_init :: "nat \<Rightarrow> block_heap \<Rightarrow> map_order \<Rightarrow> (adjacency \<Rightarrow> adjacency) \<Rightarrow> execution_policy \<Rightarrow> pool_view \<Rightarrow> flow_graph \<Rightarrow> job_lists option" where
  "depth_first_init depth H it itA policy P g =
     (let flat = flatten H TransparentBlockGroup g; A = computeAdjacencyList H flat
      in map_option (\<lambda>l. make_job_lists H policy P (append_unreached flat l)) (depth_first depth it A (findSourceBlocks H itA A)))"

section \<open>Job lists hold consecutive blocks\<close>

text \<open>Elements distributed by a key that never falls come out in their order.\<close>

lemma sorted_key_split:
  "sorted (map key xs) \<Longrightarrow> [x \<leftarrow> xs. key x < n] @ [x \<leftarrow> xs. \<not> key x < n] = xs" for key :: "'a \<Rightarrow> nat"
proof (induction xs)
  case (Cons x xs)
  show ?case
  proof (cases "key x < n")
    case False
    then have "[y \<leftarrow> xs. key y < n] = []" using Cons.prems by (auto simp: filter_empty_conv)
    then show ?thesis using False Cons by simp
  qed (use Cons in auto)
qed simp

lemma concat_by_key:
  "sorted (map key xs) \<Longrightarrow> concat (map (\<lambda>j. [x \<leftarrow> xs. key x = j]) [0..<n]) = [x \<leftarrow> xs. key x < n]" for key :: "'a \<Rightarrow> nat"
proof (induction n)
  case (Suc n)
  have s: "sorted (map key [x \<leftarrow> xs. key x < Suc n])" using Suc.prems by (rule sorted_filter)
  have "[x \<leftarrow> [x \<leftarrow> xs. key x < Suc n]. key x < n] = [x \<leftarrow> xs. key x < n]"
    "[x \<leftarrow> [x \<leftarrow> xs. key x < Suc n]. \<not> key x < n] = [x \<leftarrow> xs. key x = n]" by (auto intro!: filter_cong)
  then show ?case using sorted_key_split [OF s, of n] Suc by simp
qed simp

lemma length_push_fold [simp]: "length (fold (\<lambda>(i, x). push_to i x) ps xss) = length xss"
  by (induction ps arbitrary: xss) (auto simp: push_to_def)

lemma push_fold_nth:
  "j < length xss \<Longrightarrow> fst ` set ps \<subseteq> {..<length xss} \<Longrightarrow>
    fold (\<lambda>(i, x). push_to i x) ps xss ! j = xss ! j @ map snd [p \<leftarrow> ps. fst p = j]"
proof (induction ps arbitrary: xss)
  case (Cons p ps)
  then show ?case by (cases p) (auto simp: push_to_def nth_list_update)
qed simp

lemma push_fold_concat:
  assumes "sorted (map fst ps)" "fst ` set ps \<subseteq> {..<n}"
  shows "concat (fold (\<lambda>(i, x). push_to i x) ps (replicate n [])) = map snd ps"
proof -
  let ?r = "fold (\<lambda>(i, x). push_to i x) ps (replicate n [])"
  have "?r = map (\<lambda>j. map snd [p \<leftarrow> ps. fst p = j]) [0..<n]"
    by (rule nth_equalityI) (use push_fold_nth [of _ "replicate n []" ps] assms(2) in auto)
  moreover have "concat (map (\<lambda>j. map snd [p \<leftarrow> ps. fst p = j]) [0..<n]) = map snd (concat (map (\<lambda>j. [p \<leftarrow> ps. fst p = j]) [0..<n]))"
    by (simp add: map_concat comp_def)
  moreover have "[p \<leftarrow> ps. fst p < n] = ps" using assms(2) by (auto simp: filter_id_conv)
  ultimately show ?thesis using concat_by_key [OF assms(1), of n] by simp
qed

text \<open>The job list of each block.\<close>

fun slots :: "block_heap \<Rightarrow> nat \<Rightarrow> nat \<Rightarrow> block_ptr list \<Rightarrow> nat \<Rightarrow> (nat \<times> block_ptr) list" where
  "slots H n nWorking [] k = []"
| "slots H n nWorking (b # bs) k = (batch_index n nWorking k, b) # slots H n nWorking bs (if worksOnItsOwn H b then Suc k else k)"

lemma slots_blocks [simp]: "map snd (slots H n w bs k) = bs"
  by (induction bs arbitrary: k) auto

lemma batch_index_mono: "j \<le> k \<Longrightarrow> batch_index n w j \<le> batch_index n w k"
  unfolding batch_index_def by (intro div_le_mono diff_le_mono mult_le_mono1) auto

lemma batch_index_less: "0 < n \<Longrightarrow> 0 < w \<Longrightarrow> batch_index n w k < n"
proof -
  assume n: "0 < n" "0 < w"
  have "min k (w - 1) + 1 \<le> w" using n by auto
  then have "(min k (w - 1) + 1) * n \<le> w * n" by (rule mult_le_mono1)
  then have "(min k (w - 1) + 1) * n - 1 < n * w" using n by (simp add: mult.commute)
  then show ?thesis unfolding batch_index_def using n by (simp add: less_mult_imp_div_less)
qed

lemma slots_from: "p \<in> set (slots H n w bs k) \<Longrightarrow> batch_index n w k \<le> fst p"
proof (induction bs arbitrary: k)
  case (Cons b bs)
  then show ?case using batch_index_mono [of k "Suc k" n w] by (fastforce split: if_splits)
qed simp

lemma slots_sorted: "sorted (map fst (slots H n w bs k))"
proof (induction bs arbitrary: k)
  case (Cons b bs)
  then show ?case using slots_from [of _ H n w bs] batch_index_mono [of k "Suc k" n w] by (fastforce split: if_splits)
qed simp

lemma slots_range: "0 < n \<Longrightarrow> 0 < w \<Longrightarrow> fst ` set (slots H n w bs k) \<subseteq> {..<n}"
  by (induction bs arbitrary: k) (auto simp: batch_index_less)

lemma batch_fold:
  "fst (fold (\<lambda>b (result, k). (push_to (batch_index n w k) b result, if worksOnItsOwn H b then Suc k else k)) bs (xss, k)) =
    fold (\<lambda>(i, x). push_to i x) (slots H n w bs k) xss"
  by (induction bs arbitrary: xss k) auto

lemma batchBlocks_slots:
  "0 < n \<Longrightarrow> batchBlocks H bs n = fold (\<lambda>(i, x). push_to i x) (slots H n (max (countWorkingBlocks H bs) 1) bs 0) (replicate n [])"
  by (simp add: batchBlocks_def batch_fold)

lemma batchBlocks_concat: "0 < n \<Longrightarrow> concat (batchBlocks H bs n) = bs"
  by (simp add: batchBlocks_slots push_fold_concat slots_sorted slots_range)

lemma batchBlocks_length [simp]: "length (batchBlocks H bs n) = n"
  by (cases "n = 0") (simp_all add: batchBlocks_slots, simp add: batchBlocks_def)

lemma slots_working:
  "countWorkingBlocks H (map snd [p \<leftarrow> slots H n w bs k. fst p = j]) =
    length [i \<leftarrow> [k..<k + countWorkingBlocks H bs]. batch_index n w i = j]"
proof (induction bs arbitrary: k)
  case (Cons b bs)
  have up: "[k..<Suc (k + m)] = k # [Suc k..<Suc (k + m)]" for m by (rule upt_conv_Cons) simp
  show ?case
    using Cons [of "Suc k"] Cons [of k] by (cases "worksOnItsOwn H b") (simp_all add: countWorkingBlocks_def up del: upt_Suc)
qed (simp add: countWorkingBlocks_def)

lemma div_between: "0 < w \<Longrightarrow> x div w = j \<longleftrightarrow> j * w \<le> x \<and> x < Suc j * w" for w :: nat
  by (metis div_less_iff_less_mult less_Suc_eq_le less_eq_div_iff_mult_less_eq order_antisym order_refl)

lemma batch_index_eq:
  assumes "0 < n" "i < w"
  shows "batch_index n w i = j \<longleftrightarrow> j * w div n \<le> i \<and> i < Suc j * w div n"
proof -
  have m: "min i (w - 1) = i" using assms by simp
  have "batch_index n w i = j \<longleftrightarrow> j * w \<le> (i + 1) * n - 1 \<and> (i + 1) * n - 1 < Suc j * w"
    unfolding batch_index_def m using assms div_between [of w] by simp
  also have "\<dots> \<longleftrightarrow> j * w < (i + 1) * n \<and> (i + 1) * n \<le> Suc j * w" using assms by (cases n) auto
  also have "j * w < (i + 1) * n \<longleftrightarrow> j * w div n \<le> i" using assms by (metis Suc_eq_plus1 div_less_iff_less_mult less_Suc_eq_le)
  also have "(i + 1) * n \<le> Suc j * w \<longleftrightarrow> i < Suc j * w div n" using assms by (metis Suc_eq_plus1 Suc_le_eq less_eq_div_iff_mult_less_eq)
  finally show ?thesis .
qed

lemma length_filter_interval: "b \<le> w \<Longrightarrow> length [i \<leftarrow> [0..<w]. a \<le> i \<and> i < b] = b - a" for a b w :: nat
proof -
  assume "b \<le> w"
  then have "{i. i < w \<and> a \<le> [0..<w] ! i \<and> [0..<w] ! i < b} = {a..<b}" by auto
  then show ?thesis by (simp add: length_filter_conv_card)
qed

lemma batch_working:
  assumes "j < n"
  shows "countWorkingBlocks H (batchBlocks H bs n ! j) = Suc j * countWorkingBlocks H bs div n - j * countWorkingBlocks H bs div n"
proof -
  let ?w = "countWorkingBlocks H bs"
  have n: "0 < n" using assms by simp
  have "countWorkingBlocks H (batchBlocks H bs n ! j) = length [i \<leftarrow> [0..<?w]. batch_index n (max ?w 1) i = j]"
    using push_fold_nth [of j "replicate n []" "slots H n (max ?w 1) bs 0"] slots_range [OF n, of "max ?w 1" H bs 0] assms slots_working [of H j n "max ?w 1" bs 0]
    by (simp add: batchBlocks_slots)
  also have "[i \<leftarrow> [0..<?w]. batch_index n (max ?w 1) i = j] = [i \<leftarrow> [0..<?w]. j * ?w div n \<le> i \<and> i < Suc j * ?w div n]"
  proof (rule filter_cong)
    fix i assume "i \<in> set [0..<?w]"
    moreover from this have "max ?w 1 = ?w" by simp
    ultimately show "batch_index n (max ?w 1) i = j \<longleftrightarrow> j * ?w div n \<le> i \<and> i < Suc j * ?w div n" using batch_index_eq [OF n] by simp
  qed simp
  also have "length \<dots> = Suc j * ?w div n - j * ?w div n"
    by (rule length_filter_interval) (metis Suc_leI assms div_le_mono mult_le_mono1 n nonzero_mult_div_cancel_left not_gr_zero)
  finally show ?thesis .
qed

lemma nJobLists_form: "\<exists>busy. nJobLists P w = min (max (pv_maxThreads P - busy) 1) (max w 1)"
  unfolding nJobLists_def Let_def by blast

lemma nJobLists_bounds: "1 \<le> nJobLists P w" "nJobLists P w \<le> max w 1" "nJobLists P w \<le> max (pv_maxThreads P) 1"
  using nJobLists_form [of P w] by auto

lemma batch_has_work:
  assumes "j < n" "n \<le> countWorkingBlocks H bs"
  shows "0 < countWorkingBlocks H (batchBlocks H bs n ! j)"
proof -
  let ?w = "countWorkingBlocks H bs"
  have "j * ?w div n + 1 = (j * ?w + n) div n" using assms(1) by (simp add: div_add_self2)
  also have "\<dots> \<le> Suc j * ?w div n" by (rule div_le_mono) (use assms in simp)
  finally show ?thesis by (simp add: batch_working [OF assms(1)])
qed

text \<open>
  C20. The division of the blocks among the workers. Whatever the thread pool reports, the job lists are the blocks in their order cut
  into consecutive pieces, one per worker; there is at least one, not more than the threads of the pool nor than the blocks that do work
  of their own; the working blocks are spread as evenly as \<open>\<lfloor>(j + 1) W / n\<rfloor> - \<lfloor>j W / n\<rfloor>\<close>, and no list is without such a block where the
  graph has one. Each list has its own, empty list of blocks to adopt.
\<close>
theorem job_lists_balanced:
  "let L = jl_order (make_job_lists H policy P bs); n = length L; W = countWorkingBlocks H bs
   in concat L = bs \<and> 1 \<le> n \<and> n \<le> max (pv_maxThreads P) 1 \<and> n \<le> max W 1 \<and> jl_adoption (make_job_lists H policy P bs) = replicate n [] \<and>
      map (countWorkingBlocks H) L = map (\<lambda>j. (j + 1) * W div n - j * W div n) [0..<n] \<and> (W = 0 \<or> list_all (\<lambda>b. 0 < countWorkingBlocks H b) L)"
proof -
  define n where "n = (if isMultiThreaded policy then nJobLists P (countWorkingBlocks H bs) else 1)"
  have n: "1 \<le> n" "n \<le> max (pv_maxThreads P) 1" "n \<le> max (countWorkingBlocks H bs) 1" using nJobLists_bounds by (simp_all add: n_def)
  have J: "make_job_lists H policy P bs = \<lparr>jl_order = batchBlocks H bs n, jl_adoption = replicate n []\<rparr>"
    by (simp add: make_job_lists_def n_def Let_def)
  have counts: "map (countWorkingBlocks H) (batchBlocks H bs n) = map (\<lambda>j. (j + 1) * countWorkingBlocks H bs div n - j * countWorkingBlocks H bs div n) [0..<n]"
    by (rule nth_equalityI) (simp_all add: batch_working)
  have work: "countWorkingBlocks H bs = 0 \<or> list_all (\<lambda>b. 0 < countWorkingBlocks H b) (batchBlocks H bs n)"
  proof (cases "countWorkingBlocks H bs = 0")
    case False
    then have "0 < countWorkingBlocks H (batchBlocks H bs n ! j)" if "j < n" for j using that n(3) batch_has_work by simp
    then show ?thesis by (simp add: list_all_length)
  qed simp
  show ?thesis unfolding Let_def J job_lists.simps batchBlocks_length using n counts work batchBlocks_concat [of n H bs] by simp
qed

section \<open>The adjacency list holds the edges of the graph\<close>

lemma update_entry_mset: "mset (concat (map snd (AList.update k (entry_of m k @ [e]) m))) = add_mset e (mset (concat (map snd m)))"
proof (induction m)
  case (Cons p m)
  then show ?case by (cases p) (auto simp: entry_of_def)
qed (simp add: entry_of_def)

lemma entry_of_update: "entry_of (AList.update a v m) b = (if b = a then v else entry_of m b)"
  by (simp add: entry_of_def update_conv')

lemma adjacency_insert_mset:
  "mset (concat (map snd (entry_of (adjacency_insert H e A) b))) =
    (if ed_source e = b then add_mset e (mset (concat (map snd (entry_of A b)))) else mset (concat (map snd (entry_of A b))))"
  by (simp add: adjacency_insert_def Let_def entry_of_update update_entry_mset)

lemma adjacency_fold_mset:
  "mset (concat (map snd (entry_of (fold (adjacency_insert H) es A) b))) =
    mset (concat (map snd (entry_of A b))) + mset [e \<leftarrow> es. ed_source e = b]"
  by (induction es arbitrary: A) (auto simp: adjacency_insert_mset)

lemma adjacency_mset: "mset (concat (map snd (entry_of (computeAdjacencyList H g) b))) = mset [e \<leftarrow> fg_edges g. ed_source e = b]"
  by (simp add: computeAdjacencyList_def adjacency_fold_mset) (simp add: entry_of_def)

lemma adjacency_fold_keys: "fst ` set (fold (adjacency_insert H) es A) = fst ` set A \<union> ed_source ` set es"
  by (induction es arbitrary: A) (auto simp: adjacency_insert_def Let_def dom_update)

lemma adjacency_keys: "fst ` set (computeAdjacencyList H g) = ed_source ` set (fg_edges g)"
  by (simp add: computeAdjacencyList_def adjacency_fold_keys)

lemma adjacency_distinct: "distinct (map fst (computeAdjacencyList H g))"
proof -
  have "distinct (map fst A) \<Longrightarrow> distinct (map fst (fold (adjacency_insert H) es A))" for es A
    by (induction es arbitrary: A) (simp_all add: adjacency_insert_def Let_def distinct_update)
  then show ?thesis by (simp add: computeAdjacencyList_def)
qed

text \<open>A map's iteration order is a permutation of its entries.\<close>

definition permutes_entries :: "('a list \<Rightarrow> 'a list) \<Rightarrow> bool" where
  "permutes_entries it \<longleftrightarrow> (\<forall>xs. mset (it xs) = mset xs)"

lemma permutes_set: "permutes_entries it \<Longrightarrow> set (it xs) = set xs"
  unfolding permutes_entries_def by (metis set_mset_mset)

lemma mset_concat_map: "mset xs = mset ys \<Longrightarrow> mset (concat (map f xs)) = mset (concat (map f ys))"
  by (simp add: mset_concat) (metis mset_map sum_mset_sum_list)

lemma edges_from_mset:
  assumes "permutes_entries it"
  shows "mset (edges_from it (computeAdjacencyList H g) b) = mset [e \<leftarrow> fg_edges g. ed_source e = b]"
proof -
  have "mset (edges_from it (computeAdjacencyList H g) b) = mset (concat (map snd (entry_of (computeAdjacencyList H g) b)))"
    unfolding edges_from_def by (rule mset_concat_map) (use assms in \<open>simp add: permutes_entries_def\<close>)
  then show ?thesis by (simp add: adjacency_mset)
qed

lemma edges_from_set: "permutes_entries it \<Longrightarrow> set (edges_from it (computeAdjacencyList H g) b) = {e \<in> set (fg_edges g). ed_source e = b}"
  by (metis edges_from_mset mset_eq_setD set_filter)

lemma entry_of_distinct: "distinct (map fst A) \<Longrightarrow> (b, ports) \<in> set A \<Longrightarrow> entry_of A b = ports"
  by (simp add: entry_of_def)

lemma findSourceBlocks_set:
  assumes "permutes_entries itA"
  shows "set (findSourceBlocks H itA (computeAdjacencyList H g)) = ed_source ` set (fg_edges g) - ed_destination ` set (fg_edges g)"
proof -
  let ?A = "computeAdjacencyList H g"
  have ports: "set (concat (map snd ports)) = {e \<in> set (fg_edges g). ed_source e = b}" if "(b, ports) \<in> set ?A" for b ports
    using adjacency_mset [of H g b] entry_of_distinct [OF adjacency_distinct that] by (metis mset_eq_setD set_filter)
  let ?F = "\<lambda>(b :: block_ptr, ports :: port_edges). map ed_destination (concat (map snd ports))"
  have F: "set (?F p) = ed_destination ` {e \<in> set (fg_edges g). ed_source e = fst p}" if "p \<in> set ?A" for p
    using ports [of "fst p" "snd p"] that by (simp only: prod.case_eq_if set_map prod.collapse)
  have "set (concat (map ?F (itA ?A))) = (\<Union>p \<in> set ?A. set (?F p))" by (simp add: permutes_set [OF assms])
  also have "\<dots> = (\<Union>p \<in> set ?A. ed_destination ` {e \<in> set (fg_edges g). ed_source e = fst p})" using F by (rule SUP_cong [OF refl])
  also have "\<dots> = (\<Union>b \<in> fst ` set ?A. ed_destination ` {e \<in> set (fg_edges g). ed_source e = b})" by simp
  also have "\<dots> = ed_destination ` set (fg_edges g)" unfolding adjacency_keys by blast
  finally have d: "set (concat (map ?F (itA ?A))) = ed_destination ` set (fg_edges g)" .
  have "set (map fst (itA ?A)) = ed_source ` set (fg_edges g)" using permutes_set [OF assms] adjacency_keys by (metis list.set_map)
  then show ?thesis unfolding findSourceBlocks_def Let_def set_sort set_filter d by blast
qed

section \<open>What a search of the graph finds\<close>

text \<open>A search that adds to the list: no block twice, the starts and the successors of every added block are in it, and an added block
  is a start or has a predecessor added before it.\<close>

definition search_result :: "(block_ptr \<Rightarrow> block_ptr list) \<Rightarrow> block_ptr list \<Rightarrow> block_ptr list \<Rightarrow> block_ptr list \<Rightarrow> bool" where
  "search_result nx starts l l' \<longleftrightarrow> (\<exists>new. l' = l @ new \<and> distinct l' \<and> set starts \<subseteq> set l' \<and> (\<forall>x \<in> set new. set (nx x) \<subseteq> set l') \<and>
     (\<forall>i < length new. new ! i \<in> set starts \<or> (\<exists>j < i. new ! i \<in> set (nx (new ! j)))))"

lemma search_nothing: "distinct l \<Longrightarrow> set starts \<subseteq> set l \<Longrightarrow> search_result nx starts l l"
  by (simp add: search_result_def)

lemma search_visit:
  assumes "search_result nx (nx b) (l @ [b]) l'"
  shows "search_result nx [b] l l'"
proof -
  obtain new where new: "l' = (l @ [b]) @ new" "distinct l'" "set (nx b) \<subseteq> set l'" "\<forall>x \<in> set new. set (nx x) \<subseteq> set l'"
      "\<forall>i < length new. new ! i \<in> set (nx b) \<or> (\<exists>j < i. new ! i \<in> set (nx (new ! j)))"
    using assms unfolding search_result_def by blast
  have "(b # new) ! i \<in> set [b] \<or> (\<exists>j < i. (b # new) ! i \<in> set (nx ((b # new) ! j)))" if "i < length (b # new)" for i
  proof (cases i)
    case (Suc k)
    then have "new ! k \<in> set (nx b) \<or> (\<exists>j < k. new ! k \<in> set (nx (new ! j)))" using new(5) that by simp
    then show ?thesis
    proof
      assume "new ! k \<in> set (nx b)"
      then show ?thesis using Suc by (intro disjI2 exI [of _ 0]) simp
    next
      assume "\<exists>j < k. new ! k \<in> set (nx (new ! j))"
      then obtain j where "j < k" "new ! k \<in> set (nx (new ! j))" by blast
      then show ?thesis using Suc by (intro disjI2 exI [of _ "Suc j"]) simp
    qed
  qed simp
  then show ?thesis unfolding search_result_def by (intro exI [of _ "b # new"]) (use new in auto)
qed

lemma search_seq:
  assumes "search_result nx starts l l1" "search_result nx starts' l1 l2"
  shows "search_result nx (starts @ starts') l l2"
proof -
  obtain new1 where n1: "l1 = l @ new1" "distinct l1" "set starts \<subseteq> set l1" "\<forall>x \<in> set new1. set (nx x) \<subseteq> set l1"
      "\<forall>i < length new1. new1 ! i \<in> set starts \<or> (\<exists>j < i. new1 ! i \<in> set (nx (new1 ! j)))"
    using assms(1) unfolding search_result_def by blast
  obtain new2 where n2: "l2 = l1 @ new2" "distinct l2" "set starts' \<subseteq> set l2" "\<forall>x \<in> set new2. set (nx x) \<subseteq> set l2"
      "\<forall>i < length new2. new2 ! i \<in> set starts' \<or> (\<exists>j < i. new2 ! i \<in> set (nx (new2 ! j)))"
    using assms(2) unfolding search_result_def by blast
  have "(new1 @ new2) ! i \<in> set (starts @ starts') \<or> (\<exists>j < i. (new1 @ new2) ! i \<in> set (nx ((new1 @ new2) ! j)))" if i: "i < length (new1 @ new2)" for i
  proof (cases "i < length new1")
    case True
    then show ?thesis using n1(5) by (auto simp: nth_append intro: less_trans)
  next
    case False
    define k where "k = i - length new1"
    have k: "k < length new2" "(new1 @ new2) ! i = new2 ! k" using False i by (simp_all add: k_def nth_append)
    from n2(5) k(1) have "new2 ! k \<in> set starts' \<or> (\<exists>j < k. new2 ! k \<in> set (nx (new2 ! j)))" by blast
    then show ?thesis
    proof
      assume "\<exists>j < k. new2 ! k \<in> set (nx (new2 ! j))"
      then obtain j where "j < k" "new2 ! k \<in> set (nx (new2 ! j))" by blast
      then show ?thesis using False k(2) by (intro disjI2 exI [of _ "length new1 + j"]) (simp add: k_def)
    qed (use k in simp)
  qed
  then show ?thesis unfolding search_result_def by (intro exI [of _ "new1 @ new2"]) (use n1 n2 in auto)
qed

lemma search_reaches:
  assumes "search_result nx starts [] l"
  shows "set l = {(a, b). b \<in> set (nx a)}\<^sup>* `` set starts"
proof
  have ord: "\<forall>i < length l. l ! i \<in> set starts \<or> (\<exists>j < i. l ! i \<in> set (nx (l ! j)))" and closed: "\<forall>x \<in> set l. set (nx x) \<subseteq> set l" "set starts \<subseteq> set l"
    using assms by (auto simp: search_result_def)
  have "l ! i \<in> {(a, b). b \<in> set (nx a)}\<^sup>* `` set starts" if "i < length l" for i
    using that
  proof (induction i rule: less_induct)
    case (less i)
    show ?case
    proof (cases "l ! i \<in> set starts")
      case False
      then obtain j where j: "j < i" "l ! i \<in> set (nx (l ! j))" using ord less.prems by blast
      then obtain s where s: "s \<in> set starts" "(s, l ! j) \<in> {(a, b). b \<in> set (nx a)}\<^sup>*" using less by fastforce
      then have "(s, l ! i) \<in> {(a, b). b \<in> set (nx a)}\<^sup>*" using j(2) by (intro rtrancl_into_rtrancl [OF s(2)]) simp
      then show ?thesis using s(1) by blast
    qed blast
  qed
  then show "set l \<subseteq> {(a, b). b \<in> set (nx a)}\<^sup>* `` set starts" by (metis in_set_conv_nth subsetI)
  show "{(a, b). b \<in> set (nx a)}\<^sup>* `` set starts \<subseteq> set l"
  proof
    fix y assume "y \<in> {(a, b). b \<in> set (nx a)}\<^sup>* `` set starts"
    then obtain s where s: "s \<in> set starts" "(s, y) \<in> {(a, b). b \<in> set (nx a)}\<^sup>*" by blast
    from s(2) show "y \<in> set l" by (induction rule: rtrancl_induct) (use s(1) closed in auto)
  qed
qed

section \<open>The depth-first visit\<close>

lemma visit_all_Nil [simp]: "visit_all f [] s = Some s"
  by (simp add: visit_all_def)

lemma fold_bind_None: "fold (\<lambda>x r. Option.bind r (f x)) xs None = None"
  by (induction xs) simp_all

lemma visit_all_Cons: "visit_all f (x # xs) s = Option.bind (f x s) (visit_all f xs)"
  by (cases "f x s") (simp_all add: visit_all_def fold_bind_None)

lemma visit_all_search:
  assumes "\<And>x l. x \<in> set xs \<Longrightarrow> P l \<Longrightarrow> \<exists>l'. f x l = Some l' \<and> search_result nx [key x] l l' \<and> P l'" "\<And>l. P l \<Longrightarrow> distinct l"
  shows "P l \<Longrightarrow> \<exists>l'. visit_all f xs l = Some l' \<and> search_result nx (map key xs) l l' \<and> P l'"
  using assms(1)
proof (induction xs arbitrary: l)
  case Nil
  then show ?case using assms(2) by (simp add: search_nothing)
next
  case (Cons x xs)
  obtain l1 where l1: "f x l = Some l1" "search_result nx [key x] l l1" "P l1" using Cons.prems by (meson list.set_intros(1))
  obtain l2 where "visit_all f xs l1 = Some l2" "search_result nx (map key xs) l1 l2" "P l2"
    using Cons.IH [OF l1(3)] Cons.prems(2) by (meson list.set_intros(2))
  then show ?case using search_seq [OF l1(2)] l1(1) by (auto simp: visit_all_Cons)
qed

definition unexplored :: "block_ptr set \<Rightarrow> nat \<Rightarrow> block_ptr list \<Rightarrow> bool" where
  "unexplored U depth l \<longleftrightarrow> distinct l \<and> set l \<subseteq> U \<and> card (U - set l) < depth"

lemma unexplored_more:
  "finite U \<Longrightarrow> unexplored U depth l \<Longrightarrow> search_result nx starts l l' \<Longrightarrow> set l' \<subseteq> U \<Longrightarrow> unexplored U depth l'"
  by (auto simp: unexplored_def search_result_def intro: le_less_trans [OF card_mono])

lemma dfs_visit_search:
  assumes "finite U" "\<And>b. b \<in> U \<Longrightarrow> ed_destination ` set (succ b) \<subseteq> U"
  shows "b \<in> U \<Longrightarrow> unexplored U depth l \<Longrightarrow>
    \<exists>l'. dfs_visit depth succ b l = Some l' \<and> search_result (\<lambda>b. map ed_destination (succ b)) [b] l l' \<and> set l' \<subseteq> U"
proof (induction depth arbitrary: b l)
  case 0
  then show ?case by (simp add: unexplored_def)
next
  case (Suc depth)
  let ?nx = "\<lambda>b. map ed_destination (succ b)"
  show ?case
  proof (cases "b \<in> set l")
    case True
    then show ?thesis using Suc.prems by (auto simp: unexplored_def intro: search_nothing)
  next
    case False
    have u: "unexplored U depth (l @ [b])"
    proof -
      have "U - set (l @ [b]) = (U - set l) - {b}" by auto
      then have "card (U - set (l @ [b])) < card (U - set l)" using False Suc.prems(1) assms(1) by (simp add: card_Diff1_less del: card_Diff_insert)
      then show ?thesis using Suc.prems False by (auto simp: unexplored_def)
    qed
    have step: "\<exists>l'. dfs_visit depth succ (ed_destination e) l = Some l' \<and> search_result ?nx [ed_destination e] l l' \<and> unexplored U depth l'"
      if e: "e \<in> set (succ b)" and l: "unexplored U depth l" for e l
    proof -
      have "ed_destination e \<in> U" using assms(2) [OF Suc.prems(1)] e by blast
      from Suc.IH [OF this l] show ?thesis using unexplored_more [OF assms(1) l] by blast
    qed
    have "\<exists>l'. visit_all (\<lambda>e. dfs_visit depth succ (ed_destination e)) (succ b) (l @ [b]) = Some l' \<and>
        search_result ?nx (?nx b) (l @ [b]) l' \<and> unexplored U depth l'"
      by (rule visit_all_search [OF step _ u]) (simp_all add: unexplored_def)
    then show ?thesis using False search_visit [of ?nx b l] by (auto simp: unexplored_def)
  qed
qed

lemma depth_first_search:
  assumes "finite U" "\<And>b. b \<in> U \<Longrightarrow> ed_destination ` set (edges_from it A b) \<subseteq> U" "set starts \<subseteq> U" "card U < depth"
  shows "\<exists>l. depth_first depth it A starts = Some l \<and> search_result (\<lambda>b. map ed_destination (edges_from it A b)) starts [] l"
proof -
  let ?nx = "\<lambda>b. map ed_destination (edges_from it A b)"
  have step: "\<exists>l'. dfs_visit depth (edges_from it A) b l = Some l' \<and> search_result ?nx [id b] l l' \<and> unexplored U depth l'"
    if "b \<in> set starts" "unexplored U depth l" for b l
    using dfs_visit_search [OF assms(1,2) _ that(2)] unexplored_more [OF assms(1) that(2)] that(1) assms(3) by fastforce
  have "unexplored U depth []" using assms(4) by (simp add: unexplored_def)
  moreover have "unexplored U depth l \<Longrightarrow> distinct l" for l by (simp add: unexplored_def)
  ultimately show ?thesis
    using visit_all_search [where f = "dfs_visit depth (edges_from it A)" and key = id and P = "unexplored U depth", OF step] by (simp add: depth_first_def) blast
qed

section \<open>The breadth-first loop\<close>

lemma reach_fold:
  assumes "fold (\<lambda>e. reach_block (ed_destination e)) es (q, r) = (q', r')" "distinct r"
  shows "\<exists>new. q' = q @ new \<and> r' = r @ new \<and> distinct r' \<and> set new = ed_destination ` set es - set r"
  using assms
proof (induction es arbitrary: q r)
  case (Cons e es)
  show ?case
  proof (cases "ed_destination e \<in> set r")
    case True
    then show ?thesis using Cons.IH [of q r] Cons.prems by (auto simp: reach_block_def)
  next
    case False
    obtain new where "q' = (q @ [ed_destination e]) @ new" "r' = (r @ [ed_destination e]) @ new" "distinct r'"
        "set new = ed_destination ` set es - set (r @ [ed_destination e])"
      using Cons.IH [of "q @ [ed_destination e]" "r @ [ed_destination e]"] Cons.prems False by (auto simp: reach_block_def)
    then show ?thesis using False by (intro exI [of _ "ed_destination e # new"]) auto
  qed
qed simp

lemma reach_step: "b \<notin> set r \<Longrightarrow> reach_block b (q, r) = (q @ [b], r @ [b])" "b \<in> set r \<Longrightarrow> reach_block b (q, r) = (q, r)"
  by (simp_all add: reach_block_def)

lemma reach_fold_blocks:
  "distinct r \<Longrightarrow> \<exists>new. fold reach_block bs (q, r) = (q @ new, r @ new) \<and> distinct (r @ new) \<and> set new = set bs - set r"
proof (induction bs arbitrary: q r)
  case (Cons b bs)
  show ?case
  proof (cases "b \<in> set r")
    case True
    then show ?thesis using Cons.IH [of r q] Cons.prems by (auto simp: reach_step)
  next
    case False
    obtain new where "fold reach_block bs (q @ [b], r @ [b]) = ((q @ [b]) @ new, (r @ [b]) @ new)" "distinct ((r @ [b]) @ new)"
        "set new = set bs - set (r @ [b])"
      using Cons.IH [of "r @ [b]" "q @ [b]"] Cons.prems False by auto
    then show ?thesis using False by (intro exI [of _ "b # new"]) (auto simp: reach_step)
  qed
qed simp

definition bfs_inv :: "(block_ptr \<Rightarrow> block_ptr list) \<Rightarrow> block_ptr set \<Rightarrow> block_ptr list \<Rightarrow> bfs_state \<Rightarrow> bool" where
  "bfs_inv nx U starts = (\<lambda>(q, r, l). r = l @ q \<and> distinct r \<and> set r \<subseteq> U \<and> set starts \<subseteq> set r \<and> (\<forall>x \<in> set l. set (nx x) \<subseteq> set r) \<and>
     (\<forall>i < length r. r ! i \<in> set starts \<or> (\<exists>j < i. r ! i \<in> set (nx (r ! j)))))"

lemma bfs_body_inv:
  assumes U: "\<And>b. b \<in> U \<Longrightarrow> ed_destination ` set (edges_from it A b) \<subseteq> U"
    and inv: "bfs_inv (\<lambda>b. map ed_destination (edges_from it A b)) U starts (c # q, r, l)"
  shows "\<exists>new. bfs_body it A (c # q, r, l) = (q @ new, r @ new, l @ [c]) \<and>
    bfs_inv (\<lambda>b. map ed_destination (edges_from it A b)) U starts (q @ new, r @ new, l @ [c])"
proof -
  let ?nx = "\<lambda>b. map ed_destination (edges_from it A b)"
  have I: "r = l @ c # q" "distinct r" "set r \<subseteq> U" "set starts \<subseteq> set r" "\<forall>x \<in> set l. set (?nx x) \<subseteq> set r"
      "\<forall>i < length r. r ! i \<in> set starts \<or> (\<exists>j < i. r ! i \<in> set (?nx (r ! j)))"
    using inv unfolding bfs_inv_def prod.case by blast+
  obtain new where new: "fold (\<lambda>e. reach_block (ed_destination e)) (edges_from it A c) (q, r) = (q @ new, r @ new)" "distinct (r @ new)"
      "set new = ed_destination ` set (edges_from it A c) - set r"
    using reach_fold [OF _ I(2)] by (metis prod.exhaust)
  have c: "c \<in> U" "c \<notin> set l" "(r @ new) ! length l = c" using I(1-3) by (auto simp: nth_append)
  have "bfs_body it A (c # q, r, l) = (q @ new, r @ new, l @ [c])" using new(1) c(2) by (simp add: bfs_body_def)
  moreover have "(r @ new) ! i \<in> set starts \<or> (\<exists>j < i. (r @ new) ! i \<in> set (?nx ((r @ new) ! j)))" if i: "i < length (r @ new)" for i
  proof (cases "i < length r")
    case True
    then show ?thesis using I(6) by (auto simp: nth_append intro: less_trans)
  next
    case False
    then have "(r @ new) ! i \<in> set new" using i by (simp add: nth_append)
    then have "(r @ new) ! i \<in> set (?nx ((r @ new) ! length l))" using new(3) c(3) by simp
    moreover have "length l < i" using False I(1) by simp
    ultimately show ?thesis by blast
  qed
  moreover have "\<forall>x \<in> set (l @ [c]). set (?nx x) \<subseteq> set (r @ new)" using I(5) new(3) by auto
  moreover have "set (r @ new) \<subseteq> U" using I(3) new(3) U [OF c(1)] by auto
  moreover have "set starts \<subseteq> set (r @ new)" using I(4) by auto
  ultimately show ?thesis using I(1) new(2) unfolding bfs_inv_def by auto
qed

lemma breadth_first_search:
  assumes "finite U" "\<And>b. b \<in> U \<Longrightarrow> ed_destination ` set (edges_from it A b) \<subseteq> U" "set starts \<subseteq> U"
  shows "\<exists>l. breadth_first it A starts = Some l \<and> search_result (\<lambda>b. map ed_destination (edges_from it A b)) starts [] l"
proof -
  let ?nx = "\<lambda>b. map ed_destination (edges_from it A b)" and ?b = "\<lambda>(q :: block_ptr list, _ :: block_ptr list, _ :: block_ptr list). q \<noteq> []"
  let ?I = "bfs_inv ?nx U starts" and ?m = "\<lambda>(_ :: block_ptr list, _ :: block_ptr list, l :: block_ptr list). card U - length l"
  obtain new where new: "fold reach_block starts ([], []) = (new, new)" "distinct new" "set new = set starts"
    using reach_fold_blocks [of "[]" starts "[]"] by auto
  have I0: "?I (new, new, [])" using new assms(3) nth_mem [of _ new] by (auto simp: bfs_inv_def)
  have step: "?I (bfs_body it A s) \<and> ?m (bfs_body it A s) < ?m s" if s: "?I s" "?b s" for s
  proof -
    obtain c q r l where e: "s = (c # q, r, l)" using s(2) by (cases s) (auto simp: neq_Nil_conv)
    obtain new where n: "bfs_body it A s = (q @ new, r @ new, l @ [c])" "?I (q @ new, r @ new, l @ [c])"
      using bfs_body_inv [OF assms(2), of starts c q r l] s(1) e by blast
    have "distinct (l @ [c])" "set (l @ [c]) \<subseteq> U" using s(1) unfolding e bfs_inv_def by auto
    then have "Suc (length l) \<le> card U" using card_mono [OF assms(1), of "set (l @ [c])"] distinct_card [of "l @ [c]"] by simp
    then show ?thesis using n by (simp add: e)
  qed
  obtain t where t: "while_option ?b (bfs_body it A) (new, new, []) = Some t"
    using measure_while_option_Some [of ?I ?b "bfs_body it A" ?m, OF step I0] by blast
  obtain q r l where tt: "t = (q, r, l)" by (rule prod_cases3)
  have "?I t" by (rule while_option_rule [of ?I, OF _ t I0]) (use step in blast)
  moreover have "q = []" using while_option_stop [OF t] tt by simp
  ultimately have "search_result ?nx starts [] l" unfolding tt bfs_inv_def search_result_def by auto
  moreover have "breadth_first it A starts = Some l" using new(1) t tt by (simp add: breadth_first_def)
  ultimately show ?thesis by blast
qed

section \<open>The blocks a scheduler runs\<close>

definition edge_ends :: "flow_graph \<Rightarrow> block_ptr set" where
  "edge_ends g = ed_source ` set (fg_edges g) \<union> ed_destination ` set (fg_edges g)"

lemma finite_edge_ends [simp]: "finite (edge_ends g)"
  by (simp add: edge_ends_def)

text \<open>The steps along the edges of a graph.\<close>

definition edge_steps :: "flow_graph \<Rightarrow> (block_ptr \<times> block_ptr) set" where
  "edge_steps g = (\<lambda>e. (ed_source e, ed_destination e)) ` set (fg_edges g)"

lemma successors_set:
  "permutes_entries it \<Longrightarrow> set (map ed_destination (edges_from it (computeAdjacencyList H g) b)) = {d. (b, d) \<in> edge_steps g}"
  by (auto simp: edges_from_set edge_steps_def)

lemma searches_found:
  assumes "permutes_entries it" "permutes_entries itA" "card (edge_ends g) < depth" "A = computeAdjacencyList H g"
  shows "\<exists>b d. breadth_first it A (findSourceBlocks H itA A) = Some b \<and> depth_first depth it A (findSourceBlocks H itA A) = Some d \<and>
    search_result (\<lambda>b. map ed_destination (edges_from it A b)) (findSourceBlocks H itA A) [] b \<and>
    search_result (\<lambda>b. map ed_destination (edges_from it A b)) (findSourceBlocks H itA A) [] d"
proof -
  have closed: "ed_destination ` set (edges_from it A b) \<subseteq> edge_ends g" for b
    unfolding assms(4) by (auto simp: edges_from_set [OF assms(1)] edge_ends_def)
  have starts: "set (findSourceBlocks H itA A) \<subseteq> edge_ends g" unfolding assms(4) findSourceBlocks_set [OF assms(2)] edge_ends_def by blast
  show ?thesis
    using breadth_first_search [OF finite_edge_ends closed starts] depth_first_search [OF finite_edge_ends closed starts assms(3)] by blast
qed

text \<open>No block is run before one that hands it samples: a block of the list is a source, or an edge leads to it from an earlier one.\<close>

definition follows_edges :: "flow_graph \<Rightarrow> block_ptr set \<Rightarrow> block_ptr list \<Rightarrow> bool" where
  "follows_edges g sources l \<longleftrightarrow> distinct l \<and> set l = (edge_steps g)\<^sup>* `` sources \<and>
     (\<forall>i < length l. l ! i \<in> sources \<or> (\<exists>j < i. (l ! j, l ! i) \<in> edge_steps g))"

lemma search_follows:
  assumes "permutes_entries it" "search_result (\<lambda>b. map ed_destination (edges_from it (computeAdjacencyList H g) b)) starts [] l"
  shows "follows_edges g (set starts) l"
proof -
  have "set l = (edge_steps g)\<^sup>* `` set starts" using search_reaches [OF assms(2)] unfolding successors_set [OF assms(1)] by simp
  moreover have "distinct l \<and> (\<forall>i < length l. l ! i \<in> set starts \<or> (\<exists>j < i. (l ! j, l ! i) \<in> edge_steps g))"
    using assms(2) unfolding search_result_def successors_set [OF assms(1)] by auto
  ultimately show ?thesis by (simp add: follows_edges_def)
qed

text \<open>
  C23. The searches of a graph. Whatever order the unordered maps iterate in, and whatever cycles the graph has, both searches end, a
  recursion deeper than the number of the edges' blocks is never needed, the sources are the blocks with an outgoing and no incoming
  edge, and each search lists exactly the blocks reached from them, once, every one after a block that has an edge to it.
\<close>
theorem searches_follow_edges:
  assumes "permutes_entries it" "permutes_entries itA" "card (edge_ends g) < depth"
  shows "\<exists>b d sources. breadth_first it (computeAdjacencyList H g) (findSourceBlocks H itA (computeAdjacencyList H g)) = Some b \<and>
    depth_first depth it (computeAdjacencyList H g) (findSourceBlocks H itA (computeAdjacencyList H g)) = Some d \<and>
    sources = ed_source ` set (fg_edges g) - ed_destination ` set (fg_edges g) \<and> follows_edges g sources b \<and> follows_edges g sources d"
  using searches_found [OF assms refl, of H] search_follows [OF assms(1)] findSourceBlocks_set [OF assms(2)] by metis

lemma flatten_ends: "edge_ends (flatten H t g) \<subseteq> set (map node_ptr (fg_blocks (flatten H t g)))"
proof
  fix b assume "b \<in> edge_ends (flatten H t g)"
  then obtain e where e: "e \<in> set (fg_edges (flatten H t g))" "b = ed_source e \<or> b = ed_destination e" by (auto simp: edge_ends_def)
  then have "containsEdge (flatten H t g) e" unfolding containsEdge_iff using edge_eq_refl by blast
  then show "b \<in> set (map node_ptr (fg_blocks (flatten H t g)))" using e(2) unfolding flatten_contains by auto
qed

lemma append_unreached_mset:
  assumes "distinct (map node_ptr (fg_blocks flat))" "distinct l" "set l \<subseteq> set (map node_ptr (fg_blocks flat))"
  shows "mset (append_unreached flat l) = mset (map node_ptr (fg_blocks flat))"
proof -
  have "distinct (append_unreached flat l)" using assms by (auto simp: append_unreached_def)
  moreover have "set (append_unreached flat l) = set (map node_ptr (fg_blocks flat))" using assms(3) by (auto simp: append_unreached_def)
  ultimately show ?thesis using assms(1) by (metis set_eq_iff_mset_eq_distinct)
qed

lemma make_job_lists_concat: "concat (jl_order (make_job_lists H policy P bs)) = bs"
  by (cases "isMultiThreaded policy") (simp_all add: make_job_lists_def Let_def batchBlocks_concat less_le_trans [OF _ nJobLists_bounds(1)])

lemma follows_within: "follows_edges g (ed_source ` set (fg_edges g) - X) l \<Longrightarrow> set l \<subseteq> edge_ends g"
proof
  fix b assume f: "follows_edges g (ed_source ` set (fg_edges g) - X) l" and "b \<in> set l"
  then obtain s where s: "s \<in> ed_source ` set (fg_edges g)" "(s, b) \<in> (edge_steps g)\<^sup>*" by (auto simp: follows_edges_def)
  from s(2) show "b \<in> edge_ends g" by (induction rule: rtrancl_induct) (use s(1) in \<open>auto simp: edge_ends_def edge_steps_def\<close>)
qed

text \<open>
  C19. The blocks of a run. For the simple, the breadth-first and the depth-first scheduler, every execution policy and every state of the
  thread pool, the initialisation ends and puts each block of the graph and of its transparent groups into exactly one job list.
\<close>
theorem every_block_scheduled:
  assumes "permutes_entries it" "permutes_entries itA"
    "distinct (map node_ptr (fg_blocks (flatten H TransparentBlockGroup g)))" "length (fg_blocks (flatten H TransparentBlockGroup g)) < depth"
  shows "\<exists>b d. breadth_first_init H it itA policy P g = Some b \<and> depth_first_init depth H it itA policy P g = Some d \<and>
    (let all = mset (map node_ptr (fg_blocks (flatten H TransparentBlockGroup g)))
     in mset (concat (jl_order (simple_init H policy P g))) = all \<and> mset (concat (jl_order b)) = all \<and> mset (concat (jl_order d)) = all)"
proof -
  let ?f = "flatten H TransparentBlockGroup g"
  have "card (edge_ends ?f) \<le> card (set (map node_ptr (fg_blocks ?f)))" by (rule card_mono) (simp_all only: finite_set flatten_ends)
  also have "\<dots> < depth" using assms(4) by (simp only: distinct_card [OF assms(3)] length_map)
  finally obtain b d where s: "breadth_first it (computeAdjacencyList H ?f) (findSourceBlocks H itA (computeAdjacencyList H ?f)) = Some b"
      "depth_first depth it (computeAdjacencyList H ?f) (findSourceBlocks H itA (computeAdjacencyList H ?f)) = Some d"
      "follows_edges ?f (set (findSourceBlocks H itA (computeAdjacencyList H ?f))) b"
      "follows_edges ?f (set (findSourceBlocks H itA (computeAdjacencyList H ?f))) d"
    using searches_found [OF assms(1,2) _ refl, of ?f depth H] search_follows [OF assms(1)] by blast
  note in_graph = subset_trans [OF follows_within flatten_ends]
  have "mset (append_unreached ?f l) = mset (map node_ptr (fg_blocks ?f))" if "follows_edges ?f (set (findSourceBlocks H itA (computeAdjacencyList H ?f))) l" for l
    using that append_unreached_mset [OF assms(3)] in_graph unfolding findSourceBlocks_set [OF assms(2)] by (auto simp: follows_edges_def)
  then show ?thesis using s
    by (simp add: breadth_first_init_def depth_first_init_def simple_init_def Let_def make_job_lists_concat)
qed

section \<open>A group of two blocks that feeds a cycle\<close>

definition group_block :: "nat \<Rightarrow> block_model" where
  "group_block b = \<lparr>bm_uniqueName = ''b'', bm_name = ''b'', bm_category = (if b = 0 then TransparentBlockGroup else NormalBlock),
     bm_inputs = [], bm_outputs = [], bm_ratio = (1, 1), bm_stride = 0, bm_minIn = [], bm_stagedDomain = None, bm_activeDomain = None\<rparr>"

definition group_edge :: "nat \<Rightarrow> nat \<Rightarrow> edge" where
  "group_edge a b = new_edge a (IndexBased 0 invalid_index) b (IndexBased 0 invalid_index) default_parameters"

definition group_graph :: flow_graph where
  "group_graph = \<lparr>fg_blocks = [BlockNode 0 [BlockNode 1 [] [], BlockNode 2 [] []] [group_edge 1 2], BlockNode 3 [] [], BlockNode 4 [] []],
     fg_edges = [group_edge 2 3, group_edge 3 2]\<rparr>"

lemma group_flat:
  "flatten group_block TransparentBlockGroup group_graph =
    \<lparr>fg_blocks = [BlockNode 0 [BlockNode 1 [] [], BlockNode 2 [] []] [group_edge 1 2], BlockNode 3 [] [], BlockNode 4 [] [], BlockNode 1 [] [], BlockNode 2 [] []],
     fg_edges = [group_edge 2 3, group_edge 3 2, group_edge 1 2]\<rparr>"
  by (simp add: flatten_def Let_def forEachBlock_def traverseSubgraphs_def group_graph_def group_block_def enters_def addBlock_def addListedEdge_def
      addEdge_def containsEdge_def edge_eq_def group_edge_def new_edge_def)

lemma permutes_id [simp]: "permutes_entries (\<lambda>xs. xs)" "permutes_entries rev"
  by (simp_all add: permutes_entries_def)

definition flat_group :: flow_graph where
  "flat_group = flatten group_block TransparentBlockGroup group_graph"

lemma searches_follow_edges_witness:
  "\<exists>b d. breadth_first rev (computeAdjacencyList group_block flat_group) (findSourceBlocks group_block rev (computeAdjacencyList group_block flat_group)) = Some b \<and>
    depth_first 5 rev (computeAdjacencyList group_block flat_group) (findSourceBlocks group_block rev (computeAdjacencyList group_block flat_group)) = Some d \<and>
    follows_edges flat_group {1} b \<and> follows_edges flat_group {1} d"
proof -
  have e: "edge_ends flat_group = {1, 2, 3}" by (auto simp: edge_ends_def flat_group_def group_flat group_edge_def new_edge_def)
  have "card {1, 2, 3 :: nat} < 5" by simp
  then have c: "card (edge_ends flat_group) < 5" unfolding e .
  have "ed_source ` set (fg_edges flat_group) - ed_destination ` set (fg_edges flat_group) = {1}"
    by (auto simp: flat_group_def group_flat group_edge_def new_edge_def)
  then show ?thesis using searches_follow_edges [OF permutes_id(2) permutes_id(2) c, of group_block] by metis
qed

definition demo_pool :: pool_view where
  "demo_pool = \<lparr>pv_maxThreads = 4, pv_running = 1, pv_queued = 0, pv_ownThread = True\<rparr>"

lemma every_block_scheduled_witness:
  "\<exists>b d. breadth_first_init group_block (\<lambda>xs. xs) rev multiThreaded demo_pool group_graph = Some b \<and>
    depth_first_init 6 group_block (\<lambda>xs. xs) rev multiThreaded demo_pool group_graph = Some d \<and>
    mset (concat (jl_order b)) = {#0, 1, 2, 3, 4#} \<and> mset (concat (jl_order d)) = {#0, 1, 2, 3, 4#}"
proof -
  have "distinct (map node_ptr (fg_blocks (flatten group_block TransparentBlockGroup group_graph)))"
    "length (fg_blocks (flatten group_block TransparentBlockGroup group_graph)) < 6"
    "mset (map node_ptr (fg_blocks (flatten group_block TransparentBlockGroup group_graph))) = {#0, 1, 2, 3, 4#}" by (simp_all add: group_flat)
  then show ?thesis using every_block_scheduled [of "\<lambda>xs. xs" rev group_block group_graph 6 multiThreaded demo_pool] unfolding Let_def
    by (metis permutes_id)
qed

end
