(* ===== verification/RunLists.thy ===== *)
theory RunLists
  imports ExecutionOrder LifeCycle BlockSizing
begin

text \<open>
  The blocks of a running scheduler (\<^verbatim>\<open>core/include/gnuradio-4.0/Scheduler.hpp\<close>): the job lists, the blocks that wait to be adopted by
  a worker, those withdrawn from the run and those that wait for their end, and one traversal of a worker's blocks. Each operation
  holds its locks throughout, so a run is an interleaving of whole operations. A block's own code (its transitions with their hooks,
  its \<^verbatim>\<open>work()\<close>) is a parameter; the messages and the wake-ups of parked workers are left out.
\<close>

section \<open>The lists of a run\<close>

record run_lists =
  rl_order :: "block_ptr list list"
  rl_adoption :: "block_ptr list list"
  rl_closed :: "bool list"
  rl_withdrawn :: "block_ptr list"
  rl_zombies :: "block_ptr list"

text \<open>What \<^verbatim>\<open>start()\<close> does to them before it dispatches the workers.\<close>

definition open_run :: "run_lists \<Rightarrow> run_lists" where
  "open_run s = s\<lparr>rl_closed := replicate (length (rl_adoption s)) False, rl_withdrawn := []\<rparr>"

definition isOpen :: "run_lists \<Rightarrow> nat \<Rightarrow> bool" where
  "isOpen s i \<longleftrightarrow> length (rl_closed s) \<le> i \<or> \<not> rl_closed s ! i"

definition openLists :: "run_lists \<Rightarrow> nat list" where
  "openLists s = [i \<leftarrow> [0..<length (rl_adoption s)]. isOpen s i]"

definition hasOpenAdoptionList :: "run_lists \<Rightarrow> bool" where
  "hasOpenAdoptionList s \<longleftrightarrow> list_ex (isOpen s) [0..<length (rl_adoption s)]"

definition enqueue :: "nat \<Rightarrow> block_ptr \<Rightarrow> run_lists \<Rightarrow> run_lists" where
  "enqueue i b s = s\<lparr>rl_adoption := push_to i b (rl_adoption s)\<rparr>"

definition queueForAdoption :: "(block_ptr \<Rightarrow> nat) \<Rightarrow> block_ptr \<Rightarrow> nat option \<Rightarrow> run_lists \<Rightarrow> nat option \<times> run_lists" where
  "queueForAdoption hash newBlock preferred s =
     (case preferred of
        Some i \<Rightarrow> if i < length (rl_adoption s) \<and> isOpen s i then (preferred, enqueue i newBlock s)
                  else if openLists s = [] then (None, s)
                  else (let j = openLists s ! (hash newBlock mod length (openLists s)) in (Some j, enqueue j newBlock s))
      | None \<Rightarrow> if openLists s = [] then (None, s)
                else (let j = openLists s ! (hash newBlock mod length (openLists s)) in (Some j, enqueue j newBlock s)))"

definition hand_over :: "nat \<Rightarrow> nat \<Rightarrow> run_lists \<Rightarrow> run_lists" where
  "hand_over r i s =
     (if rl_adoption s ! r \<noteq> [] \<and> isOpen s i then
        s\<lparr>rl_adoption := (rl_adoption s)[i := rl_adoption s ! i @ rl_adoption s ! r, r := []]\<rparr>
      else s)"

definition closeAdoptionList :: "nat \<Rightarrow> run_lists \<Rightarrow> run_lists" where
  "closeAdoptionList r s =
     (if length (rl_closed s) \<le> r then s
      else (let s1 = s\<lparr>rl_closed := (rl_closed s)[r := True]\<rparr>
            in if length (rl_adoption s) \<le> r then s1 else fold (hand_over r) [0..<length (rl_adoption s)] s1))"

definition closeAdoptionListIfEmpty :: "nat \<Rightarrow> run_lists \<Rightarrow> bool \<times> run_lists" where
  "closeAdoptionListIfEmpty r s =
     (if r < length (rl_adoption s) \<and> rl_adoption s ! r \<noteq> [] then (False, s)
      else (True, if r < length (rl_closed s) then s\<lparr>rl_closed := (rl_closed s)[r := True]\<rparr> else s))"

definition withdrawFromRun :: "block_ptr \<Rightarrow> run_lists \<Rightarrow> run_lists" where
  "withdrawFromRun b s = s\<lparr>rl_withdrawn := rl_withdrawn s @ [b]\<rparr>"

text \<open>A worker's own list is an argument and a result.\<close>

definition drop_block :: "block_ptr \<Rightarrow> block_ptr list \<times> run_lists \<Rightarrow> block_ptr list \<times> run_lists" where
  "drop_block b = (\<lambda>(local, s). (removeAll b local, s\<lparr>rl_order := map (removeAll b) (rl_order s)\<rparr>))"

definition dropWithdrawnBlocks :: "block_ptr list \<Rightarrow> run_lists \<Rightarrow> nat \<times> block_ptr list \<times> run_lists" where
  "dropWithdrawnBlocks local s = (length (rl_withdrawn s), fold drop_block (rl_withdrawn s) (local, s))"

definition append_missing :: "'a \<Rightarrow> 'a list \<Rightarrow> 'a list" where
  "append_missing x xs = (if x \<in> set xs then xs else xs @ [x])"

text \<open>The job lists once a block belongs to the list of one worker alone.\<close>

definition take_over :: "nat \<Rightarrow> block_ptr \<Rightarrow> block_ptr list list \<Rightarrow> block_ptr list list" where
  "take_over r b xss = map (\<lambda>i. if i = r then append_missing b (xss ! i) else removeAll b (xss ! i)) [0..<length xss]"

definition adopt_one :: "nat \<Rightarrow> block_ptr \<Rightarrow> block_ptr list \<times> run_lists \<Rightarrow> block_ptr list \<times> run_lists" where
  "adopt_one r b = (\<lambda>(local, s).
     (append_missing b local, if length (rl_order s) \<le> r then s else s\<lparr>rl_order := take_over r b (rl_order s)\<rparr>))"

definition adoptBlocks :: "nat \<Rightarrow> block_ptr list \<Rightarrow> run_lists \<Rightarrow> nat \<times> block_ptr list \<times> run_lists" where
  "adoptBlocks r local s =
     (if length (rl_adoption s) \<le> r then (0, local, s)
      else (let newBlocks = rl_adoption s ! r
            in (length newBlocks, fold (adopt_one r) newBlocks (local, s\<lparr>rl_adoption := (rl_adoption s)[r := []]\<rparr>))))"

section \<open>The children's life cycle\<close>

type_synonym children = "block_ptr \<Rightarrow> state"

text \<open>A block's own \<^verbatim>\<open>changeStateTo\<close>: whether it succeeds from a state, and the state it leaves.\<close>

record child_env =
  ce_heap :: block_heap
  ce_hash :: "block_ptr \<Rightarrow> nat"
  ce_change :: "block_ptr \<Rightarrow> state \<Rightarrow> state \<Rightarrow> bool \<times> state"
  ce_blocking :: "block_ptr \<Rightarrow> bool"
  ce_startAdopted :: "block_ptr \<Rightarrow> state \<Rightarrow> bool \<times> state"

definition child_change :: "child_env \<Rightarrow> block_ptr \<Rightarrow> state \<Rightarrow> children \<Rightarrow> bool \<times> children" where
  "child_change E b new cs = (let (accepted, s) = ce_change E b (cs b) new in (accepted, cs(b := s)))"

definition stopChild :: "child_env \<Rightarrow> nat \<Rightarrow> block_ptr \<Rightarrow> children \<Rightarrow> children" where
  "stopChild E nWorkersInLoop b cs =
     (let cs1 = (if isActive (cs b) then snd (child_change E b REQUESTED_STOP cs) else cs)
      in if cs1 b \<noteq> REQUESTED_STOP then cs1
         else if \<not> ce_blocking E b then snd (child_change E b STOPPED cs1)
         else if nWorkersInLoop = 0 then snd (child_change E b STOPPED cs1)
         else cs1)"

text \<open>Under a multi-threaded policy; the single-threaded ones have one job list and look nowhere.\<close>

definition jobListHolding :: "child_env \<Rightarrow> bool \<Rightarrow> string \<Rightarrow> run_lists \<Rightarrow> nat option" where
  "jobListHolding E multi uniqueName s =
     (if multi then first_index (\<lambda>l. list_ex (\<lambda>b. bm_uniqueName (ce_heap E b) = uniqueName) l) (rl_order s) else None)"

text \<open>\<open>held\<close>: the worker of a single-threaded run holds the lock of the job lists on another thread.\<close>

definition jobListHolds :: "bool \<Rightarrow> block_ptr \<Rightarrow> run_lists \<Rightarrow> bool" where
  "jobListHolds held b s \<longleftrightarrow> held \<or> list_ex (\<lambda>l. b \<in> set l) (rl_order s)"

primrec remove_first :: "'a \<Rightarrow> 'a list list \<Rightarrow> 'a list list" where
  "remove_first x [] = []"
| "remove_first x (l # ls) = (if x \<in> set l then remove1 x l # ls else l # remove_first x ls)"

definition makeZombie :: "child_env \<Rightarrow> nat \<Rightarrow> bool \<Rightarrow> block_ptr \<Rightarrow> children \<times> run_lists \<Rightarrow> children \<times> run_lists" where
  "makeZombie E nWorkersInLoop held b = (\<lambda>(cs, s).
     (let s1 = s\<lparr>rl_adoption := remove_first b (rl_adoption s)\<rparr>
      in (stopChild E nWorkersInLoop b cs,
          if \<not> isActive (cs b) \<and> \<not> jobListHolds held b s1 then s1 else s1\<lparr>rl_zombies := rl_zombies s1 @ [b]\<rparr>)))"

primrec erase_first :: "'a \<Rightarrow> 'a list list \<Rightarrow> 'a list list" where
  "erase_first x [] = []"
| "erase_first x (l # ls) = (if x \<in> set l then removeAll x l # ls else l # erase_first x ls)"

text \<open>The scan of the zombies: those to keep, the worker's list, the children and the job lists.\<close>

type_synonym zombie_scan = "block_ptr list \<times> block_ptr list \<times> children \<times> block_ptr list list"

definition clean_one :: "child_env \<Rightarrow> nat \<Rightarrow> block_ptr \<Rightarrow> zombie_scan \<Rightarrow> zombie_scan" where
  "clean_one E nWorkersInLoop z = (\<lambda>(kept, local, cs, order).
     (if z \<notin> set local then (kept @ [z], local, cs, order)
      else (case cs z of
              IDLE \<Rightarrow> (kept, remove1 z local, cs, erase_first z order)
            | STOPPED \<Rightarrow> (kept, remove1 z local, cs, erase_first z order)
            | INITIALISED \<Rightarrow> (kept, remove1 z local, cs, erase_first z order)
            | ERROR \<Rightarrow> (kept, remove1 z local, cs, erase_first z order)
            | REQUESTED_PAUSE \<Rightarrow> (kept @ [z], local, stopChild E nWorkersInLoop z cs, order)
            | PAUSED \<Rightarrow> (kept @ [z], local, stopChild E nWorkersInLoop z cs, order)
            | REQUESTED_STOP \<Rightarrow> (kept @ [z], local, cs, order)
            | RUNNING \<Rightarrow> (kept @ [z], local, cs, order))))"

definition cleanupZombieBlocks :: "child_env \<Rightarrow> nat \<Rightarrow> block_ptr list \<Rightarrow> children \<times> run_lists \<Rightarrow> block_ptr list \<times> children \<times> run_lists" where
  "cleanupZombieBlocks E nWorkersInLoop local = (\<lambda>(cs, s).
     (if local = [] then (local, cs, s)
      else (let (kept, local', cs', order) = fold (clean_one E nWorkersInLoop) (rl_zombies s) ([], local, cs, rl_order s)
            in (local', cs', s\<lparr>rl_zombies := kept, rl_order := order\<rparr>))))"

datatype join_error = No_worker_left | Not_started | Init_refused | Run_refused | Cannot_join

definition queue_running :: "child_env \<Rightarrow> block_ptr \<Rightarrow> nat option \<Rightarrow> children \<times> run_lists \<Rightarrow> (join_error + nat option) \<times> children \<times> run_lists" where
  "queue_running E b preferred = (\<lambda>(cs, s).
     (case queueForAdoption (ce_hash E) b preferred s of
        (Some j, s1) \<Rightarrow> (Inr (Some j), cs, s1)
      | (None, s1) \<Rightarrow>
          (Inl No_worker_left,
           if bm_category (ce_heap E b) = ScheduledBlockGroup then cs
           else snd (child_change E b STOPPED (snd (child_change E b REQUESTED_STOP cs))), s1)))"

definition joinRun :: "child_env \<Rightarrow> state \<Rightarrow> block_ptr \<Rightarrow> nat option \<Rightarrow> children \<times> run_lists \<Rightarrow> (join_error + nat option) \<times> children \<times> run_lists" where
  "joinRun E scheduler b preferred = (\<lambda>(cs, s).
     (if \<not> isActive scheduler then (Inr None, cs, s)
      else if \<not> hasOpenAdoptionList s then (Inl No_worker_left, cs, s)
      else if bm_category (ce_heap E b) = ScheduledBlockGroup then
        (let (started, st) = ce_startAdopted E b (cs b); cs1 = cs(b := st)
         in if started then queue_running E b preferred (cs1, s) else (Inl Not_started, cs1, s))
      else if cs b \<in> {STOPPED, IDLE, INITIALISED} then
        (let (initialised, cs1) = (if cs b = INITIALISED then (True, cs) else child_change E b INITIALISED cs)
         in if \<not> initialised then (Inl Init_refused, cs1, s)
            else (let (running, cs2) = child_change E b RUNNING cs1
                  in if running then queue_running E b preferred (cs2, s) else (Inl Run_refused, cs2, s)))
      else (Inl Cannot_join, cs, s)))"

section \<open>One traversal of a worker's blocks\<close>

text \<open>What a traversal gathers, and what it leaves in the scheduler.\<close>

record traversal =
  tr_performed :: nat
  tr_unfinished :: bool
  tr_exportedMoved :: bool
  tr_nestedMoved :: bool

record run_marks =
  rm_endingBlock :: "string option"
  rm_exportedBlocks :: "block_ptr list"
  rm_progress :: "nat list"
  rm_nestedMoves :: nat
  rm_graphMoved :: bool

text \<open>A block's \<^verbatim>\<open>work()\<close> gives the requested and the performed work and its status, and changes the world of the blocks.\<close>

type_synonym 'w work_call = "block_ptr \<Rightarrow> nat \<Rightarrow> 'w \<Rightarrow> (nat \<times> nat \<times> work_status) \<times> 'w"

definition count_call :: "child_env \<Rightarrow> block_ptr list \<Rightarrow> block_ptr \<Rightarrow> nat \<Rightarrow> traversal \<Rightarrow> traversal" where
  "count_call E exported b performed t =
     (if bm_category (ce_heap E b) = ScheduledBlockGroup then t\<lparr>tr_nestedMoved := tr_nestedMoved t \<or> 0 < performed\<rparr>
      else t\<lparr>tr_performed := tr_performed t + performed, tr_exportedMoved := tr_exportedMoved t \<or> 0 < performed \<and> b \<in> set exported\<rparr>)"

definition count_status :: "child_env \<Rightarrow> block_ptr \<Rightarrow> work_status \<Rightarrow> traversal \<Rightarrow> traversal" where
  "count_status E b status t =
     (if status \<noteq> DONE \<and> bm_category (ce_heap E b) \<noteq> TransparentBlockGroup then t\<lparr>tr_unfinished := True\<rparr> else t)"

text \<open>The loop over the blocks: the block that returned \<open>WORK_ERROR\<close> with what it was asked for, or the whole traversal.\<close>

primrec traverse_blocks :: "child_env \<Rightarrow> block_ptr list \<Rightarrow> 'w work_call \<Rightarrow> nat \<Rightarrow> block_ptr list \<Rightarrow> traversal \<Rightarrow> 'w \<Rightarrow> (block_ptr \<times> nat + unit) \<times> traversal \<times> 'w" where
  "traverse_blocks E exported work maxItems [] t w = (Inr (), t, w)"
| "traverse_blocks E exported work maxItems (b # bs) t w =
     (let ((requested, performed, status), w1) = work b maxItems w; t1 = count_call E exported b performed t
      in if status = WORK_ERROR then (Inl (b, requested), t1, w1)
         else traverse_blocks E exported work maxItems bs (count_status E b status t1) w1)"

definition advanceEnclosingProgress :: "bool \<Rightarrow> bool \<Rightarrow> run_marks \<Rightarrow> run_marks" where
  "advanceEnclosingProgress exportedBlockMoved runEnds m =
     (if \<not> exportedBlockMoved \<and> \<not> (runEnds \<and> rm_exportedBlocks m \<noteq> []) then m else m\<lparr>rm_progress := map Suc (rm_progress m)\<rparr>)"

definition end_traversal :: "traversal \<Rightarrow> run_marks \<Rightarrow> run_marks" where
  "end_traversal t m =
     (let m1 = advanceEnclosingProgress (tr_exportedMoved t) (\<not> tr_unfinished t) m;
          m2 = (if tr_nestedMoved t then m1\<lparr>rm_nestedMoves := Suc (rm_nestedMoves m1)\<rparr> else m1)
      in m2\<lparr>rm_graphMoved := rm_graphMoved m2 \<or> 0 < tr_performed t \<or> tr_nestedMoved t\<rparr>)"

definition traverseBlockListOnce :: "child_env \<Rightarrow> 'w work_call \<Rightarrow> nat \<Rightarrow> block_ptr list \<Rightarrow> run_marks \<Rightarrow> 'w \<Rightarrow> (nat \<times> nat \<times> work_status) \<times> run_marks \<times> 'w" where
  "traverseBlockListOnce E work maxItems blocks m w =
     (let t0 = \<lparr>tr_performed = 0, tr_unfinished = False, tr_exportedMoved = False, tr_nestedMoved = False\<rparr>
      in case traverse_blocks E (rm_exportedBlocks m) work maxItems blocks t0 w of
           (Inl (b, requested), t, w1) \<Rightarrow>
             ((requested, tr_performed t, WORK_ERROR),
              (if rm_endingBlock m = None then m\<lparr>rm_endingBlock := Some (bm_uniqueName (ce_heap E b))\<rparr> else m), w1)
         | (Inr (), t, w1) \<Rightarrow> ((maxItems, tr_performed t, if tr_unfinished t then OK else DONE), end_traversal t m, w1))"

text \<open>How long an idle worker sleeps, in microseconds; \<open>None\<close> where it spins, 0 where it yields.\<close>

definition kIdleSpinIterations :: nat where "kIdleSpinIterations = 100"
definition kIdleYieldIterations :: nat where "kIdleYieldIterations = 8"
definition kIdleSleepDoublings :: nat where "kIdleSleepDoublings = 8"
definition kMaxIdleSleep :: nat where "kMaxIdleSleep = 200"

definition applyIdleBackoff :: "nat \<Rightarrow> nat option" where
  "applyIdleBackoff nIdleIterations =
     (if nIdleIterations \<le> kIdleSpinIterations then None
      else if nIdleIterations \<le> kIdleSpinIterations + kIdleYieldIterations then Some 0
      else Some (min kMaxIdleSleep (2 ^ min (nIdleIterations - (kIdleSpinIterations + kIdleYieldIterations)) kIdleSleepDoublings)))"

section \<open>A run as an interleaving of its workers and its edits\<close>

text \<open>No list holds an element twice and no two lists share one.\<close>

definition lists_apart :: "'a list list \<Rightarrow> bool" where
  "lists_apart xss \<longleftrightarrow> (\<forall>i < length xss. distinct (xss ! i)) \<and>
     (\<forall>i < length xss. \<forall>j < length xss. i \<noteq> j \<longrightarrow> set (xss ! i) \<inter> set (xss ! j) = {})"

text \<open>The scheduler's lists, the blocks of each worker in its loop, the children, and a log of the blocks queued, taken and removed.\<close>

record crew =
  cr_lists :: run_lists
  cr_local :: "block_ptr list list"
  cr_children :: children
  cr_queued :: "block_ptr multiset"
  cr_taken :: "block_ptr multiset"
  cr_removed :: "block_ptr multiset"

text \<open>
  The steps. A worker stays in its loop until it closes its list. A block is queued when it waits in no list and is not withdrawn; one
  that a job list holds is queued with that list preferred, unless there is one list only. The children change state at any time.
\<close>

inductive crew_step :: "child_env \<Rightarrow> crew \<Rightarrow> crew \<Rightarrow> bool" for E where
  queue: "\<lbrakk>\<forall>i < length (rl_adoption s). b \<notin> set (rl_adoption s ! i); b \<notin> set (rl_withdrawn s);
      \<forall>i < length (rl_order s). b \<in> set (rl_order s ! i) \<longrightarrow> preferred = Some i \<or> length (rl_order s) = 1;
      queueForAdoption (ce_hash E) b preferred s = (j, s'); cr_lists c = s\<rbrakk>
    \<Longrightarrow> crew_step E c (c\<lparr>cr_lists := s', cr_queued := (if j = None then cr_queued c else add_mset b (cr_queued c))\<rparr>)"
| adopt: "\<lbrakk>cr_lists c = s; r < length (rl_closed s); \<not> rl_closed s ! r; adoptBlocks r (cr_local c ! r) s = (n, local, s')\<rbrakk>
    \<Longrightarrow> crew_step E c (c\<lparr>cr_lists := s', cr_local := (cr_local c)[r := local], cr_taken := cr_taken c + mset (rl_adoption s ! r)\<rparr>)"
| leave: "r < length (rl_closed (cr_lists c)) \<Longrightarrow> crew_step E c (c\<lparr>cr_lists := closeAdoptionList r (cr_lists c)\<rparr>)"
| finish: "closeAdoptionListIfEmpty r (cr_lists c) = (closed, s') \<Longrightarrow> crew_step E c (c\<lparr>cr_lists := s'\<rparr>)"
| withdraw: "crew_step E c (c\<lparr>cr_lists := withdrawFromRun b (cr_lists c)\<rparr>)"
| drop: "\<lbrakk>cr_lists c = s; r < length (rl_closed s); \<not> rl_closed s ! r; dropWithdrawnBlocks (cr_local c ! r) s = (n, local, s')\<rbrakk>
    \<Longrightarrow> crew_step E c (c\<lparr>cr_lists := s', cr_local := (cr_local c)[r := local]\<rparr>)"
| remove: "\<lbrakk>cr_lists c = s; makeZombie E n held b (cr_children c, s) = (cs, s')\<rbrakk>
    \<Longrightarrow> crew_step E c (c\<lparr>cr_lists := s', cr_children := cs,
          cr_removed := (if \<exists>i < length (rl_adoption s). b \<in> set (rl_adoption s ! i) then add_mset b (cr_removed c) else cr_removed c)\<rparr>)"
| clean: "\<lbrakk>cr_lists c = s; r < length (rl_closed s); \<not> rl_closed s ! r; cleanupZombieBlocks E n (cr_local c ! r) (cr_children c, s) = (local, cs, s')\<rbrakk>
    \<Longrightarrow> crew_step E c (c\<lparr>cr_lists := s', cr_local := (cr_local c)[r := local], cr_children := cs\<rparr>)"
| evolve: "crew_step E c (c\<lparr>cr_children := cs\<rparr>)"

text \<open>The run when its workers start.\<close>

definition crew_start :: "crew \<Rightarrow> bool" where
  "crew_start c \<longleftrightarrow> (\<exists>s n. cr_lists c = open_run s \<and> length (rl_order s) = n \<and> rl_adoption s = replicate n [] \<and> lists_apart (rl_order s) \<and>
     cr_local c = rl_order s \<and> cr_queued c = {#} \<and> cr_taken c = {#} \<and> cr_removed c = {#})"

definition lists_ok :: "run_lists \<Rightarrow> bool" where
  "lists_ok s \<longleftrightarrow> length (rl_adoption s) = length (rl_order s) \<and> length (rl_closed s) = length (rl_order s) \<and>
     lists_apart (rl_order s) \<and> lists_apart (rl_adoption s) \<and>
     (\<forall>i < length (rl_order s). \<forall>j < length (rl_order s). i \<noteq> j \<longrightarrow> set (rl_adoption s ! i) \<inter> set (rl_order s ! j) \<noteq> {} \<longrightarrow> rl_closed s ! j) \<and>
     (\<forall>i < length (rl_order s). rl_closed s ! i \<longrightarrow> rl_adoption s ! i \<noteq> [] \<longrightarrow> (\<forall>j < length (rl_order s). rl_closed s ! j))"

definition locals_ok :: "block_ptr list list \<Rightarrow> run_lists \<Rightarrow> bool" where
  "locals_ok L s \<longleftrightarrow> length L = length (rl_order s) \<and>
     (\<forall>r < length (rl_order s). \<not> rl_closed s ! r \<longrightarrow> distinct (L ! r) \<and> set (L ! r) - set (rl_withdrawn s) \<subseteq> set (rl_order s ! r))"

definition crew_ok :: "crew \<Rightarrow> bool" where
  "crew_ok c \<longleftrightarrow> lists_ok (cr_lists c) \<and> locals_ok (cr_local c) (cr_lists c) \<and>
     cr_queued c = cr_taken c + mset (concat (rl_adoption (cr_lists c))) + cr_removed c"

lemma crew_start_ok: "crew_start c \<Longrightarrow> crew_ok c"
proof -
  assume "crew_start c"
  then obtain s where s: "cr_lists c = open_run s" "rl_adoption s = replicate (length (rl_order s)) []" "lists_apart (rl_order s)" "cr_local c = rl_order s"
      "cr_queued c = {#}" "cr_taken c = {#}" "cr_removed c = {#}" unfolding crew_start_def by blast
  have "lists_ok (open_run s)" using s(2,3) by (simp add: lists_ok_def open_run_def) (simp add: lists_apart_def)
  moreover have "locals_ok (rl_order s) (open_run s)" using s(3) by (simp add: locals_ok_def open_run_def lists_apart_def)
  moreover have "mset (concat (rl_adoption (open_run s))) = {#}" using s(2) by (simp add: open_run_def)
  ultimately show "crew_ok c" using s by (simp add: crew_ok_def)
qed

subsection \<open>Queueing\<close>

lemma mset_concat_update:
  "i < length xss \<Longrightarrow> mset (concat (xss[i := xs])) + mset (xss ! i) = mset (concat xss) + mset xs"
proof (induction xss arbitrary: i)
  case (Cons ys xss)
  then show ?case by (cases i) (auto simp: ac_simps)
qed simp

lemma mset_push: "i < length xss \<Longrightarrow> mset (concat (push_to i x xss)) = add_mset x (mset (concat xss))"
  using mset_concat_update [of i xss "xss ! i @ [x]"] by (simp add: push_to_def)

lemma queue_result:
  assumes "queueForAdoption h b preferred s = (j, s')"
  shows "(j = None \<and> s' = s) \<or> (\<exists>i. j = Some i \<and> i < length (rl_adoption s) \<and> isOpen s i \<and> s' = enqueue i b s \<and> (preferred = Some i \<or> preferred = None \<or>
    (\<exists>k. preferred = Some k \<and> \<not> (k < length (rl_adoption s) \<and> isOpen s k))))"
proof -
  have m: "openLists s ! (h b mod length (openLists s)) \<in> set (openLists s)" if "openLists s \<noteq> []"
    using that by (intro nth_mem) simp
  then show ?thesis using assms m unfolding queueForAdoption_def
    by (auto simp: Let_def openLists_def split: option.splits if_splits)
qed

lemma lists_okD:
  assumes "lists_ok s"
  shows "length (rl_adoption s) = length (rl_order s)" "length (rl_closed s) = length (rl_order s)" "lists_apart (rl_order s)" "lists_apart (rl_adoption s)"
    "i < length (rl_order s) \<Longrightarrow> j < length (rl_order s) \<Longrightarrow> i \<noteq> j \<Longrightarrow> b \<in> set (rl_adoption s ! i) \<Longrightarrow> b \<in> set (rl_order s ! j) \<Longrightarrow> rl_closed s ! j"
    "i < length (rl_order s) \<Longrightarrow> j < length (rl_order s) \<Longrightarrow> rl_closed s ! i \<Longrightarrow> rl_adoption s ! i \<noteq> [] \<Longrightarrow> rl_closed s ! j"
  using assms unfolding lists_ok_def by (blast, blast, blast, blast, blast, blast)

lemma lists_okI:
  assumes "length (rl_adoption s) = length (rl_order s)" "length (rl_closed s) = length (rl_order s)" "lists_apart (rl_order s)" "lists_apart (rl_adoption s)"
    "\<And>i j b. i < length (rl_order s) \<Longrightarrow> j < length (rl_order s) \<Longrightarrow> i \<noteq> j \<Longrightarrow> b \<in> set (rl_adoption s ! i) \<Longrightarrow> b \<in> set (rl_order s ! j) \<Longrightarrow> rl_closed s ! j"
    "\<And>i j. i < length (rl_order s) \<Longrightarrow> j < length (rl_order s) \<Longrightarrow> rl_closed s ! i \<Longrightarrow> rl_adoption s ! i \<noteq> [] \<Longrightarrow> rl_closed s ! j"
  shows "lists_ok s"
  using assms unfolding lists_ok_def by blast

lemma apartI:
  "(\<And>i. i < length xss \<Longrightarrow> distinct (xss ! i)) \<Longrightarrow> (\<And>i j x. i < length xss \<Longrightarrow> j < length xss \<Longrightarrow> x \<in> set (xss ! i) \<Longrightarrow> x \<in> set (xss ! j) \<Longrightarrow> i = j) \<Longrightarrow> lists_apart xss"
  unfolding lists_apart_def by blast

lemma apartD: "lists_apart xss \<Longrightarrow> i < length xss \<Longrightarrow> distinct (xss ! i)"
    "lists_apart xss \<Longrightarrow> i < length xss \<Longrightarrow> j < length xss \<Longrightarrow> x \<in> set (xss ! i) \<Longrightarrow> x \<in> set (xss ! j) \<Longrightarrow> i = j"
  unfolding lists_apart_def by blast+

lemma apart_push:
  assumes "lists_apart xss" "i < length xss" "\<forall>k < length xss. b \<notin> set (xss ! k)"
  shows "lists_apart (push_to i b xss)"
proof (rule apartI)
  have A: "set (push_to i b xss ! k) = (if k = i then insert b (set (xss ! i)) else set (xss ! k))" if "k < length xss" for k
    using that assms(2) by (simp add: push_to_def nth_list_update)
  fix k assume k: "k < length (push_to i b xss)"
  then show "distinct (push_to i b xss ! k)" using assms apartD(1) [OF assms(1)] by (simp add: push_to_def nth_list_update)
  fix j x assume "j < length (push_to i b xss)" "x \<in> set (push_to i b xss ! k)" "x \<in> set (push_to i b xss ! j)"
  then show "k = j" using k A assms(3) apartD(2) [OF assms(1), of k j x] by (auto simp: push_to_def split: if_splits)
qed

lemma enqueue_ok:
  assumes "lists_ok s" "i < length (rl_adoption s)" "isOpen s i" "\<forall>k < length (rl_adoption s). b \<notin> set (rl_adoption s ! k)"
    "\<forall>k < length (rl_order s). b \<in> set (rl_order s ! k) \<longrightarrow> k = i \<or> rl_closed s ! k"
  shows "lists_ok (enqueue i b s)"
proof (rule lists_okI)
  note ok = lists_okD [OF assms(1)]
  have f: "rl_order (enqueue i b s) = rl_order s" "rl_closed (enqueue i b s) = rl_closed s" by (simp_all add: enqueue_def)
  have A: "rl_adoption (enqueue i b s) ! k = (if k = i then rl_adoption s ! i @ [b] else rl_adoption s ! k)" if "k < length (rl_order s)" for k
    using that assms(2) ok(1) by (simp add: enqueue_def push_to_def nth_list_update)
  show "length (rl_adoption (enqueue i b s)) = length (rl_order (enqueue i b s))" using ok(1) by (simp add: enqueue_def push_to_def)
  show "length (rl_closed (enqueue i b s)) = length (rl_order (enqueue i b s))" "lists_apart (rl_order (enqueue i b s))" using ok(2,3) f by simp_all
  show "lists_apart (rl_adoption (enqueue i b s))" using apart_push [OF ok(4) assms(2,4)] by (simp add: enqueue_def)
  fix k j assume kj: "k < length (rl_order (enqueue i b s))" "j < length (rl_order (enqueue i b s))"
  show "rl_closed (enqueue i b s) ! j" if "k \<noteq> j" "x \<in> set (rl_adoption (enqueue i b s) ! k)" "x \<in> set (rl_order (enqueue i b s) ! j)" for x
    using that kj A ok(5) [of k j x] assms(5) unfolding f by (auto split: if_splits)
  show "rl_closed (enqueue i b s) ! j" if "rl_closed (enqueue i b s) ! k" "rl_adoption (enqueue i b s) ! k \<noteq> []"
    using that kj A ok(6) [of k j] assms(3) ok(2) unfolding f by (auto simp: isOpen_def split: if_splits)
qed

lemma queue_ok:
  assumes "crew_ok c" "cr_lists c = s" "\<forall>i < length (rl_adoption s). b \<notin> set (rl_adoption s ! i)"
    "\<forall>i < length (rl_order s). b \<in> set (rl_order s ! i) \<longrightarrow> preferred = Some i \<or> length (rl_order s) = 1"
    "queueForAdoption h b preferred s = (j, s')"
  shows "crew_ok (c\<lparr>cr_lists := s', cr_queued := (if j = None then cr_queued c else add_mset b (cr_queued c))\<rparr>)"
proof (cases j)
  case None
  then have "s' = s" using queue_result [OF assms(5)] by auto
  then show ?thesis using assms(1,2) None by (simp add: crew_ok_def)
next
  case (Some i)
  then have i: "i < length (rl_adoption s)" "isOpen s i" "s' = enqueue i b s" "preferred = Some i \<or> preferred = None \<or>
      (\<exists>k. preferred = Some k \<and> \<not> (k < length (rl_adoption s) \<and> isOpen s k))" using queue_result [OF assms(5)] by auto
  have ok: "lists_ok s" using assms(1,2) by (simp add: crew_ok_def)
  have held: "\<forall>k < length (rl_order s). b \<in> set (rl_order s ! k) \<longrightarrow> k = i \<or> rl_closed s ! k"
  proof (intro allI impI)
    fix k assume k: "k < length (rl_order s)" "b \<in> set (rl_order s ! k)"
    then have "preferred = Some k \<or> length (rl_order s) = 1" using assms(4) by blast
    then show "k = i \<or> rl_closed s ! k" using i(1,4) k(1) ok using lists_okD(1,2) [OF ok] by (auto simp: isOpen_def)
  qed
  have "lists_ok s'" unfolding i(3) by (rule enqueue_ok [OF ok i(1,2) assms(3) held])
  moreover have "locals_ok (cr_local c) s'" using assms(1,2) i(3) by (simp add: crew_ok_def locals_ok_def enqueue_def)
  moreover have "mset (concat (rl_adoption s')) = add_mset b (mset (concat (rl_adoption s)))" using mset_push i(1,3) by (simp add: enqueue_def)
  ultimately show ?thesis using assms(1,2) Some by (simp add: crew_ok_def)
qed

subsection \<open>Taking blocks out of lists\<close>

lemma apart_subset:
  assumes "lists_apart xss" "length yss = length xss" "\<And>i. i < length xss \<Longrightarrow> distinct (xss ! i) \<Longrightarrow> distinct (yss ! i) \<and> set (yss ! i) \<subseteq> set (xss ! i)"
  shows "lists_apart yss"
proof (rule apartI)
  fix i assume "i < length yss"
  then show "distinct (yss ! i)" using assms(2,3) apartD(1) [OF assms(1)] by simp
next
  fix i j x assume "i < length yss" "j < length yss" "x \<in> set (yss ! i)" "x \<in> set (yss ! j)"
  then show "i = j" using assms(2,3) apartD [OF assms(1)] by (metis subsetD)
qed

lemma apart_removeAll: "lists_apart xss \<Longrightarrow> lists_apart (map (removeAll b) xss)"
  by (rule apart_subset) (auto simp: distinct_removeAll)

lemma apart_Cons:
  assumes "lists_apart (l # ls)"
  shows "distinct l" "lists_apart ls" "x \<in> set l \<Longrightarrow> m \<in> set ls \<Longrightarrow> x \<notin> set m"
proof -
  show "distinct l" using apartD(1) [OF assms, of 0] by simp
  show "lists_apart ls"
  proof (rule apartI)
    fix i assume "i < length ls"
    then show "distinct (ls ! i)" using apartD(1) [OF assms, of "Suc i"] by simp
  next
    fix i j x assume "i < length ls" "j < length ls" "x \<in> set (ls ! i)" "x \<in> set (ls ! j)"
    then show "i = j" using apartD(2) [OF assms, of "Suc i" "Suc j" x] by simp
  qed
  assume "x \<in> set l" "m \<in> set ls"
  then show "x \<notin> set m" using apartD(2) [OF assms, of 0 "Suc _" x] by (auto simp: in_set_conv_nth)
qed

lemma removeAll_others: "(\<And>m. m \<in> set ls \<Longrightarrow> x \<notin> set m) \<Longrightarrow> map (removeAll x) ls = ls"
  by (induction ls) simp_all

lemma erase_first_apart: "lists_apart xss \<Longrightarrow> erase_first x xss = map (removeAll x) xss"
proof (induction xss)
  case (Cons l ls)
  then show ?case using apart_Cons [OF Cons.prems] removeAll_others [of ls x] by simp
qed simp

lemma remove_first_apart: "lists_apart xss \<Longrightarrow> remove_first x xss = map (removeAll x) xss"
proof (induction xss)
  case (Cons l ls)
  then show ?case using apart_Cons [OF Cons.prems] removeAll_others [of ls x] by (simp add: distinct_remove1_removeAll)
qed simp

lemma remove_first_mset:
  "mset (concat xss) = (if \<exists>i < length xss. b \<in> set (xss ! i) then add_mset b (mset (concat (remove_first b xss))) else mset (concat (remove_first b xss)))"
proof -
  have "mset (concat xss) = (if \<exists>l \<in> set xss. b \<in> set l then add_mset b (mset (concat (remove_first b xss))) else mset (concat (remove_first b xss)))"
    by (induction xss) auto
  moreover have "(\<exists>l \<in> set xss. b \<in> set l) \<longleftrightarrow> (\<exists>i < length xss. b \<in> set (xss ! i))" by (metis in_set_conv_nth)
  ultimately show ?thesis by simp
qed

subsection \<open>A worker adopts blocks\<close>

lemma take_over_length [simp]: "length (take_over r b xss) = length xss"
  by (simp add: take_over_def)

lemma take_over_nth: "i < length xss \<Longrightarrow> take_over r b xss ! i = (if i = r then append_missing b (xss ! i) else removeAll b (xss ! i))"
  by (simp add: take_over_def)

lemma append_missing_set [simp]: "set (append_missing b xs) = insert b (set xs)"
  by (auto simp: append_missing_def)

lemma append_missing_distinct: "distinct xs \<Longrightarrow> distinct (append_missing b xs)"
  by (simp add: append_missing_def)

lemma take_over_set: "i < length xss \<Longrightarrow> set (take_over r b xss ! i) = (if i = r then insert b (set (xss ! i)) else set (xss ! i) - {b})"
  by (simp add: take_over_nth)

lemma take_over_apart:
  assumes "lists_apart xss"
  shows "lists_apart (take_over r b xss)"
proof (rule apartI)
  fix i assume "i < length (take_over r b xss)"
  then show "distinct (take_over r b xss ! i)" using apartD(1) [OF assms] by (simp add: take_over_nth append_missing_distinct distinct_removeAll)
next
  fix i j x assume "i < length (take_over r b xss)" "j < length (take_over r b xss)" "x \<in> set (take_over r b xss ! i)" "x \<in> set (take_over r b xss ! j)"
  then show "i = j" using apartD(2) [OF assms, of i j x] by (auto simp: take_over_set split: if_splits)
qed

lemma fold_take_over:
  "length (fold (take_over r) bs xss) = length xss"
  "lists_apart xss \<Longrightarrow> lists_apart (fold (take_over r) bs xss)"
  "i < length xss \<Longrightarrow> set (fold (take_over r) bs xss ! i) = (if i = r then set (xss ! i) \<union> set bs else set (xss ! i) - set bs)"
  by (induction bs arbitrary: xss) (auto simp: take_over_apart take_over_set)

lemma fold_append_missing:
  "set (fold append_missing bs xs) = set xs \<union> set bs" "distinct xs \<Longrightarrow> distinct (fold append_missing bs xs)"
  by (induction bs arbitrary: xs) (auto simp: append_missing_distinct)

lemma adopt_fold:
  "r < length (rl_order s) \<Longrightarrow> fold (adopt_one r) bs (local, s) = (fold append_missing bs local, s\<lparr>rl_order := fold (take_over r) bs (rl_order s)\<rparr>)"
  by (induction bs arbitrary: local s) (simp_all add: adopt_one_def not_le)

lemma adopt_ok:
  assumes "crew_ok c" "cr_lists c = s" "r < length (rl_closed s)" "\<not> rl_closed s ! r" "adoptBlocks r (cr_local c ! r) s = (n, local, s')"
  shows "crew_ok (c\<lparr>cr_lists := s', cr_local := (cr_local c)[r := local], cr_taken := cr_taken c + mset (rl_adoption s ! r)\<rparr>)"
proof -
  have ok: "lists_ok s" and L: "locals_ok (cr_local c) s" and m: "cr_queued c = cr_taken c + mset (concat (rl_adoption s)) + cr_removed c"
    using assms(1,2) by (simp_all add: crew_ok_def)
  note D = lists_okD [OF ok]
  let ?new = "rl_adoption s ! r"
  have r: "r < length (rl_order s)" "r < length (rl_adoption s)" using assms(3) D(1,2) by simp_all
  have s': "s' = s\<lparr>rl_adoption := (rl_adoption s)[r := []], rl_order := fold (take_over r) ?new (rl_order s)\<rparr>" and l: "local = fold append_missing ?new (cr_local c ! r)"
    using assms(5) r by (simp_all add: adoptBlocks_def Let_def adopt_fold)
  note F = fold_take_over [where r = r and bs = "?new" and xss = "rl_order s"]
  have "lists_ok s'"
  proof (rule lists_okI)
    show "length (rl_adoption s') = length (rl_order s')" "length (rl_closed s') = length (rl_order s')" "lists_apart (rl_order s')"
      using D(1,2) F(1) F(2) [OF D(3)] by (simp_all add: s')
    show "lists_apart (rl_adoption s')" unfolding s' by (rule apart_subset [OF D(4)]) (use r(2) in \<open>simp_all add: nth_list_update\<close>)
    fix i j assume ij: "i < length (rl_order s')" "j < length (rl_order s')"
    show "rl_closed s' ! j" if "i \<noteq> j" "b \<in> set (rl_adoption s' ! i)" "b \<in> set (rl_order s' ! j)" for b
    proof -
      have b: "i \<noteq> r" "b \<in> set (rl_adoption s ! i)" using that(2) ij r F(1) by (auto simp: s' nth_list_update split: if_splits)
      have "b \<notin> set ?new" using apartD(2) [OF D(4), of i r b] b ij r F(1) D(1) by (auto simp: s')
      then have "b \<in> set (rl_order s ! j)" using that(3) F(3) ij F(1) by (auto simp: s' split: if_splits)
      then show ?thesis using D(5) [OF _ _ that(1) b(2)] ij F(1) by (simp add: s')
    qed
    show "rl_closed s' ! j" if "rl_closed s' ! i" "rl_adoption s' ! i \<noteq> []"
    proof -
      have "rl_adoption s ! i \<noteq> []" using that(2) ij r F(1) by (auto simp: s' nth_list_update split: if_splits)
      then show ?thesis using D(6) [of i j] that(1) ij F(1) by (simp add: s')
    qed
  qed
  moreover have "locals_ok ((cr_local c)[r := local]) s'"
    unfolding locals_ok_def
  proof (intro conjI allI impI)
    show "length ((cr_local c)[r := local]) = length (rl_order s')" using L F(1) by (simp add: s' locals_ok_def)
    fix q assume q: "q < length (rl_order s')" "\<not> rl_closed s' ! q"
    then have old: "distinct (cr_local c ! q)" "set (cr_local c ! q) - set (rl_withdrawn s) \<subseteq> set (rl_order s ! q)" using L F(1) by (auto simp: s' locals_ok_def)
    have len: "q < length (cr_local c)" using L q F(1) by (simp add: s' locals_ok_def)
    show "distinct ((cr_local c)[r := local] ! q)"
      using old(1) len fold_append_missing(2) [of "cr_local c ! r" ?new] by (cases "q = r") (simp_all add: l)
    have "b \<notin> set ?new" if "q \<noteq> r" "b \<in> set (rl_order s ! q)" for b
      using D(5) [of r q b] that q r F(1) by (auto simp: s')
    then show "set ((cr_local c)[r := local] ! q) - set (rl_withdrawn s') \<subseteq> set (rl_order s' ! q)"
      using old(2) len q F(3) [of q] F(1) by (auto simp: s' l nth_list_update fold_append_missing)
  qed
  moreover have "mset (concat (rl_adoption s)) = mset ?new + mset (concat (rl_adoption s'))"
    using mset_concat_update [OF r(2), of "[]"] by (simp add: s' ac_simps)
  ultimately show ?thesis using m by (simp add: crew_ok_def assms(2))
qed

subsection \<open>A worker leaves its loop\<close>

lemma hand_over_empty: "rl_adoption s ! r = [] \<Longrightarrow> fold (hand_over r) is s = s"
  by (induction "is") (simp_all add: hand_over_def)

lemma hand_over_fold:
  "r < length (rl_adoption s) \<Longrightarrow> rl_adoption s ! r \<noteq> [] \<Longrightarrow> fold (hand_over r) is s =
    (case find (isOpen s) is of None \<Rightarrow> s
     | Some i \<Rightarrow> s\<lparr>rl_adoption := (rl_adoption s)[i := rl_adoption s ! i @ rl_adoption s ! r, r := []]\<rparr>)"
proof (induction "is")
  case (Cons i "is")
  show ?case
  proof (cases "isOpen s i")
    case True
    then have h: "hand_over r i s = s\<lparr>rl_adoption := (rl_adoption s)[i := rl_adoption s ! i @ rl_adoption s ! r, r := []]\<rparr>"
      using Cons.prems(2) by (simp add: hand_over_def)
    have "rl_adoption (hand_over r i s) ! r = []" unfolding h using Cons.prems(1) by simp
    from hand_over_empty [OF this] show ?thesis using True h by simp
  next
    case False
    then have "hand_over r i s = s" by (simp add: hand_over_def)
    then show ?thesis using Cons False by simp
  qed
qed simp

lemma close_cases:
  assumes "r < length (rl_adoption s)" "length (rl_closed s) = length (rl_adoption s)"
  defines "s1 \<equiv> s\<lparr>rl_closed := (rl_closed s)[r := True]\<rparr>"
  shows "(rl_adoption s ! r = [] \<and> closeAdoptionList r s = s1) \<or>
    (rl_adoption s ! r \<noteq> [] \<and> (\<forall>i < length (rl_adoption s). rl_closed s1 ! i) \<and> closeAdoptionList r s = s1) \<or>
    (\<exists>i < length (rl_adoption s). i \<noteq> r \<and> \<not> rl_closed s ! i \<and>
       closeAdoptionList r s = s1\<lparr>rl_adoption := (rl_adoption s)[i := rl_adoption s ! i @ rl_adoption s ! r, r := []]\<rparr>)"
proof (cases "rl_adoption s ! r = []")
  case True
  then show ?thesis using assms(1,2) hand_over_empty [of s1 r] by (simp add: closeAdoptionList_def s1_def)
next
  case False
  have e: "closeAdoptionList r s = fold (hand_over r) [0..<length (rl_adoption s)] s1"
    using assms(1,2) by (simp add: closeAdoptionList_def s1_def Let_def)
  show ?thesis
  proof (cases "find (isOpen s1) [0..<length (rl_adoption s)]")
    case None
    then have "\<forall>i < length (rl_adoption s). rl_closed s1 ! i" using assms(2) by (auto simp: find_None_iff isOpen_def s1_def)
    then show ?thesis using hand_over_fold [of r s1] False None assms(1) e by (simp add: s1_def)
  next
    case (Some i)
    then have i: "i < length (rl_adoption s)" "isOpen s1 i" by (auto simp: find_Some_iff)
    then have "i \<noteq> r" "\<not> rl_closed s ! i" using assms(1,2) by (auto simp: isOpen_def s1_def nth_list_update split: if_splits)
    moreover have "closeAdoptionList r s = s1\<lparr>rl_adoption := (rl_adoption s)[i := rl_adoption s ! i @ rl_adoption s ! r, r := []]\<rparr>"
      using hand_over_fold [of r s1 "[0..<length (rl_adoption s)]"] False Some assms(1) e by (simp add: s1_def)
    ultimately show ?thesis using i(1) by blast
  qed
qed

lemma apart_hand_over:
  assumes "lists_apart xss" "i < length xss" "r < length xss" "i \<noteq> r"
  shows "lists_apart (xss[i := xss ! i @ xss ! r, r := []])"
proof (rule apartI)
  let ?y = "xss[i := xss ! i @ xss ! r, r := []]"
  have n: "?y ! k = (if k = r then [] else if k = i then xss ! i @ xss ! r else xss ! k)" if "k < length xss" for k
    using that assms(2-4) by (simp add: nth_list_update)
  fix k assume k: "k < length ?y"
  show "distinct (?y ! k)"
    using n [of k] k apartD(1) [OF assms(1), of k] apartD(1) [OF assms(1), of r] apartD(2) [OF assms(1), of i r] assms(2-4) by auto
  fix j x assume "j < length ?y" "x \<in> set (?y ! k)" "x \<in> set (?y ! j)"
  then show "k = j" using n [of k] n [of j] k assms(2-4) apartD(2) [OF assms(1), of k j x] apartD(2) [OF assms(1), of r j x] apartD(2) [OF assms(1), of k r x]
    by (auto split: if_splits)
qed

lemma mset_hand_over:
  assumes "i < length xss" "r < length xss" "i \<noteq> r"
  shows "mset (concat (xss[i := xss ! i @ xss ! r, r := []])) = mset (concat xss)"
  using mset_concat_update [of r "xss[i := xss ! i @ xss ! r]" "[]"] mset_concat_update [of i xss "xss ! i @ xss ! r"] assms by simp

lemma close_lists_ok:
  assumes "lists_ok s" "r < length (rl_order s)"
  shows "lists_ok (closeAdoptionList r s) \<and> mset (concat (rl_adoption (closeAdoptionList r s))) = mset (concat (rl_adoption s)) \<and>
    rl_order (closeAdoptionList r s) = rl_order s \<and> rl_withdrawn (closeAdoptionList r s) = rl_withdrawn s \<and> rl_closed (closeAdoptionList r s) = (rl_closed s)[r := True]"
proof -
  note D = lists_okD [OF assms(1)]
  let ?s1 = "s\<lparr>rl_closed := (rl_closed s)[r := True]\<rparr>"
  have closed: "(rl_closed s)[r := True] ! j \<longleftrightarrow> j = r \<or> rl_closed s ! j" if "j < length (rl_order s)" for j
    using that assms(2) D(2) by (simp add: nth_list_update)
  have r: "r < length (rl_adoption s)" "length (rl_closed s) = length (rl_adoption s)" using assms(2) D(1,2) by simp_all
  have stay: "lists_ok ?s1" if "rl_adoption s ! r = [] \<or> (\<forall>i < length (rl_adoption s). rl_closed ?s1 ! i)"
  proof (rule lists_okI)
    show "length (rl_adoption ?s1) = length (rl_order ?s1)" "length (rl_closed ?s1) = length (rl_order ?s1)" "lists_apart (rl_order ?s1)" "lists_apart (rl_adoption ?s1)"
      using D(1-4) by simp_all
    fix i j assume ij: "i < length (rl_order ?s1)" "j < length (rl_order ?s1)"
    show "rl_closed ?s1 ! j" if "i \<noteq> j" "b \<in> set (rl_adoption ?s1 ! i)" "b \<in> set (rl_order ?s1 ! j)" for b
      using D(5) [of i j b] that ij closed by simp
    show "rl_closed ?s1 ! j" if "rl_closed ?s1 ! i" "rl_adoption ?s1 ! i \<noteq> []"
      using D(6) [of i j] that ij closed [of i] closed [of j] D(1) \<open>rl_adoption s ! r = [] \<or> _\<close> by auto
  qed
  have move: "lists_ok (?s1\<lparr>rl_adoption := (rl_adoption s)[i := rl_adoption s ! i @ rl_adoption s ! r, r := []]\<rparr>)"
    if i: "i < length (rl_adoption s)" "i \<noteq> r" "\<not> rl_closed s ! i" for i
  proof (rule lists_okI)
    let ?s2 = "?s1\<lparr>rl_adoption := (rl_adoption s)[i := rl_adoption s ! i @ rl_adoption s ! r, r := []]\<rparr>"
    have A: "rl_adoption ?s2 ! k = (if k = r then [] else if k = i then rl_adoption s ! i @ rl_adoption s ! r else rl_adoption s ! k)"
      if "k < length (rl_order s)" for k using that r i D(1) by (simp add: nth_list_update)
    show "length (rl_adoption ?s2) = length (rl_order ?s2)" "length (rl_closed ?s2) = length (rl_order ?s2)" "lists_apart (rl_order ?s2)" using D(1-3) by simp_all
    show "lists_apart (rl_adoption ?s2)" using apart_hand_over [OF D(4) i(1) r(1) i(2)] by simp
    fix k j assume kj: "k < length (rl_order ?s2)" "j < length (rl_order ?s2)"
    then have kj': "k < length (rl_order s)" "j < length (rl_order s)" by simp_all
    show "rl_closed ?s2 ! j" if "k \<noteq> j" "b \<in> set (rl_adoption ?s2 ! k)" "b \<in> set (rl_order ?s2 ! j)" for b
    proof -
      have "k \<noteq> r" "b \<in> set (rl_adoption s ! k) \<or> k = i \<and> b \<in> set (rl_adoption s ! r)" using that(2) A [OF kj'(1)] by (auto split: if_splits)
      then have "j = r \<or> rl_closed s ! j" using D(5) [of k j b] D(5) [of r j b] that kj' r D(1) by auto
      then show ?thesis using closed [OF kj'(2)] by simp
    qed
    show "rl_closed ?s2 ! j" if "rl_closed ?s2 ! k" "rl_adoption ?s2 ! k \<noteq> []"
    proof -
      have k: "k \<noteq> r" using that(2) A [OF kj'(1)] by auto
      then have "rl_closed s ! k" using that(1) closed [OF kj'(1)] by simp
      moreover from this have "rl_adoption s ! k \<noteq> []" using that(2) A [OF kj'(1)] k i(3) by (auto split: if_splits)
      ultimately show ?thesis using D(6) [of k i] kj' i D(1) by simp
    qed
  qed
  from close_cases [OF r] show ?thesis
  proof (elim disjE exE conjE)
    fix i assume i: "i < length (rl_adoption s)" "i \<noteq> r" "\<not> rl_closed s ! i"
      "closeAdoptionList r s = ?s1\<lparr>rl_adoption := (rl_adoption s)[i := rl_adoption s ! i @ rl_adoption s ! r, r := []]\<rparr>"
    show ?thesis unfolding i(4) using move [OF i(1-3)] mset_hand_over [OF i(1) r(1) i(2)] by simp
  qed (use stay in simp_all)
qed

lemma locals_close:
  "locals_ok L s \<Longrightarrow> rl_order s' = rl_order s \<Longrightarrow> rl_withdrawn s' = rl_withdrawn s \<Longrightarrow> length (rl_closed s) = length (rl_order s) \<Longrightarrow>
    rl_closed s' = (rl_closed s)[r := True] \<Longrightarrow> locals_ok L s'"
  unfolding locals_ok_def by (metis nth_list_update nth_list_update_neq)

lemma leave_ok:
  assumes "crew_ok c" "r < length (rl_closed (cr_lists c))"
  shows "crew_ok (c\<lparr>cr_lists := closeAdoptionList r (cr_lists c)\<rparr>)"
proof -
  have ok: "lists_ok (cr_lists c)" "locals_ok (cr_local c) (cr_lists c)" using assms(1) by (simp_all add: crew_ok_def)
  have r: "r < length (rl_order (cr_lists c))" using lists_okD(2) [OF ok(1)] assms(2) by simp
  note C = close_lists_ok [OF ok(1) r]
  have "locals_ok (cr_local c) (closeAdoptionList r (cr_lists c))"
    by (rule locals_close [OF ok(2)]) (use C lists_okD(2) [OF ok(1)] in simp_all)
  then show ?thesis using C assms(1) by (simp add: crew_ok_def)
qed

lemma finish_ok:
  assumes "crew_ok c" "closeAdoptionListIfEmpty r (cr_lists c) = (closed, s')"
  shows "crew_ok (c\<lparr>cr_lists := s'\<rparr>)"
proof (cases "r < length (rl_adoption (cr_lists c)) \<and> rl_adoption (cr_lists c) ! r = []")
  case True
  have ok: "lists_ok (cr_lists c)" using assms(1) by (simp add: crew_ok_def)
  have len: "length (rl_closed (cr_lists c)) = length (rl_adoption (cr_lists c))" using lists_okD(1,2) [OF ok] by simp
  have "closeAdoptionList r (cr_lists c) = s'"
    using assms(2) True len hand_over_empty by (auto simp: closeAdoptionListIfEmpty_def closeAdoptionList_def Let_def)
  then show ?thesis using leave_ok [OF assms(1), of r] True len by simp
next
  case False
  have "length (rl_closed (cr_lists c)) = length (rl_adoption (cr_lists c))" using assms(1) lists_okD(1,2) by (auto simp: crew_ok_def)
  then have "s' = cr_lists c" using assms(2) False by (auto simp: closeAdoptionListIfEmpty_def split: if_splits)
  then show ?thesis using assms(1) by simp
qed

subsection \<open>Withdrawn and removed blocks\<close>

text \<open>Job lists that only lose blocks: fewer blocks in the lists, the locals keep what their job list keeps or what is withdrawn.\<close>

lemma shrink_ok:
  assumes "lists_ok s" "length order = length (rl_order s)" "\<And>i. i < length (rl_order s) \<Longrightarrow> distinct (rl_order s ! i) \<Longrightarrow> distinct (order ! i) \<and> set (order ! i) \<subseteq> set (rl_order s ! i)"
  shows "lists_ok (s\<lparr>rl_order := order\<rparr>)"
proof (rule lists_okI)
  note D = lists_okD [OF assms(1)]
  let ?t = "s\<lparr>rl_order := order\<rparr>"
  show "length (rl_adoption ?t) = length (rl_order ?t)" "length (rl_closed ?t) = length (rl_order ?t)" "lists_apart (rl_adoption ?t)" using D(1,2,4) assms(2) by simp_all
  show "lists_apart (rl_order ?t)" using apart_subset [OF D(3) assms(2,3)] by simp
  fix i j assume ij: "i < length (rl_order ?t)" "j < length (rl_order ?t)"
  show "rl_closed ?t ! j" if "i \<noteq> j" "b \<in> set (rl_adoption ?t ! i)" "b \<in> set (rl_order ?t ! j)" for b
  proof -
    have j: "j < length (rl_order s)" using ij(2) assms(2) by simp
    have "b \<in> set (rl_order s ! j)" using that(3) assms(3) [OF j apartD(1) [OF D(3) j]] by auto
    then show ?thesis using D(5) [of i j b] that ij assms(2) by simp
  qed
  show "rl_closed ?t ! j" if "rl_closed ?t ! i" "rl_adoption ?t ! i \<noteq> []" using D(6) [of i j] that ij assms(2) by simp
qed

lemma withdraw_ok: "crew_ok c \<Longrightarrow> crew_ok (c\<lparr>cr_lists := withdrawFromRun b (cr_lists c)\<rparr>)"
proof -
  assume c: "crew_ok c"
  have "lists_ok (withdrawFromRun b (cr_lists c)) = lists_ok (cr_lists c)" by (simp add: withdrawFromRun_def lists_ok_def)
  moreover have "locals_ok (cr_local c) (withdrawFromRun b (cr_lists c))"
    using c unfolding crew_ok_def locals_ok_def withdrawFromRun_def by fastforce
  ultimately show ?thesis using c by (simp add: crew_ok_def) (simp add: withdrawFromRun_def)
qed

lemma drop_one: "fold drop_block (w # ws) (local, s) = fold drop_block ws (removeAll w local, s\<lparr>rl_order := map (removeAll w) (rl_order s)\<rparr>)"
  by (simp add: drop_block_def)

lemma filter_removeAll: "[b \<leftarrow> removeAll w xs. b \<notin> ws] = [b \<leftarrow> xs. b \<notin> insert w ws]"
  by (induction xs) auto

lemma drop_fold:
  "fold drop_block ws (local, s) = ([b \<leftarrow> local. b \<notin> set ws], s\<lparr>rl_order := map (filter (\<lambda>b. b \<notin> set ws)) (rl_order s)\<rparr>)"
proof (induction ws arbitrary: local s)
  case (Cons w ws)
  show ?case unfolding drop_one Cons.IH by (simp add: filter_removeAll comp_def)
next
  case Nil
  have "map (filter (\<lambda>b. True)) xss = xss" for xss :: "block_ptr list list" by (induction xss) simp_all
  then show ?case by simp
qed

lemma drop_ok:
  assumes "crew_ok c" "cr_lists c = s" "r < length (rl_closed s)" "dropWithdrawnBlocks (cr_local c ! r) s = (n, local, s')"
  shows "crew_ok (c\<lparr>cr_lists := s', cr_local := (cr_local c)[r := local]\<rparr>)"
proof -
  have ok: "lists_ok s" and L: "locals_ok (cr_local c) s" using assms(1,2) by (simp_all add: crew_ok_def)
  note D = lists_okD [OF ok]
  let ?keep = "filter (\<lambda>b. b \<notin> set (rl_withdrawn s))"
  have s': "s' = s\<lparr>rl_order := map ?keep (rl_order s)\<rparr>" and l: "local = ?keep (cr_local c ! r)"
    using assms(4) by (simp_all add: dropWithdrawnBlocks_def drop_fold)
  have "lists_ok s'" unfolding s' by (rule shrink_ok [OF ok]) (simp_all add: distinct_filter)
  moreover have "locals_ok ((cr_local c)[r := local]) s'"
    unfolding locals_ok_def
  proof (intro conjI allI impI)
    show "length ((cr_local c)[r := local]) = length (rl_order s')" using L by (simp add: s' locals_ok_def)
    fix q assume q: "q < length (rl_order s')" "\<not> rl_closed s' ! q"
    then have old: "distinct (cr_local c ! q)" "set (cr_local c ! q) - set (rl_withdrawn s) \<subseteq> set (rl_order s ! q)" "q < length (cr_local c)" "q < length (rl_order s)"
      using L by (simp_all add: s' locals_ok_def)
    show "distinct ((cr_local c)[r := local] ! q)" using old(1,3) by (cases "q = r") (simp_all add: l)
    show "set ((cr_local c)[r := local] ! q) - set (rl_withdrawn s') \<subseteq> set (rl_order s' ! q)" using old(2-4) by (cases "q = r") (auto simp: l s')
  qed
  ultimately show ?thesis using assms(1,2) by (simp add: crew_ok_def s')
qed

lemma adoption_shrink_ok:
  assumes "lists_ok s" "length xss = length (rl_adoption s)" "\<And>i. i < length (rl_adoption s) \<Longrightarrow> distinct (rl_adoption s ! i) \<Longrightarrow> distinct (xss ! i) \<and> set (xss ! i) \<subseteq> set (rl_adoption s ! i)"
  shows "lists_ok (s\<lparr>rl_adoption := xss\<rparr>)"
proof (rule lists_okI)
  note D = lists_okD [OF assms(1)]
  let ?t = "s\<lparr>rl_adoption := xss\<rparr>"
  show "length (rl_adoption ?t) = length (rl_order ?t)" "length (rl_closed ?t) = length (rl_order ?t)" "lists_apart (rl_order ?t)" using D(1-3) assms(2) by simp_all
  show "lists_apart (rl_adoption ?t)" using apart_subset [OF D(4) assms(2,3)] by simp
  fix i j assume ij: "i < length (rl_order ?t)" "j < length (rl_order ?t)"
  then have i: "i < length (rl_adoption s)" "i < length (rl_order s)" "j < length (rl_order s)" using D(1) by simp_all
  have sub: "set (xss ! i) \<subseteq> set (rl_adoption s ! i)" using assms(3) [OF i(1) apartD(1) [OF D(4) i(1)]] by simp
  show "rl_closed ?t ! j" if "i \<noteq> j" "b \<in> set (rl_adoption ?t ! i)" "b \<in> set (rl_order ?t ! j)" for b
    using D(5) [of i j b] that i sub by auto
  show "rl_closed ?t ! j" if "rl_closed ?t ! i" "rl_adoption ?t ! i \<noteq> []"
    using D(6) [of i j] that i sub by (cases "rl_adoption s ! i = []") auto
qed

lemma zombies_irrelevant [simp]:
  "lists_ok (s\<lparr>rl_zombies := z\<rparr>) = lists_ok s" "locals_ok L (s\<lparr>rl_zombies := z\<rparr>) = locals_ok L s"
  by (simp_all add: lists_ok_def locals_ok_def)

lemma makeZombie_lists:
  assumes "makeZombie E n held b (cs0, s) = (cs, s')"
  shows "\<exists>z. s' = s\<lparr>rl_adoption := remove_first b (rl_adoption s), rl_zombies := z\<rparr>"
proof (cases "\<not> isActive (cs0 b) \<and> \<not> jobListHolds held b (s\<lparr>rl_adoption := remove_first b (rl_adoption s)\<rparr>)")
  case True
  then have "s' = s\<lparr>rl_adoption := remove_first b (rl_adoption s)\<rparr>" using assms by (simp add: makeZombie_def Let_def)
  then have "s' = s\<lparr>rl_adoption := remove_first b (rl_adoption s), rl_zombies := rl_zombies s\<rparr>" by (cases s) simp
  then show ?thesis by blast
next
  case False
  then have "s' = s\<lparr>rl_adoption := remove_first b (rl_adoption s), rl_zombies := rl_zombies s @ [b]\<rparr>"
    using assms unfolding makeZombie_def Let_def prod.case by (simp only: if_False) simp
  then show ?thesis by blast
qed

lemma remove_ok:
  assumes "crew_ok c" "cr_lists c = s" "makeZombie E n held b (cr_children c, s) = (cs, s')"
  shows "crew_ok (c\<lparr>cr_lists := s', cr_children := cs,
    cr_removed := (if \<exists>i < length (rl_adoption s). b \<in> set (rl_adoption s ! i) then add_mset b (cr_removed c) else cr_removed c)\<rparr>)"
proof -
  have ok: "lists_ok s" and L: "locals_ok (cr_local c) s" and m: "cr_queued c = cr_taken c + mset (concat (rl_adoption s)) + cr_removed c"
    using assms(1,2) by (simp_all add: crew_ok_def)
  let ?t = "s\<lparr>rl_adoption := remove_first b (rl_adoption s)\<rparr>"
  obtain z where s': "s' = ?t\<lparr>rl_zombies := z\<rparr>" using makeZombie_lists [OF assms(3)] by blast
  have "lists_ok ?t" unfolding remove_first_apart [OF lists_okD(4) [OF ok]] by (rule adoption_shrink_ok [OF ok]) (auto simp: distinct_removeAll)
  moreover have "locals_ok (cr_local c) ?t" using L by (simp add: locals_ok_def)
  moreover have "cr_queued c = cr_taken c + mset (concat (remove_first b (rl_adoption s))) +
      (if \<exists>i < length (rl_adoption s). b \<in> set (rl_adoption s ! i) then add_mset b (cr_removed c) else cr_removed c)"
    unfolding m by (subst remove_first_mset [of "rl_adoption s" b]) simp
  ultimately show ?thesis unfolding s' crew_ok_def by simp
qed

subsection \<open>Zombies\<close>

text \<open>What the scan of the zombies keeps for the worker's own list, with \<open>W\<close> the withdrawn blocks.\<close>

definition scan_ok :: "block_ptr set \<Rightarrow> nat \<Rightarrow> block_ptr list list \<Rightarrow> zombie_scan \<Rightarrow> bool" where
  "scan_ok W r old = (\<lambda>(kept, local, cs, order). lists_apart order \<and> length order = length old \<and> distinct local \<and> set local - W \<subseteq> set (order ! r) \<and>
     (\<forall>i < length old. distinct (order ! i) \<and> set (order ! i) \<subseteq> set (old ! i) \<and> (i \<noteq> r \<longrightarrow> set (old ! i) - W \<subseteq> set (order ! i))))"

lemma scan_delete:
  assumes "scan_ok W r old (kept, local, cs, order)" "z \<in> set local" "r < length old"
  shows "scan_ok W r old (kept, remove1 z local, cs, erase_first z order)"
proof -
  have I: "lists_apart order" "length order = length old" "distinct local" "set local - W \<subseteq> set (order ! r)"
      "\<forall>i < length old. distinct (order ! i) \<and> set (order ! i) \<subseteq> set (old ! i) \<and> (i \<noteq> r \<longrightarrow> set (old ! i) - W \<subseteq> set (order ! i))"
    using assms(1) unfolding scan_ok_def prod.case by blast+
  have e: "erase_first z order ! i = removeAll z (order ! i)" if "i < length old" for i
    using that I(2) by (simp add: erase_first_apart [OF I(1)])
  have z: "z \<in> W" if i: "i < length old" "i \<noteq> r" "z \<in> set (order ! i)" for i
  proof (rule ccontr)
    assume "z \<notin> W"
    then have "z \<in> set (order ! r)" using I(4) assms(2) by blast
    then show False using apartD(2) [OF I(1), of i r z] I(2) i assms(3) by simp
  qed
  have "set (remove1 z local) - W \<subseteq> set (erase_first z order ! r)" using I(4) unfolding e [OF assms(3)] set_remove1_eq [OF I(3)] by auto
  moreover have "distinct (erase_first z order ! i) \<and> set (erase_first z order ! i) \<subseteq> set (old ! i) \<and>
      (i \<noteq> r \<longrightarrow> set (old ! i) - W \<subseteq> set (erase_first z order ! i))" if i: "i < length old" for i
  proof -
    have o: "distinct (order ! i)" "set (order ! i) \<subseteq> set (old ! i)" "i \<noteq> r \<longrightarrow> set (old ! i) - W \<subseteq> set (order ! i)" using I(5) i by blast+
    have "set (old ! i) - W \<subseteq> set (order ! i) - {z}" if "i \<noteq> r" using o(3) z [OF i that] that by blast
    then show ?thesis using o(1,2) unfolding e [OF i] by (auto simp: distinct_removeAll)
  qed
  moreover have "lists_apart (erase_first z order)" "length (erase_first z order) = length old"
    using apart_removeAll [OF I(1), of z] I(2) by (simp_all add: erase_first_apart [OF I(1)])
  moreover have "distinct (remove1 z local)" using I(3) by simp
  ultimately show ?thesis unfolding scan_ok_def prod.case by blast
qed

lemma scan_one: "scan_ok W r old t \<Longrightarrow> r < length old \<Longrightarrow> scan_ok W r old (clean_one E n z t)"
proof -
  assume t: "scan_ok W r old t" "r < length old"
  obtain kept local cs order where e: "t = (kept, local, cs, order)" by (rule prod_cases4)
  have same: "scan_ok W r old (kept', local, cs', order)" for kept' cs' using t(1) by (simp add: e scan_ok_def)
  show ?thesis
  proof (cases "z \<in> set local")
    case True
    from scan_delete [OF t(1) [unfolded e] True t(2)] show ?thesis
      using same True by (simp add: e clean_one_def scan_ok_def split: state.split)
  qed (simp add: e clean_one_def same)
qed

lemma scan_all: "scan_ok W r old t \<Longrightarrow> r < length old \<Longrightarrow> scan_ok W r old (fold (clean_one E n) zs t)"
  by (induction zs arbitrary: t) (simp_all add: scan_one)

lemma clean_ok:
  assumes "crew_ok c" "cr_lists c = s" "r < length (rl_closed s)" "\<not> rl_closed s ! r"
    "cleanupZombieBlocks E n (cr_local c ! r) (cr_children c, s) = (local, cs, s')"
  shows "crew_ok (c\<lparr>cr_lists := s', cr_local := (cr_local c)[r := local], cr_children := cs\<rparr>)"
proof (cases "cr_local c ! r = []")
  case True
  then have "local = cr_local c ! r" "s' = s" "cs = cr_children c" using assms(5) by (simp_all add: cleanupZombieBlocks_def)
  then show ?thesis using assms(1,2) by (simp add: crew_ok_def)
next
  case False
  have ok: "lists_ok s" and L: "locals_ok (cr_local c) s" using assms(1,2) by (simp_all add: crew_ok_def)
  note D = lists_okD [OF ok]
  have r: "r < length (rl_order s)" using assms(3) D(2) by simp
  let ?W = "set (rl_withdrawn s)"
  obtain kept local1 cs1 order where f: "fold (clean_one E n) (rl_zombies s) ([], cr_local c ! r, cr_children c, rl_order s) = (kept, local1, cs1, order)"
    by (rule prod_cases4)
  have s': "local = local1" "cs = cs1" "s' = s\<lparr>rl_zombies := kept, rl_order := order\<rparr>" using assms(5) False f by (simp_all add: cleanupZombieBlocks_def)
  have "scan_ok ?W r (rl_order s) ([], cr_local c ! r, cr_children c, rl_order s)"
    using D(3) L r assms(4) apartD(1) [OF D(3)] by (simp add: scan_ok_def locals_ok_def)
  from scan_all [OF this r, of E n "rl_zombies s"] have S: "scan_ok ?W r (rl_order s) (kept, local, cs, order)" unfolding f s' .
  then have I: "length order = length (rl_order s)" "distinct local" "set local - ?W \<subseteq> set (order ! r)"
      "\<And>i. i < length (rl_order s) \<Longrightarrow> distinct (order ! i) \<and> set (order ! i) \<subseteq> set (rl_order s ! i) \<and> (i \<noteq> r \<longrightarrow> set (rl_order s ! i) - ?W \<subseteq> set (order ! i))"
    by (simp_all add: scan_ok_def)
  have "lists_ok (s\<lparr>rl_order := order\<rparr>)" by (rule shrink_ok [OF ok I(1)]) (use I(4) in blast)
  then have "lists_ok s'" by (simp add: s' lists_ok_def)
  moreover have "locals_ok ((cr_local c)[r := local]) s'"
    unfolding locals_ok_def
  proof (intro conjI allI impI)
    show "length ((cr_local c)[r := local]) = length (rl_order s')" using L I(1) by (simp add: s' locals_ok_def)
    fix q assume q: "q < length (rl_order s')" "\<not> rl_closed s' ! q"
    then have old: "distinct (cr_local c ! q)" "set (cr_local c ! q) - ?W \<subseteq> set (rl_order s ! q)" "q < length (cr_local c)" "q < length (rl_order s)"
      using L I(1) by (simp_all add: s' locals_ok_def)
    show "distinct ((cr_local c)[r := local] ! q)" using old(1,3) I(2) by (cases "q = r") simp_all
    have "set (cr_local c ! q) - ?W \<subseteq> set (order ! q)" if "q \<noteq> r" using I(4) [OF old(4)] old(2) that by blast
    then show "set ((cr_local c)[r := local] ! q) - set (rl_withdrawn s') \<subseteq> set (rl_order s' ! q)" using old(3) I(3) by (cases "q = r") (simp_all add: s')
  qed
  ultimately show ?thesis using assms(1,2) by (simp add: crew_ok_def s')
qed

section \<open>No block is lost and none runs twice\<close>

lemma crew_step_ok: "crew_step E c c' \<Longrightarrow> crew_ok c \<Longrightarrow> crew_ok c'"
proof (induction rule: crew_step.induct)
  case (queue s b preferred j s' c)
  then show ?case using queue_ok by blast
next
  case (adopt c s r n local s')
  then show ?case using adopt_ok by blast
next
  case (leave r c)
  then show ?case using leave_ok by blast
next
  case (finish r c closed s')
  then show ?case using finish_ok by blast
next
  case (withdraw c b)
  then show ?case using withdraw_ok by blast
next
  case (drop c s r n local s')
  then show ?case using drop_ok by blast
next
  case (remove c s n held b cs s')
  then show ?case using remove_ok by blast
next
  case (clean c s r n local cs s')
  then show ?case using clean_ok by blast
next
  case (evolve c cs)
  then show ?case by (simp add: crew_ok_def)
qed

lemma crew_run_ok: "(crew_step E)\<^sup>*\<^sup>* c c' \<Longrightarrow> crew_start c \<Longrightarrow> crew_ok c'"
  by (induction rule: rtranclp_induct) (auto intro: crew_start_ok crew_step_ok)



text \<open>Two workers; a block is queued for the second, which leaves, and the first adopts it.\<close>

definition two_lists :: "block_ptr list list \<Rightarrow> bool list \<Rightarrow> run_lists" where
  "two_lists waiting closed = \<lparr>rl_order = [[1], [2]], rl_adoption = waiting, rl_closed = closed, rl_withdrawn = [], rl_zombies = []\<rparr>"

definition two_workers :: "run_lists \<Rightarrow> block_ptr multiset \<Rightarrow> crew" where
  "two_workers s queued = \<lparr>cr_lists = s, cr_local = [[1], [2]], cr_children = (\<lambda>b. RUNNING), cr_queued = queued, cr_taken = {#}, cr_removed = {#}\<rparr>"

definition demo_children :: child_env where
  "demo_children = \<lparr>ce_heap = group_block, ce_hash = (\<lambda>b. 1), ce_change = (\<lambda>b old new. (True, new)), ce_blocking = (\<lambda>b. False), ce_startAdopted = (\<lambda>b s. (True, RUNNING))\<rparr>"

lemma two_workers_start: "crew_start (two_workers (open_run (two_lists [[], []] [])) {#})"
proof -
  have "lists_apart [[1], [2 :: nat]]" by (rule apartI) (auto simp: less_Suc_eq)
  then show ?thesis unfolding crew_start_def
    by (intro exI [of _ "two_lists [[], []] []"] exI [of _ 2]) (simp add: two_workers_def two_lists_def numeral_2_eq_2)
qed

lemma two_queued: "crew_step demo_children (two_workers (open_run (two_lists [[], []] [])) {#}) (two_workers (two_lists [[], [3]] [False, False]) {#3#})"
proof -
  let ?s = "open_run (two_lists [[], []] [])"
  have q: "queueForAdoption (ce_hash demo_children) 3 None ?s = (Some 1, two_lists [[], [3]] [False, False])"
    by (simp add: queueForAdoption_def openLists_def isOpen_def open_run_def two_lists_def demo_children_def enqueue_def push_to_def upt_rec Let_def)
  have "\<forall>i < length (rl_adoption ?s). 3 \<notin> set (rl_adoption ?s ! i)" "3 \<notin> set (rl_withdrawn ?s)"
    "\<forall>i < length (rl_order ?s). 3 \<in> set (rl_order ?s ! i) \<longrightarrow> None = Some i \<or> length (rl_order ?s) = 1"
    by (auto simp: open_run_def two_lists_def less_Suc_eq)
  from crew_step.queue [OF this q, of "two_workers ?s {#}"] show ?thesis by (simp add: two_workers_def)
qed

lemma two_left: "crew_step demo_children (two_workers (two_lists [[], [3]] [False, False]) {#3#}) (two_workers (two_lists [[3], []] [False, True]) {#3#})"
proof -
  have "closeAdoptionList 1 (two_lists [[], [3]] [False, False]) = two_lists [[3], []] [False, True]"
    by (simp add: closeAdoptionList_def two_lists_def Let_def hand_over_def isOpen_def upt_rec)
  then show ?thesis using crew_step.leave [of 1 "two_workers (two_lists [[], [3]] [False, False]) {#3#}" demo_children]
    by (simp add: two_workers_def) (simp add: two_lists_def)
qed



end
