(* ===== verification/Spec2Isabelle.thy ===== *)
theory Spec2Isabelle
  imports HistoryBuffer LifeCycle MultiProducer CircularBuffer TriggerMatcher AtomicBitset ReaderWriterLock MemberTypes TagForwarding FlowConnect RunLists
begin

text \<open>
  A verification development for gnuradio4-core, the core of a signal processing framework in C++. Blocks with stream and message
  ports are the nodes of a graph; a scheduler calls the blocks' \<^verbatim>\<open>work()\<close> on its workers; every edge is a circular buffer with tags
  beside the samples; a block's members are changed at run time through its settings. The theories follow these parts, each with the
  data, the operations and the properties of the code it names. All sources are under \<^verbatim>\<open>src/core/include/gnuradio-4.0/\<close> unless a
  name says otherwise.

  Streams. \<^verbatim>\<open>HistoryBuffer\<close>: the single-threaded ring with its lazily synchronised mirror (\<^verbatim>\<open>HistoryBuffer.hpp\<close>), against the list
  of its newest elements. \<^verbatim>\<open>ClaimStrategy\<close>, \<^verbatim>\<open>MultiProducer\<close>: sequences and the two claim strategies (\<^verbatim>\<open>Sequence.hpp\<close>,
  \<^verbatim>\<open>ClaimStrategy.hpp\<close>) on 64-bit cursors, and every interleaving of several producers: what is published was written and nothing unread
  is overwritten. \<^verbatim>\<open>CircularBuffer\<close>: spans, release policies, writers and readers (\<^verbatim>\<open>CircularBuffer.hpp\<close>); one writer and one reader
  refine a bounded queue.

  Values and settings. \<^verbatim>\<open>PmtValue\<close>, \<^verbatim>\<open>PmtConvert\<close>: the polymorphic value and its checked conversions (\<^verbatim>\<open>Value.hpp\<close>,
  \<^verbatim>\<open>PmtTypeHelpers.hpp\<close>); floating-point numbers are their IEEE bit patterns. \<^verbatim>\<open>TagMap\<close>, \<^verbatim>\<open>TriggerMatcher\<close>: tags, their merge, and the
  filter on tags (\<^verbatim>\<open>Tag.hpp\<close>, \<^verbatim>\<open>TriggerMatcher.hpp\<close>), which refines a machine on a parsed configuration. \<^verbatim>\<open>SettingsStore\<close>,
  \<^verbatim>\<open>SettingsApply\<close>, \<^verbatim>\<open>Members\<close>, \<^verbatim>\<open>MemberTypes\<close>: the stored sets with their contexts and times, staging, applying and resetting, the
  members of a block type with their limits (\<^verbatim>\<open>Settings.hpp\<close>, \<^verbatim>\<open>SettingsCtx.hpp\<close>, \<^verbatim>\<open>annotated.hpp\<close>, \<^verbatim>\<open>src/core/src/Settings.cpp\<close>): a batch
  settles exactly or is restored, and every member keeps its type.

  Blocks. \<^verbatim>\<open>LifeCycle\<close>: states, transitions with hooks, and concurrent transitions (\<^verbatim>\<open>LifeCycle.hpp\<close>). \<^verbatim>\<open>BlockSizing\<close>,
  \<^verbatim>\<open>TagForwarding\<close>: how a call of \<^verbatim>\<open>work()\<close> is sized from its ports, chunks and strides, when a drain is given up, and how tags are
  handed on (\<^verbatim>\<open>Block.hpp\<close>, \<^verbatim>\<open>Port.hpp\<close>): the sizes are exact and within the streams, tags keep their positions.

  Graphs and schedulers. \<^verbatim>\<open>ComputeDomain\<close>: domains of memory and their providers. \<^verbatim>\<open>FlowGraph\<close>: ports by index and by name, edges,
  the edits of a graph and nested graphs (\<^verbatim>\<open>BlockModel.hpp\<close>, \<^verbatim>\<open>Graph.hpp\<close>). \<^verbatim>\<open>FlowConnect\<close>: the rings of the ports, connecting and
  releasing edges; whatever edits lead there, a connected edge's input reads the ring its source writes, and the ring covers what the
  edges ask for. \<^verbatim>\<open>ExecutionOrder\<close>: adjacency lists, breadth-first and depth-first search and the division into job lists
  (\<^verbatim>\<open>Scheduler.hpp\<close>); the searches end on every graph and each block is in exactly one job list. \<^verbatim>\<open>RunLists\<close>: blocks that join, leave and
  are removed while a run goes on, and one traversal of a worker's blocks; in every interleaving no queued block is lost and, withdrawn blocks
  aside, no two workers hold the same block. A life cycle state of \<^verbatim>\<open>LifeCycle\<close> and a status of \<^verbatim>\<open>BlockSizing\<close> appear there as the children's.

  Shared machinery. \<^verbatim>\<open>Prelude\<close>: machine sizes, copies between ranges, arithmetic of ring indices, searches in lists. \<^verbatim>\<open>AtomicBitset\<close>,
  \<^verbatim>\<open>ReaderWriterLock\<close>: the bit set and the lock (\<^verbatim>\<open>AtomicBitset.hpp\<close>, \<^verbatim>\<open>reader_writer_lock.hpp\<close>, \<^verbatim>\<open>AtomicRef.hpp\<close>) with the interleavings
  of their compare-and-swap loops.

  Conventions. A record is a class, a datatype an enumeration or a variant; an operation takes the object and returns it changed, with
  its result or its error as a value. Cursors and bit sets are 64-bit words; sizes that the code keeps far below their range are
  natural numbers, and where a product or a sum of them may wrap the wrap is written out. Concurrent code is an inductive relation
  whose steps are the atomic accesses or the critical sections of the code; memory orderings are sequentially consistent. Code that is
  not in the repository or that the user writes is an argument: the hooks of the life cycle, a block's callbacks and its \<^verbatim>\<open>work()\<close>,
  \<^verbatim>\<open>std::hash\<close>, the iteration order of unordered maps, the sizes that memory resources allocate.

  Loops and bounds. The searches of a configuration or of a context are bounded by the code's own constants. The breadth-first loop is
  a \<^verbatim>\<open>while_option\<close> and shown to end on every graph; the recursion of the depth-first search has a bound on its depth, and any bound
  above the number of blocks gives the result. The spinning of the lock is the sequence of its iterations with a bound on those that a
  thread needs once nobody opposes it.

  Not modelled. The dispatch of a call to the user's processing functions and their SIMD variants, tensors as strided views, the YAML
  format and the importer of graphs, plugins and registries, threads and their affinities, timed waits and parking, messages between
  blocks, memory allocation and profiling, the formatters and the command line tools: they are compile-time selection, services of
  the operating system, or input and output. The connected components and the feedback loops of a graph are left to a later extension.
\<close>

end
